(* ===== verification/Prelude.thy ===== *)
theory Prelude
  imports Main "HOL-Library.Word"
begin

text \<open>
  What every component of the development shares: the machine integers of the C code, the
  outcome of a kernel operation, the combinators that sequence operations, a weakest
  precondition calculus over them, searches through fixed-size tables, and little-endian
  access to byte arrays. Nothing in this theory models a particular function of the kernel.
\<close>

unbundle bit_operations_syntax

named_theorems wp_simps "equations that push wp and wlp through the combinators"
named_theorems k_simps "unfolding rules of the combinators at a state"

section \<open>Machine integers\<close>

type_synonym u8 = "8 word"
type_synonym u16 = "16 word"
type_synonym u32 = "32 word"

section \<open>Outcomes and sequencing\<close>

text \<open>
  A kernel operation maps a state to an error or to a result and the next state. The errors
  are the ways a C function of the kernel does not come back to its caller: \<open>panic\<close> with its
  message, a wait that only another process or CPU can end (a spin or a \<open>sleep\<close>), a read or
  write through a bad pointer or index, and the fuel bound of a loop model.
\<close>

datatype kerr = Panic string | Waits string | Fault string | NoFuel

type_synonym ('s, 'a) kop = "'s \<Rightarrow> kerr + ('a \<times> 's)"

definition ret :: "'a \<Rightarrow> ('s, 'a) kop" where
  "ret x s = Inr (x, s)"

definition bnd :: "('s, 'a) kop \<Rightarrow> ('a \<Rightarrow> ('s, 'b) kop) \<Rightarrow> ('s, 'b) kop" where
  "bnd m f s = (case m s of Inl e \<Rightarrow> Inl e | Inr (x, s') \<Rightarrow> f x s')"

definition thn :: "('s, 'a) kop \<Rightarrow> ('s, 'b) kop \<Rightarrow> ('s, 'b) kop" where
  "thn m n = bnd m (\<lambda>_. n)"

definition kerror :: "kerr \<Rightarrow> ('s, 'a) kop" where
  "kerror e s = Inl e"

abbreviation panic :: "string \<Rightarrow> ('s, 'a) kop" where
  "panic msg \<equiv> kerror (Panic msg)"

definition rd :: "('s \<Rightarrow> 'a) \<Rightarrow> ('s, 'a) kop" where
  "rd f s = Inr (f s, s)"

definition upd :: "('s \<Rightarrow> 's) \<Rightarrow> ('s, unit) kop" where
  "upd f s = Inr ((), f s)"

definition whn :: "bool \<Rightarrow> ('s, unit) kop \<Rightarrow> ('s, unit) kop" where
  "whn b m = (if b then m else ret ())"

text \<open>\<open>each f xs\<close> runs \<open>f\<close> on every element in order, as a counting loop without exits does.\<close>

primrec each :: "('x \<Rightarrow> ('s, unit) kop) \<Rightarrow> 'x list \<Rightarrow> ('s, unit) kop" where
  "each f [] = ret ()"
| "each f (x # xs) = thn (f x) (each f xs)"

lemmas k_unfold [k_simps] = ret_def bnd_def thn_def kerror_def rd_def upd_def whn_def

lemma bnd_Inl [simp]: "m s = Inl e \<Longrightarrow> bnd m f s = Inl e"
  by (simp add: bnd_def)

lemma bnd_Inr [simp]: "m s = Inr (x, s') \<Longrightarrow> bnd m f s = f x s'"
  by (simp add: bnd_def)

lemma thn_Inl [simp]: "m s = Inl e \<Longrightarrow> thn m n s = Inl e"
  by (simp add: thn_def)

lemma thn_Inr [simp]: "m s = Inr (x, s') \<Longrightarrow> thn m n s = n s'"
  by (simp add: thn_def)

lemma ret_bnd [simp]: "bnd (ret x) f = f x"
  by (rule ext) (simp add: bnd_def ret_def)

lemma bnd_ret [simp]: "bnd m ret = m"
  by (rule ext) (simp add: bnd_def ret_def split: sum.splits)

lemma bnd_assoc: "bnd (bnd m f) g = bnd m (\<lambda>x. bnd (f x) g)"
  by (rule ext) (simp add: bnd_def split: sum.splits)

lemma rd_bnd [simp]: "bnd (rd f) g s = g (f s) s"
  by (simp add: bnd_def rd_def)

lemma upd_bnd [simp]: "bnd (upd f) g s = g () (f s)"
  by (simp add: bnd_def upd_def)

lemma upd_thn [simp]: "thn (upd f) n s = n (f s)"
  by (simp add: thn_def)

lemma ret_thn [simp]: "thn (ret x) n = n"
  by (simp add: thn_def)

lemma bnd_eq_Inr:
  "bnd m f s = Inr r \<longleftrightarrow> (\<exists>x t. m s = Inr (x, t) \<and> f x t = Inr r)"
  by (auto simp: bnd_def split: sum.splits)

lemma thn_eq_Inr:
  "thn m n s = Inr r \<longleftrightarrow> (\<exists>x t. m s = Inr (x, t) \<and> n t = Inr r)"
  by (auto simp: thn_def bnd_eq_Inr)

section \<open>Weakest preconditions\<close>

text \<open>
  \<open>wp m Q s\<close>: run from \<open>s\<close>, \<open>m\<close> returns and its result and final state satisfy \<open>Q\<close>.
  \<open>wlp m Q s\<close>: if it returns, they do (an error is allowed).
\<close>

definition wp :: "('s, 'a) kop \<Rightarrow> ('a \<Rightarrow> 's \<Rightarrow> bool) \<Rightarrow> 's \<Rightarrow> bool" where
  "wp m Q s = (case m s of Inl _ \<Rightarrow> False | Inr (x, t) \<Rightarrow> Q x t)"

definition wlp :: "('s, 'a) kop \<Rightarrow> ('a \<Rightarrow> 's \<Rightarrow> bool) \<Rightarrow> 's \<Rightarrow> bool" where
  "wlp m Q s = (case m s of Inl _ \<Rightarrow> True | Inr (x, t) \<Rightarrow> Q x t)"

lemma wp_ret [wp_simps]: "wp (ret x) Q s = Q x s"
  by (simp add: wp_def ret_def)

lemma wp_ret_fun [wp_simps]: "wp (ret x) Q = Q x"
  by (rule ext) (simp add: wp_ret)

lemma wp_bnd [wp_simps]: "wp (bnd m f) Q s = wp m (\<lambda>x. wp (f x) Q) s"
  by (simp add: wp_def bnd_def split: sum.splits)

lemma wp_thn [wp_simps]: "wp (thn m n) Q s = wp m (\<lambda>_. wp n Q) s"
  by (simp add: thn_def wp_bnd)

lemma wp_rd [wp_simps]: "wp (rd f) Q s = Q (f s) s"
  by (simp add: wp_def rd_def)

lemma wp_upd [wp_simps]: "wp (upd f) Q s = Q () (f s)"
  by (simp add: wp_def upd_def)

lemma wp_kerror [wp_simps]: "wp (kerror e) Q s = False"
  by (simp add: wp_def kerror_def)

lemma wp_if [wp_simps]: "wp (if b then m else n) Q s = (if b then wp m Q s else wp n Q s)"
  by simp

lemma wp_whn [wp_simps]: "wp (whn b m) Q s = (if b then wp m Q s else Q () s)"
  by (simp add: whn_def wp_ret)

lemma wlp_ret [wp_simps]: "wlp (ret x) Q s = Q x s"
  by (simp add: wlp_def ret_def)

lemma wlp_ret_fun [wp_simps]: "wlp (ret x) Q = Q x"
  by (rule ext) (simp add: wlp_ret)

lemma wlp_bnd [wp_simps]: "wlp (bnd m f) Q s = wlp m (\<lambda>x. wlp (f x) Q) s"
  by (simp add: wlp_def bnd_def split: sum.splits)

lemma wlp_thn [wp_simps]: "wlp (thn m n) Q s = wlp m (\<lambda>_. wlp n Q) s"
  by (simp add: thn_def wlp_bnd)

lemma wlp_rd [wp_simps]: "wlp (rd f) Q s = Q (f s) s"
  by (simp add: wlp_def rd_def)

lemma wlp_upd [wp_simps]: "wlp (upd f) Q s = Q () (f s)"
  by (simp add: wlp_def upd_def)

lemma wlp_kerror [wp_simps]: "wlp (kerror e) Q s = True"
  by (simp add: wlp_def kerror_def)

lemma wlp_if [wp_simps]: "wlp (if b then m else n) Q s = (if b then wlp m Q s else wlp n Q s)"
  by simp

lemma wlp_whn [wp_simps]: "wlp (whn b m) Q s = (if b then wlp m Q s else Q () s)"
  by (simp add: whn_def wlp_ret)

lemma wp_mono: "wp m P s \<Longrightarrow> (\<And>x t. P x t \<Longrightarrow> Q x t) \<Longrightarrow> wp m Q s"
  by (auto simp: wp_def split: sum.splits)

lemma wlp_mono: "wlp m P s \<Longrightarrow> (\<And>x t. P x t \<Longrightarrow> Q x t) \<Longrightarrow> wlp m Q s"
  by (auto simp: wlp_def split: sum.splits)

lemma wp_I: "m s = Inr (x, t) \<Longrightarrow> Q x t \<Longrightarrow> wp m Q s"
  by (simp add: wp_def)

lemma wp_E: "wp m Q s \<Longrightarrow> (\<And>x t. m s = Inr (x, t) \<Longrightarrow> Q x t \<Longrightarrow> R) \<Longrightarrow> R"
  by (auto simp: wp_def split: sum.splits)

lemma wlp_I: "(\<And>x t. m s = Inr (x, t) \<Longrightarrow> Q x t) \<Longrightarrow> wlp m Q s"
  by (auto simp: wlp_def split: sum.splits)

lemma wlp_D: "wlp m Q s \<Longrightarrow> m s = Inr (x, t) \<Longrightarrow> Q x t"
  by (simp add: wlp_def)

lemma wp_imp_wlp: "wp m Q s \<Longrightarrow> wlp m Q s"
  by (auto simp: wp_def wlp_def split: sum.splits)

lemma wlp_conj: "wlp m P s \<Longrightarrow> wlp m Q s \<Longrightarrow> wlp m (\<lambda>x t. P x t \<and> Q x t) s"
  by (auto simp: wlp_def split: sum.splits)

lemma wlp_each:
  assumes "\<And>x t. x \<in> set xs \<Longrightarrow> I t \<Longrightarrow> wlp (f x) (\<lambda>_. I) t" and "I s"
  shows "wlp (each f xs) (\<lambda>_. I) s"
  using assms
proof (induction xs arbitrary: s)
  case Nil
  then show ?case by (simp add: wp_simps)
next
  case (Cons x xs)
  from Cons.prems have "wlp (f x) (\<lambda>_. I) s" by simp
  then show ?case
    unfolding each.simps wlp_thn
    by (rule wlp_mono) (use Cons in auto)
qed

lemma each_append: "each f (xs @ ys) = thn (each f xs) (each f ys)"
  by (induction xs) (simp_all add: thn_def bnd_assoc)

lemma wp_each_upto:
  assumes "\<And>k t. k < n \<Longrightarrow> I k t \<Longrightarrow> wp (f k) (\<lambda>_. I (Suc k)) t" "I 0 s"
  shows "wp (each f [0..<n]) (\<lambda>_. I n) s"
  using assms
proof (induction n)
  case 0
  then show ?case by (simp add: wp_simps)
next
  case (Suc n)
  then have "wp (each f [0..<n]) (\<lambda>_. I n) s" by simp
  then show ?case unfolding upt_Suc_append [OF le0] each_append wp_thn
    by (rule wp_mono) (use Suc.prems in \<open>simp add: wp_simps\<close>)
qed

section \<open>Searching a table\<close>

text \<open>
  The kernel's tables are arrays of fixed size scanned from index 0: the first index that
  satisfies a test, or none. \<open>first_idx p n\<close> is that scan.
\<close>

definition first_idx :: "(nat \<Rightarrow> bool) \<Rightarrow> nat \<Rightarrow> nat option" where
  "first_idx p n = List.find p [0..<n]"

lemma first_idx_SomeD:
  assumes "first_idx p n = Some i"
  shows "i < n" and "p i" and "\<And>j. j < i \<Longrightarrow> \<not> p j"
proof -
  from assms obtain k where k: "k < length [0..<n]" "p ([0..<n] ! k)" "i = [0..<n] ! k"
    and before: "\<forall>j<k. \<not> p ([0..<n] ! j)"
    by (auto simp: first_idx_def find_Some_iff)
  then have "i = k" by simp
  with k before show "i < n" "p i" "\<And>j. j < i \<Longrightarrow> \<not> p j" by auto
qed

lemma first_idx_None: "first_idx p n = None \<longleftrightarrow> (\<forall>i<n. \<not> p i)"
  by (auto simp: first_idx_def find_None_iff)

lemma first_idx_SomeI:
  assumes "i < n" "p i" "\<And>j. j < i \<Longrightarrow> \<not> p j"
  shows "first_idx p n = Some i"
proof (cases "first_idx p n")
  case None
  with assms show ?thesis by (auto simp: first_idx_None)
next
  case (Some k)
  from first_idx_SomeD [OF this] assms have "k = i"
    by (metis linorder_neqE_nat)
  with Some show ?thesis by simp
qed

lemma first_idx_Some_iff:
  "first_idx p n = Some i \<longleftrightarrow> i < n \<and> p i \<and> (\<forall>j<i. \<not> p j)"
  using first_idx_SomeD first_idx_SomeI by metis

section \<open>Slot tables\<close>

text \<open>
  Several tables of the kernel hand out slots by the same scan: the open file table, a process's
  descriptors, the process table, the resident and the swapped page monitors. The interface:
  \<open>busy t i\<close> says that slot \<open>i\<close> of table \<open>t\<close> is taken, \<open>slots\<close> is the table's size, \<open>grab t\<close>
  returns the slot taken (or none) with the table after it, and \<open>drop t i\<close> gives a slot back.
\<close>

locale slot_table =
  fixes busy :: "'t \<Rightarrow> nat \<Rightarrow> bool"
    and slots :: nat
    and grab :: "'t \<Rightarrow> (nat \<times> 't) option"
    and drop_slot :: "'t \<Rightarrow> nat \<Rightarrow> 't"
  assumes grab_None: "grab t = None \<longleftrightarrow> (\<forall>i< slots. busy t i)"
    and grab_Some: "grab t = Some (i, t') \<Longrightarrow>
      i < slots \<and> \<not> busy t i \<and> (\<forall>j<i. busy t j) \<and> (\<forall>j. busy t' j = (j = i \<or> busy t j))"
    and drop_busy: "busy (drop_slot t i) j = (j \<noteq> i \<and> busy t j)"
begin

definition load :: "'t \<Rightarrow> nat" where
  "load t = card {i. i < slots \<and> busy t i}"

lemma grab_load: "grab t = Some (i, t') \<Longrightarrow> load t' = Suc (load t)"
proof -
  assume g: "grab t = Some (i, t')"
  from grab_Some [OF g] have "{j. j < slots \<and> busy t' j} = insert i {j. j < slots \<and> busy t j}"
    and "i \<notin> {j. j < slots \<and> busy t j}" by auto
  then show ?thesis by (simp add: load_def)
qed

lemma load_le: "load t \<le> slots"
proof -
  have "load t \<le> card {i. i < slots}" unfolding load_def by (rule card_mono) auto
  then show ?thesis by simp
qed

lemma grab_iff_room: "grab t \<noteq> None \<longleftrightarrow> load t < slots"
proof
  assume "grab t \<noteq> None"
  then obtain i t' where "grab t = Some (i, t')" by auto
  from grab_load [OF this] load_le [of t'] show "load t < slots" by simp
next
  assume less: "load t < slots"
  show "grab t \<noteq> None"
  proof
    assume "grab t = None"
    then have "{i. i < slots \<and> busy t i} = {i. i < slots}" by (auto simp: grab_None)
    with less show False by (simp add: load_def)
  qed
qed

lemma grab_twice_distinct:
  "grab t = Some (i, t') \<Longrightarrow> grab t' = Some (j, t'') \<Longrightarrow> i \<noteq> j"
  using grab_Some by blast

lemma grab_after_drop:
  assumes "busy t i" and "i < slots" and "grab (drop_slot t i) = Some (j, t')"
  shows "j \<le> i"
  using grab_Some [OF assms(3)] drop_busy [of t i i] by (meson not_le)

lemma drop_load: "busy t i \<Longrightarrow> i < slots \<Longrightarrow> Suc (load (drop_slot t i)) = load t"
proof -
  assume "busy t i" "i < slots"
  then have "{j. j < slots \<and> busy t j} = insert i {j. j < slots \<and> busy (drop_slot t i) j}"
    and "i \<notin> {j. j < slots \<and> busy (drop_slot t i) j}" by (auto simp: drop_busy)
  then show ?thesis by (simp add: load_def)
qed

end

section \<open>Transition systems\<close>

inductive reach :: "('s \<Rightarrow> bool) \<Rightarrow> ('s \<Rightarrow> 's \<Rightarrow> bool) \<Rightarrow> 's \<Rightarrow> bool"
  for init :: "'s \<Rightarrow> bool" and step :: "'s \<Rightarrow> 's \<Rightarrow> bool" where
  reach_init: "init s \<Longrightarrow> reach init step s"
| reach_step: "reach init step s \<Longrightarrow> step s t \<Longrightarrow> reach init step t"

text \<open>An inductive invariant of a transition system holds in every reachable state.\<close>

locale inductive_invariant =
  fixes init :: "'s \<Rightarrow> bool" and step :: "'s \<Rightarrow> 's \<Rightarrow> bool" and I :: "'s \<Rightarrow> bool"
  assumes inv_init: "init s \<Longrightarrow> I s"
    and inv_step: "I s \<Longrightarrow> step s t \<Longrightarrow> I t"
begin

lemma reach_inv: "reach init step s \<Longrightarrow> I s"
  by (induction rule: reach.induct) (auto intro: inv_init inv_step)

lemma reach_from: "step\<^sup>*\<^sup>* s t \<Longrightarrow> I s \<Longrightarrow> I t"
  by (induction rule: rtranclp_induct) (auto intro: inv_step)

end

end
