(* ===== verification/Spinlock.thy ===== *)
theory Spinlock
  imports Prelude
begin

text \<open>
  Spin locks and the per-CPU interrupt state they keep (\<open>spinlock.c\<close>, \<open>mycpu\<close> and \<open>cpuid\<close> of
  \<open>proc.c\<close>, \<open>struct spinlock\<close>, \<open>struct cpu\<close>). \<open>mach\<close> is the part of the machine these
  routines touch; every later state record extends \<open>mach_state\<close>, so that the components take
  and release their locks with the routines of this theory. A busy lock makes \<open>acquire\<close> wait
  (\<open>Waits\<close>); what several CPUs do to one lock is the step relation \<open>lk_step\<close>.
\<close>

section \<open>Definitions\<close>

record spinlock =
  locked :: bool
  lk_cpu :: "nat option"

record cpu =
  apicid :: nat
  ncli :: int
  intena :: bool
  cpu_proc :: "nat option"

text \<open>The locks of the kernel, by the object that holds them.\<close>

datatype sleep_id = SBuf nat | SInode nat

datatype lock_id = LKmem | LPtable | LIcache | LFtable | LBcache | LLog | LIde | LTicks | LCons
  | LSleep sleep_id | LPipe u32

record mach =
  cpus :: "nat \<Rightarrow> cpu"
  ncpu :: nat
  lapicid :: nat
  iflag :: bool
  locks :: "lock_id \<Rightarrow> spinlock"

record mach_state =
  mach :: mach

definition initlock :: "lock_id \<Rightarrow> ('z mach_state_scheme, unit) kop" where
  "initlock lk = upd (\<lambda>s. s\<lparr>mach := (mach s)\<lparr>locks := (locks (mach s))(lk := \<lparr>locked = False, lk_cpu = None\<rparr>)\<rparr>\<rparr>)"

text \<open>The loop of \<open>mycpu\<close>: the first CPU of the table with the local APIC's number.\<close>

definition cpu_slot :: "mach \<Rightarrow> nat option" where
  "cpu_slot m = first_idx (\<lambda>i. apicid (cpus m i) = lapicid m) (ncpu m)"

definition mycpu :: "('z mach_state_scheme, nat) kop" where
  "mycpu = bnd (rd mach) (\<lambda>m.
     if iflag m then panic ''mycpu called with interrupts enabled''
     else case cpu_slot m of
       Some i \<Rightarrow> ret i
     | None \<Rightarrow> panic ''unknown apicid'')"

definition cpuid :: "('z mach_state_scheme, nat) kop" where
  "cpuid = mycpu"

definition set_iflag :: "bool \<Rightarrow> ('z mach_state_scheme, unit) kop" where
  "set_iflag b = upd (\<lambda>s. s\<lparr>mach := (mach s)\<lparr>iflag := b\<rparr>\<rparr>)"

definition upd_cpu :: "nat \<Rightarrow> (cpu \<Rightarrow> cpu) \<Rightarrow> ('z mach_state_scheme, unit) kop" where
  "upd_cpu i f = upd (\<lambda>s. s\<lparr>mach := (mach s)\<lparr>cpus := (cpus (mach s))(i := f (cpus (mach s) i))\<rparr>\<rparr>)"

definition pushcli :: "('z mach_state_scheme, unit) kop" where
  "pushcli =
     bnd (rd (iflag \<circ> mach)) (\<lambda>eflags.
     thn (set_iflag False) (
     bnd mycpu (\<lambda>i.
     bnd (rd (\<lambda>s. ncli (cpus (mach s) i))) (\<lambda>n.
     thn (whn (n = 0) (upd_cpu i (\<lambda>c. c\<lparr>intena := eflags\<rparr>))) (
     upd_cpu i (\<lambda>c. c\<lparr>ncli := ncli c + 1\<rparr>))))))"

definition popcli :: "('z mach_state_scheme, unit) kop" where
  "popcli =
     bnd (rd (iflag \<circ> mach)) (\<lambda>eflags.
     if eflags then panic ''popcli - interruptible''
     else bnd mycpu (\<lambda>i.
       thn (upd_cpu i (\<lambda>c. c\<lparr>ncli := ncli c - 1\<rparr>)) (
       bnd (rd (\<lambda>s. cpus (mach s) i)) (\<lambda>c.
       if ncli c < 0 then panic ''popcli''
       else whn (ncli c = 0 \<and> intena c) (set_iflag True)))))"

definition holding :: "lock_id \<Rightarrow> ('z mach_state_scheme, bool) kop" where
  "holding lk =
     bnd (rd (\<lambda>s. locks (mach s) lk)) (\<lambda>l.
     if locked l then bnd mycpu (\<lambda>i. ret (lk_cpu l = Some i)) else ret False)"

definition set_lock :: "lock_id \<Rightarrow> spinlock \<Rightarrow> ('z mach_state_scheme, unit) kop" where
  "set_lock lk l = upd (\<lambda>s. s\<lparr>mach := (mach s)\<lparr>locks := (locks (mach s))(lk := l)\<rparr>\<rparr>)"

text \<open>\<open>acquire\<close>: the \<open>xchg\<close> loop gets the lock at once when it is free and spins otherwise.\<close>

definition acquire :: "lock_id \<Rightarrow> ('z mach_state_scheme, unit) kop" where
  "acquire lk =
     thn pushcli (
     bnd (holding lk) (\<lambda>h.
     if h then panic ''acquire''
     else bnd (rd (\<lambda>s. locked (locks (mach s) lk))) (\<lambda>busy.
       if busy then kerror (Waits ''acquire'')
       else bnd mycpu (\<lambda>i. set_lock lk \<lparr>locked = True, lk_cpu = Some i\<rparr>))))"

definition release :: "lock_id \<Rightarrow> ('z mach_state_scheme, unit) kop" where
  "release lk =
     bnd (holding lk) (\<lambda>h.
     if \<not> h then panic ''release''
     else thn (set_lock lk \<lparr>locked = False, lk_cpu = None\<rparr>) popcli)"

text \<open>
  \<open>getcallerpcs\<close> follows the chain of saved frame pointers through the stack words \<open>mem\<close>,
  at most ten frames and only above \<open>KERNBASE\<close>, and pads with zeroes.
\<close>

primrec callers :: "(u32 \<Rightarrow> u32) \<Rightarrow> u32 \<Rightarrow> nat \<Rightarrow> u32 list" where
  "callers mem ebp 0 = []"
| "callers mem ebp (Suc n) =
     (if ebp = 0 \<or> ebp < 0x80000000 \<or> ebp = 0xffffffff then replicate (Suc n) 0
      else mem (ebp + 4) # callers mem (mem ebp) n)"

definition getcallerpcs :: "(u32 \<Rightarrow> u32) \<Rightarrow> u32 \<Rightarrow> u32 list" where
  "getcallerpcs mem v = callers mem (v - 8) 10"

text \<open>What one CPU does to a lock other CPUs want, instruction by instruction.\<close>

datatype lk_pc = LkIdle | LkSpin | LkGot | LkCrit | LkClear

record lk_sys =
  lk_word :: bool
  lk_owner :: "nat option"
  lk_pcs :: "nat \<Rightarrow> lk_pc"

inductive lk_step :: "lk_sys \<Rightarrow> lk_sys \<Rightarrow> bool" where
  lk_enter: "lk_pcs s i = LkIdle \<Longrightarrow> \<not> (lk_word s \<and> lk_owner s = Some i) \<Longrightarrow>
    lk_step s (s\<lparr>lk_pcs := (lk_pcs s)(i := LkSpin)\<rparr>)"
| lk_xchg_busy: "lk_pcs s i = LkSpin \<Longrightarrow> lk_word s \<Longrightarrow> lk_step s (s\<lparr>lk_word := True\<rparr>)"
| lk_xchg_free: "lk_pcs s i = LkSpin \<Longrightarrow> \<not> lk_word s \<Longrightarrow>
    lk_step s (s\<lparr>lk_word := True, lk_pcs := (lk_pcs s)(i := LkGot)\<rparr>)"
| lk_record: "lk_pcs s i = LkGot \<Longrightarrow>
    lk_step s (s\<lparr>lk_owner := Some i, lk_pcs := (lk_pcs s)(i := LkCrit)\<rparr>)"
| lk_clear: "lk_pcs s i = LkCrit \<Longrightarrow> lk_word s \<Longrightarrow> lk_owner s = Some i \<Longrightarrow>
    lk_step s (s\<lparr>lk_owner := None, lk_pcs := (lk_pcs s)(i := LkClear)\<rparr>)"
| lk_store0: "lk_pcs s i = LkClear \<Longrightarrow>
    lk_step s (s\<lparr>lk_word := False, lk_pcs := (lk_pcs s)(i := LkIdle)\<rparr>)"

definition lk_init :: "lk_sys \<Rightarrow> bool" where
  "lk_init s \<longleftrightarrow> \<not> lk_word s \<and> lk_owner s = None \<and> (\<forall>i. lk_pcs s i = LkIdle)"

section \<open>The machine between critical sections\<close>

text \<open>
  \<open>mach_ok\<close>: the running CPU is in the table, its \<open>pushcli\<close> depth is not negative, interrupts are
  off inside a \<open>pushcli\<close>, and outside one \<open>intena\<close> is the interrupt flag (the value the next
  \<open>pushcli\<close> stores).
\<close>

definition this_cpu :: "mach \<Rightarrow> nat" where
  "this_cpu m = the (cpu_slot m)"

definition mach_ok :: "mach \<Rightarrow> bool" where
  "mach_ok m \<longleftrightarrow> cpu_slot m \<noteq> None \<and>
     (let c = cpus m (this_cpu m) in
       0 \<le> ncli c \<and> (0 < ncli c \<longrightarrow> \<not> iflag m) \<and> (ncli c = 0 \<longrightarrow> intena c = iflag m))"

definition lk_free :: "mach \<Rightarrow> lock_id \<Rightarrow> bool" where
  "lk_free m l \<longleftrightarrow> locks m l = \<lparr>locked = False, lk_cpu = None\<rparr>"

definition hold :: "lock_id \<Rightarrow> mach \<Rightarrow> mach" where
  "hold l m = m\<lparr>iflag := False,
     cpus := (cpus m)(this_cpu m := (cpus m (this_cpu m))\<lparr>ncli := ncli (cpus m (this_cpu m)) + 1\<rparr>),
     locks := (locks m)(l := \<lparr>locked = True, lk_cpu = Some (this_cpu m)\<rparr>)\<rparr>"

definition cli_in :: "mach \<Rightarrow> mach" where
  "cli_in m = m\<lparr>iflag := False,
     cpus := (cpus m)(this_cpu m := (cpus m (this_cpu m))\<lparr>ncli := ncli (cpus m (this_cpu m)) + 1\<rparr>)\<rparr>"

lemma cpu_slot_upd [simp]:
  "cpu_slot (m\<lparr>iflag := b\<rparr>) = cpu_slot m"
  "cpu_slot (m\<lparr>locks := x\<rparr>) = cpu_slot m"
  by (simp_all add: cpu_slot_def)

lemma cpu_slot_cpus [simp]:
  "apicid c = apicid (cpus m i) \<Longrightarrow> cpu_slot (m\<lparr>cpus := (cpus m)(i := c)\<rparr>) = cpu_slot m"
  unfolding cpu_slot_def by (rule arg_cong2 [of _ _ _ _ first_idx]) auto

lemma cpu_slot_iflag_cpus [simp]:
  "apicid c = apicid (cpus m i) \<Longrightarrow> cpu_slot (m\<lparr>iflag := b, cpus := (cpus m)(i := c)\<rparr>) = cpu_slot m"
  unfolding cpu_slot_def by (rule arg_cong2 [of _ _ _ _ first_idx]) auto

lemma intena_same [simp]: "intena c = b \<Longrightarrow> c\<lparr>intena := b\<rparr> = c"
  by (cases c) simp

lemma cpu_slot_hold [simp]: "cpu_slot (hold l m) = cpu_slot m"
  and cpu_slot_cli_in [simp]: "cpu_slot (cli_in m) = cpu_slot m"
  unfolding hold_def cli_in_def cpu_slot_def by (rule arg_cong2 [of _ _ _ _ first_idx]; auto)+

lemma mach_ok_slot: "mach_ok m \<Longrightarrow> cpu_slot m = Some (this_cpu m)"
  by (auto simp: mach_ok_def this_cpu_def)

lemma this_cpu_hold [simp]: "this_cpu (hold l m) = this_cpu m"
  and this_cpu_cli_in [simp]: "this_cpu (cli_in m) = this_cpu m"
  by (simp_all add: this_cpu_def)

lemma lk_free_hold [simp]: "l' \<noteq> l \<Longrightarrow> lk_free (hold l m) l' = lk_free m l'"
  by (simp add: lk_free_def hold_def)

lemma mach_ok_hold [simp]: "mach_ok m \<Longrightarrow> mach_ok (hold l m)"
  using mach_ok_slot [of m] by (auto simp: mach_ok_def Let_def) (auto simp: hold_def)

lemma mach_ok_cli_in [simp]: "mach_ok m \<Longrightarrow> mach_ok (cli_in m)"
  using mach_ok_slot [of m] by (auto simp: mach_ok_def Let_def) (auto simp: cli_in_def)

lemma mycpu_ok [simp]:
  "mach_ok (mach s) \<Longrightarrow> \<not> iflag (mach s) \<Longrightarrow> mycpu s = Inr (this_cpu (mach s), s)"
  by (simp add: mycpu_def mach_ok_slot k_simps)

lemma iflag_hold [simp]: "\<not> iflag (hold l m)" and iflag_cli_in [simp]: "\<not> iflag (cli_in m)"
  by (simp_all add: hold_def cli_in_def)

lemma pushcli_ok [simp]:
  assumes "mach_ok (mach s)"
  shows "pushcli s = Inr ((), s\<lparr>mach := cli_in (mach s)\<rparr>)"
  using assms mach_ok_slot [OF assms]
  by (auto simp: pushcli_def mycpu_def set_iflag_def upd_cpu_def k_simps cli_in_def mach_ok_def Let_def)

lemma popcli_ok [simp]:
  assumes "mach_ok m"
  shows "popcli (s\<lparr>mach := cli_in m\<rparr>) = Inr ((), s\<lparr>mach := m\<rparr>)"
proof -
  have "popcli (s\<lparr>mach := cli_in m\<rparr>) = Inr ((), s\<lparr>mach := m\<lparr>iflag := iflag m\<rparr>\<rparr>)"
    using assms mach_ok_slot [OF assms]
    by (auto simp: popcli_def mycpu_def set_iflag_def upd_cpu_def k_simps cli_in_def mach_ok_def Let_def)
  then show ?thesis by simp
qed

lemma acquire_ok [simp]:
  assumes "mach_ok (mach s)" "lk_free (mach s) l"
  shows "acquire l s = Inr ((), s\<lparr>mach := hold l (mach s)\<rparr>)"
  using assms
  by (simp add: acquire_def holding_def set_lock_def k_simps lk_free_def)
    (simp add: cli_in_def hold_def)

lemma holding_hold [simp]:
  "mach_ok m \<Longrightarrow> holding l (s\<lparr>mach := hold l m\<rparr>) = Inr (True, s\<lparr>mach := hold l m\<rparr>)"
  by (simp add: holding_def k_simps) (simp add: hold_def)

lemma popcli_ok' [simp]:
  "mach s = cli_in m \<Longrightarrow> mach_ok m \<Longrightarrow> popcli s = Inr ((), s\<lparr>mach := m\<rparr>)"
  using popcli_ok [of m s] by (metis mach_state.unfold_congs(1) mach_state.surjective mach_state.update_convs(1))

lemma holding_hold' [simp]:
  "mach s = hold l m \<Longrightarrow> mach_ok m \<Longrightarrow> holding l s = Inr (True, s)"
  by (simp add: holding_def k_simps) (simp add: hold_def)

lemma release_ok [simp]:
  assumes "mach s = hold l m" "mach_ok m" "lk_free m l"
  shows "release l s = Inr ((), s\<lparr>mach := m\<rparr>)"
proof -
  have "(hold l m)\<lparr>locks := (locks (hold l m))(l := \<lparr>locked = False, lk_cpu = None\<rparr>)\<rparr> = cli_in m"
    using assms(3) by (simp add: hold_def cli_in_def lk_free_def fun_upd_idem_iff)
  then show ?thesis using assms(1,2)
    by (simp add: release_def set_lock_def k_simps)
qed


lemma hold_commute: "l \<noteq> l' \<Longrightarrow> hold l (hold l' m) = hold l' (hold l m)"
  unfolding hold_def [of l "hold l' m"] hold_def [of l' "hold l m"] this_cpu_hold
  by (simp add: hold_def fun_upd_twist)

lemma release_inner [simp]:
  assumes "mach s = hold l' (hold l m)" "l \<noteq> l'" "mach_ok m" "lk_free m l" "lk_free m l'"
  shows "release l s = Inr ((), s\<lparr>mach := hold l' m\<rparr>)"
proof -
  have "mach s = hold l (hold l' m)" using assms(1,2) hold_commute by metis
  moreover have "lk_free (hold l' m) l" using assms by simp
  ultimately show ?thesis using assms(3) by simp
qed

section \<open>Several CPUs and one lock\<close>

inductive_cases lk_stepE: "lk_step s t"

definition in_section :: "lk_pc \<Rightarrow> bool" where
  "in_section pc \<longleftrightarrow> pc = LkGot \<or> pc = LkCrit \<or> pc = LkClear"

definition lk_inv :: "lk_sys \<Rightarrow> bool" where
  "lk_inv s \<longleftrightarrow>
     (\<forall>i. in_section (lk_pcs s i) \<longrightarrow> lk_word s \<and> (\<forall>j. in_section (lk_pcs s j) \<longrightarrow> j = i)) \<and>
     (\<forall>i. lk_owner s = Some i \<longleftrightarrow> lk_pcs s i = LkCrit)"

lemma in_section_simps [simp]:
  "in_section LkGot" "in_section LkCrit" "in_section LkClear"
  "\<not> in_section LkIdle" "\<not> in_section LkSpin"
  by (simp_all add: in_section_def)

lemma lk_inv_section: "lk_inv s \<Longrightarrow> in_section (lk_pcs s i) \<Longrightarrow> in_section (lk_pcs s j) \<Longrightarrow> i = j"
  and lk_inv_word: "lk_inv s \<Longrightarrow> in_section (lk_pcs s i) \<Longrightarrow> lk_word s"
  and lk_inv_owner: "lk_inv s \<Longrightarrow> lk_owner s = Some i \<longleftrightarrow> lk_pcs s i = LkCrit"
  by (auto simp: lk_inv_def)

lemma lk_inv_step: "lk_step s t \<Longrightarrow> lk_inv s \<Longrightarrow> lk_inv t"
proof (induction rule: lk_step.induct)
  case (lk_enter s i)
  then show ?case by (auto simp: lk_inv_def)
next
  case (lk_xchg_busy s i)
  then show ?case by (auto simp: lk_inv_def)
next
  case (lk_xchg_free s i)
  then show ?case by (auto simp: lk_inv_def)
next
  case (lk_record s i)
  then have "lk_word s" "\<And>j. in_section (lk_pcs s j) \<Longrightarrow> j = i"
    using lk_inv_word [of s i] lk_inv_section [of s _ i] by auto
  then show ?case using lk_record by (auto simp: lk_inv_def)
next
  case (lk_clear s i)
  then have "\<And>j. in_section (lk_pcs s j) \<Longrightarrow> j = i"
    using lk_inv_section [of s _ i] by auto
  then show ?case using lk_clear by (auto simp: lk_inv_def)
next
  case (lk_store0 s i)
  then have "\<And>j. in_section (lk_pcs s j) \<Longrightarrow> j = i"
    using lk_inv_section [of s _ i] by auto
  then show ?case using lk_store0 by (auto simp: lk_inv_def)
qed

interpretation lk: inductive_invariant lk_init lk_step lk_inv
  by unfold_locales (auto simp: lk_init_def lk_inv_step, simp add: lk_inv_def lk_init_def)

section \<open>Properties\<close>

text \<open>
  C2: mutual exclusion. However many CPUs run \<open>acquire\<close> and \<open>release\<close> on a lock, interleaved
  between any two of their instructions, at most one of them is past the \<open>xchg\<close> that took the
  lock and not yet past the store that frees it; while it is, the lock word is set.
\<close>

theorem spinlock_mutual_exclusion:
  assumes "reach lk_init lk_step s"
    and "in_section (lk_pcs s i)" and "in_section (lk_pcs s j)"
  shows "i = j \<and> lk_word s"
  using lk.reach_inv [OF assms(1)] assms(2,3) lk_inv_section lk_inv_word by blast

definition lk_start :: lk_sys where
  "lk_start = \<lparr>lk_word = False, lk_owner = None, lk_pcs = (\<lambda>_. LkIdle)\<rparr>"

definition lk_two :: lk_sys where
  "lk_two = \<lparr>lk_word = True, lk_owner = None, lk_pcs = (\<lambda>_. LkIdle)(0 := LkSpin, 1 := LkGot)\<rparr>"

lemma lk_two_reach: "reach lk_init lk_step lk_two"
proof -
  have "reach lk_init lk_step lk_start"
    by (rule reach_init) (simp add: lk_init_def lk_start_def)
  from reach_step [OF this lk_enter [of _ 0]]
  have "reach lk_init lk_step (lk_start\<lparr>lk_pcs := (\<lambda>_. LkIdle)(0 := LkSpin)\<rparr>)"
    by (simp add: lk_start_def)
  from reach_step [OF this lk_enter [of _ 1]]
  have "reach lk_init lk_step (lk_start\<lparr>lk_pcs := (\<lambda>_. LkIdle)(0 := LkSpin, 1 := LkSpin)\<rparr>)"
    by (simp add: lk_start_def)
  from reach_step [OF this lk_xchg_free [of _ 1]]
  show ?thesis by (simp add: lk_start_def lk_two_def)
qed

theorem spinlock_mutual_exclusion_witness:
  "(1 :: nat) = 1 \<and> lk_word lk_two"
  using spinlock_mutual_exclusion [OF lk_two_reach, of 1 1] by (simp add: lk_two_def)

text \<open>
  From a machine between critical sections, taking two locks and releasing them in either
  order gives the machine back exactly: the \<open>pushcli\<close> depth, \<open>intena\<close> and the interrupt flag
  too, and interrupts are off in between.
\<close>

theorem two_locks_restore:
  assumes "mach_ok (mach s)" and "lk_free (mach s) a" and "lk_free (mach s) b" and "a \<noteq> b"
  shows "thn (acquire a) (thn (acquire b) (thn (release b) (release a))) s = Inr ((), s) \<and>
    thn (acquire a) (thn (acquire b) (thn (release a) (release b))) s = Inr ((), s) \<and>
    wp (thn (acquire a) (acquire b)) (\<lambda>_ t. \<not> iflag (mach t)) s"
  using assms by (simp add: wp_def)

definition boot_mach :: mach where
  "boot_mach = \<lparr>cpus = (\<lambda>_. \<lparr>apicid = 0, ncli = 0, intena = True, cpu_proc = Some 0\<rparr>), ncpu = 1,
     lapicid = 0, iflag = True, locks = (\<lambda>_. \<lparr>locked = False, lk_cpu = None\<rparr>)\<rparr>"

lemma boot_mach_slot [simp]: "cpu_slot boot_mach = Some 0"
  by (simp add: cpu_slot_def boot_mach_def first_idx_Some_iff)

lemma boot_mach_this [simp]: "this_cpu boot_mach = 0"
  by (simp add: this_cpu_def)

lemma boot_mach_ok [simp]: "mach_ok boot_mach"
  by (simp add: mach_ok_def) (simp add: boot_mach_def)

lemma boot_mach_free [simp]: "lk_free boot_mach l"
  by (simp add: lk_free_def boot_mach_def)

theorem two_locks_restore_witness:
  "let s = \<lparr>mach = boot_mach\<rparr>; a = LLog; b = LPtable in
    thn (acquire a) (thn (acquire b) (thn (release b) (release a))) s = Inr ((), s) \<and>
    thn (acquire a) (thn (acquire b) (thn (release a) (release b))) s = Inr ((), s) \<and>
    wp (thn (acquire a) (acquire b)) (\<lambda>_ t. \<not> iflag (mach t)) s"
  using two_locks_restore [of "\<lparr>mach = boot_mach\<rparr>" LLog LPtable] by (simp add: Let_def)

text \<open>
  The misuses the code checks for panic: acquiring a lock this CPU holds, releasing a lock
  it does not hold, and \<open>popcli\<close> without \<open>pushcli\<close> or with interrupts on.
\<close>

theorem lock_misuse_panics:
  assumes "mach_ok (mach s)" and "lk_free (mach s) l"
  shows "thn (acquire l) (acquire l) s = Inl (Panic ''acquire'') \<and>
    release l s = Inl (Panic ''release'') \<and>
    (iflag (mach s) \<longrightarrow> popcli s = Inl (Panic ''popcli - interruptible'')) \<and>
    (\<not> iflag (mach s) \<longrightarrow> ncli (cpus (mach s) (this_cpu (mach s))) = 0 \<longrightarrow>
      popcli s = Inl (Panic ''popcli''))"
proof -
  have "holding l (s\<lparr>mach := cli_in (hold l (mach s))\<rparr>) =
      Inr (True, s\<lparr>mach := cli_in (hold l (mach s))\<rparr>)"
    using assms(1) by (simp add: holding_def k_simps) (simp add: hold_def cli_in_def)
  then have "acquire l (s\<lparr>mach := hold l (mach s)\<rparr>) = Inl (Panic ''acquire'')"
    using assms(1) by (simp add: acquire_def kerror_def)
  then have "thn (acquire l) (acquire l) s = Inl (Panic ''acquire'')"
    using assms by simp
  moreover have "release l s = Inl (Panic ''release'')"
    using assms(2) by (simp add: release_def holding_def k_simps lk_free_def)
  ultimately show ?thesis using assms(1)
    by (auto simp: popcli_def upd_cpu_def k_simps)
qed

theorem lock_misuse_panics_witness:
  "let s = \<lparr>mach = boot_mach\<rparr> in
    thn (acquire LLog) (acquire LLog) s = Inl (Panic ''acquire'') \<and>
    release LLog s = Inl (Panic ''release'') \<and>
    (iflag (mach s) \<longrightarrow> popcli s = Inl (Panic ''popcli - interruptible'')) \<and>
    (\<not> iflag (mach s) \<longrightarrow> ncli (cpus (mach s) (this_cpu (mach s))) = 0 \<longrightarrow>
      popcli s = Inl (Panic ''popcli''))"
  using lock_misuse_panics [of "\<lparr>mach = boot_mach\<rparr>" LLog] by (simp add: Let_def)

end
