(* ===== verification/Cstring.thy ===== *)
theory Cstring
  imports Prelude
begin

text \<open>
  The byte and string routines of the kernel (\<open>string.c\<close>), of the user library (\<open>ulib.c\<close>)
  and the number printers (\<open>itoa\<close> of \<open>fs.c\<close>, \<open>printint\<close> of \<open>console.c\<close> and \<open>printf.c\<close>).
  A routine that writes takes the byte memory and its pointers and returns the memory; a
  routine that only reads takes the bytes seen from its pointer on, as a function of the
  offset. Loops that only a NUL byte ends return an \<open>option\<close>, \<open>None\<close> when there is none.
\<close>

unbundle bit_operations_syntax

type_synonym bmem = "nat \<Rightarrow> u8"
type_synonym bview = "nat \<Rightarrow> u8"

definition view_at :: "bmem \<Rightarrow> nat \<Rightarrow> bview" where
  "view_at m p = (\<lambda>i. m (p + i))"

section \<open>Definitions\<close>

subsection \<open>\<open>string.c\<close>\<close>

primrec stosb :: "nat \<Rightarrow> u32 \<Rightarrow> nat \<Rightarrow> bmem \<Rightarrow> bmem" where
  "stosb d c 0 m = m"
| "stosb d c (Suc n) m = stosb (d + 1) c n (m(d := ucast c))"

primrec stosl :: "nat \<Rightarrow> u32 \<Rightarrow> nat \<Rightarrow> bmem \<Rightarrow> bmem" where
  "stosl d c 0 m = m"
| "stosl d c (Suc n) m = stosl (d + 4) c n
     (m(d := ucast c, d + 1 := ucast (drop_bit 8 c),
        d + 2 := ucast (drop_bit 16 c), d + 3 := ucast (drop_bit 24 c)))"

definition memset :: "nat \<Rightarrow> u32 \<Rightarrow> nat \<Rightarrow> bmem \<Rightarrow> bmem" where
  "memset dst c n m =
     (if dst mod 4 = 0 \<and> n mod 4 = 0
      then (let c = c AND 0xFF
            in stosl dst (push_bit 24 c OR push_bit 16 c OR push_bit 8 c OR c) (n div 4) m)
      else stosb dst c n m)"

fun memcmp :: "bview \<Rightarrow> bview \<Rightarrow> nat \<Rightarrow> int" where
  "memcmp s1 s2 0 = 0"
| "memcmp s1 s2 (Suc n) =
     (if s1 0 \<noteq> s2 0 then uint (s1 0) - uint (s2 0)
      else memcmp (\<lambda>i. s1 (Suc i)) (\<lambda>i. s2 (Suc i)) n)"

primrec copy_up :: "nat \<Rightarrow> nat \<Rightarrow> nat \<Rightarrow> bmem \<Rightarrow> bmem" where
  "copy_up d s 0 m = m"
| "copy_up d s (Suc n) m = copy_up (d + 1) (s + 1) n (m(d := m s))"

primrec copy_down :: "nat \<Rightarrow> nat \<Rightarrow> nat \<Rightarrow> bmem \<Rightarrow> bmem" where
  "copy_down d s 0 m = m"
| "copy_down d s (Suc n) m = copy_down (d - 1) (s - 1) n (m(d - 1 := m (s - 1)))"

definition memmove :: "nat \<Rightarrow> nat \<Rightarrow> nat \<Rightarrow> bmem \<Rightarrow> bmem" where
  "memmove dst src n m =
     (if src < dst \<and> src + n > dst then copy_down (dst + n) (src + n) n m
      else copy_up dst src n m)"

definition memcpy :: "nat \<Rightarrow> nat \<Rightarrow> nat \<Rightarrow> bmem \<Rightarrow> bmem" where
  "memcpy dst src n m = memmove dst src n m"

fun strncmp :: "bview \<Rightarrow> bview \<Rightarrow> nat \<Rightarrow> int" where
  "strncmp p q 0 = 0"
| "strncmp p q (Suc n) =
     (if p 0 \<noteq> 0 \<and> p 0 = q 0 then strncmp (\<lambda>i. p (Suc i)) (\<lambda>i. q (Suc i)) n
      else uint (p 0) - uint (q 0))"

primrec pad_zero :: "nat \<Rightarrow> nat \<Rightarrow> bmem \<Rightarrow> bmem" where
  "pad_zero s 0 m = m"
| "pad_zero s (Suc n) m = pad_zero (s + 1) n (m(s := 0))"

fun strncpy :: "nat \<Rightarrow> nat \<Rightarrow> nat \<Rightarrow> bmem \<Rightarrow> bmem" where
  "strncpy s t 0 m = m"
| "strncpy s t (Suc n) m =
     (let m' = m(s := m t)
      in if m t \<noteq> 0 then strncpy (s + 1) (t + 1) n m' else pad_zero (s + 1) n m')"

fun safestrcpy_loop :: "nat \<Rightarrow> nat \<Rightarrow> nat \<Rightarrow> bmem \<Rightarrow> bmem" where
  "safestrcpy_loop s t 0 m = m(s := 0)"
| "safestrcpy_loop s t (Suc n) m =
     (let m' = m(s := m t)
      in if m t \<noteq> 0 then safestrcpy_loop (s + 1) (t + 1) n m' else m'(s + 1 := 0))"

definition safestrcpy :: "nat \<Rightarrow> nat \<Rightarrow> int \<Rightarrow> bmem \<Rightarrow> bmem" where
  "safestrcpy s t n m = (if n \<le> 0 then m else safestrcpy_loop s t (nat (n - 1)) m)"

partial_function (option) strlen_from :: "bview \<Rightarrow> nat \<Rightarrow> nat option" where
  "strlen_from s n = (if s n = 0 then Some n else strlen_from s (Suc n))"

definition strlen :: "bview \<Rightarrow> nat option" where
  "strlen s = strlen_from s 0"

subsection \<open>\<open>ulib.c\<close>\<close>

partial_function (option) strcpy :: "nat \<Rightarrow> nat \<Rightarrow> bmem \<Rightarrow> bmem option" where
  "strcpy s t m =
     (let m' = m(s := m t) in if m t = 0 then Some m' else strcpy (Suc s) (Suc t) m')"

partial_function (option) strcmp_from :: "bview \<Rightarrow> bview \<Rightarrow> nat \<Rightarrow> int option" where
  "strcmp_from p q i =
     (if p i \<noteq> 0 \<and> p i = q i then strcmp_from p q (Suc i)
      else Some (uint (p i) - uint (q i)))"

definition strcmp :: "bview \<Rightarrow> bview \<Rightarrow> int option" where
  "strcmp p q = strcmp_from p q 0"

definition ulib_memset :: "nat \<Rightarrow> u32 \<Rightarrow> nat \<Rightarrow> bmem \<Rightarrow> bmem" where
  "ulib_memset dst c n m = stosb dst c n m"

text \<open>\<open>strchr\<close> over the bytes of a NUL-terminated string: the offset of the first match.\<close>

fun strchr :: "u8 list \<Rightarrow> u8 \<Rightarrow> nat option" where
  "strchr [] c = None"
| "strchr (x # xs) c = (if x = c then Some 0 else map_option Suc (strchr xs c))"

fun atoi_loop :: "u8 list \<Rightarrow> u32 \<Rightarrow> u32" where
  "atoi_loop [] n = n"
| "atoi_loop (c # cs) n =
     (if 48 \<le> c \<and> c \<le> 57 then atoi_loop cs (n * 10 + ucast c - 48) else n)"

definition atoi :: "u8 list \<Rightarrow> u32" where
  "atoi s = atoi_loop s 0"

definition ulib_memmove :: "nat \<Rightarrow> nat \<Rightarrow> int \<Rightarrow> bmem \<Rightarrow> bmem" where
  "ulib_memmove dst src n m = copy_up dst src (nat n) m"

text \<open>
  \<open>gets\<close>: the bytes \<open>read(0, &c, 1)\<close> delivers, in order, until the input ends; the result is
  what \<open>buf\<close> holds up to its NUL byte, and the input left over.
\<close>

fun gets_loop :: "nat \<Rightarrow> u8 list \<Rightarrow> u8 list \<times> u8 list" where
  "gets_loop 0 inp = ([], inp)"
| "gets_loop (Suc k) [] = ([], [])"
| "gets_loop (Suc k) (c # inp) =
     (if c = 10 \<or> c = 13 then ([c], inp)
      else (case gets_loop k inp of (l, r) \<Rightarrow> (c # l, r)))"

definition gets :: "int \<Rightarrow> u8 list \<Rightarrow> u8 list \<times> u8 list" where
  "gets mx inp = gets_loop (nat (mx - 1)) inp"

subsection \<open>Printing numbers\<close>

text \<open>\<open>itoa\<close> of \<open>fs.c\<close>: count the digits, write the NUL, then the digits from the last one.\<close>

fun itoa_len :: "nat \<Rightarrow> nat" where
  "itoa_len i = (if i < 10 then 1 else Suc (itoa_len (i div 10)))"

fun itoa_put :: "nat \<Rightarrow> nat \<Rightarrow> bmem \<Rightarrow> bmem" where
  "itoa_put p i b =
     (let b' = b(p - 1 := of_nat (48 + i mod 10))
      in if i < 10 then b' else itoa_put (p - 1) (i div 10) b')"

declare itoa_len.simps [simp del] itoa_put.simps [simp del]

text \<open>
  The argument is a C \<open>int\<close>. For the least one, \<open>i *= -1\<close> overflows and the digit index is
  negative: a fault.
\<close>

definition itoa :: "int \<Rightarrow> bmem \<Rightarrow> kerr + bmem" where
  "itoa i b =
     (if i = - (2 ^ 31) then Inl (Fault ''itoa'')
      else (let p = (if i < 0 then 1 else 0);
                b' = (if i < 0 then b(0 := 45) else b);
                j = nat \<bar>i\<bar>;
                q = p + itoa_len j
            in Inr (itoa_put q j (b'(q := 0)))))"

text \<open>
  \<open>printint\<close>: the digits are collected from the last one in a buffer and then put out in
  reverse. \<open>digit\<close> is the table of the caller (\<open>0123456789abcdef\<close> in \<open>console.c\<close>,
  \<open>0123456789ABCDEF\<close> in \<open>printf.c\<close>).
\<close>

function printint_digits :: "(u32 \<Rightarrow> u8) \<Rightarrow> u32 \<Rightarrow> u32 \<Rightarrow> u8 list" where
  "printint_digits digit x base =
     (if base \<le> 1 \<or> x div base = 0 then [digit (x mod base)]
      else digit (x mod base) # printint_digits digit (x div base) base)"
  by pat_completeness auto
termination
proof (relation "measure (\<lambda>(d, x, b). unat x)", goal_cases)
  case 1
  then show ?case by simp
next
  case (2 digit x base)
  then have "1 < unat base" by (simp add: word_less_nat_alt linorder_not_le)
  moreover from 2 have "x \<noteq> 0" by (metis div_0)
  then have "0 < unat x" using unat_gt_0 by blast
  ultimately have "unat (x div base) < unat x"
    by (simp add: unat_div_distrib)
  then show ?case by simp
qed

declare printint_digits.simps [simp del]

definition printint :: "(u32 \<Rightarrow> u8) \<Rightarrow> u32 \<Rightarrow> u32 \<Rightarrow> bool \<Rightarrow> u8 list" where
  "printint digit xx base sign =
     (let neg = (sign \<and> sint xx < 0);
          x = (if neg then - xx else xx);
          buf = printint_digits digit x base @ (if neg then [45] else [])
      in rev buf)"

definition hex_lower :: "u32 \<Rightarrow> u8" where
  "hex_lower d = (if d < 10 then 48 + ucast d else 87 + ucast d)"

definition hex_upper :: "u32 \<Rightarrow> u8" where
  "hex_upper d = (if d < 10 then 48 + ucast d else 55 + ucast d)"


section \<open>Lemmas\<close>

subsection \<open>Copying and filling\<close>

lemma copy_up_eq:
  assumes "\<not> (s < d \<and> d < s + n)"
  shows "copy_up d s n m = (\<lambda>a. if d \<le> a \<and> a < d + n then m (s + (a - d)) else m a)"
  using assms
proof (induction n arbitrary: d s m)
  case 0
  then show ?case by (auto simp: fun_eq_iff)
next
  case (Suc n)
  then have "copy_up (d + 1) (s + 1) n (m(d := m s)) =
      (\<lambda>a. if d + 1 \<le> a \<and> a < d + 1 + n then (m(d := m s)) (s + 1 + (a - (d + 1)))
           else (m(d := m s)) a)"
    by (intro Suc.IH) auto
  moreover have "Suc d \<le> x \<Longrightarrow> Suc (s + x - Suc d) = s + x - d" for x by simp
  ultimately show ?case using Suc.prems by (auto simp: fun_eq_iff not_less_eq)
qed

lemma copy_down_eq:
  assumes "s \<le> d" "n \<le> s"
  shows "copy_down d s n m =
    (\<lambda>a. if d - n \<le> a \<and> a < d then m (s - (d - a)) else m a)"
  using assms
proof (induction n arbitrary: d s m)
  case 0
  then show ?case by (auto simp: fun_eq_iff)
next
  case (Suc n)
  have "copy_down (d - 1) (s - 1) n (m(d - 1 := m (s - 1))) =
     (\<lambda>a. if d - 1 - n \<le> a \<and> a < d - 1 then (m(d - 1 := m (s - 1))) (s - 1 - (d - 1 - a))
          else (m(d - 1 := m (s - 1))) a)"
    using Suc.prems by (intro Suc.IH) auto
  moreover have "a < d \<Longrightarrow> d - 1 \<le> a \<Longrightarrow> a = d - 1" for a by simp
  ultimately show ?case using Suc.prems by (auto simp: fun_eq_iff)
qed

lemma stosb_eq: "stosb d c n m = (\<lambda>a. if d \<le> a \<and> a < d + n then ucast c else m a)"
  by (induction n arbitrary: d m) (auto simp: fun_eq_iff not_less_eq)

lemma splat_bytes:
  fixes c :: u32
  defines "w \<equiv> push_bit 24 (c AND 0xFF) OR push_bit 16 (c AND 0xFF) OR
    push_bit 8 (c AND 0xFF) OR (c AND 0xFF)"
  shows "(ucast w :: u8) = ucast c" "(ucast (drop_bit 8 w) :: u8) = ucast c"
    "(ucast (drop_bit 16 w) :: u8) = ucast c" "(ucast (drop_bit 24 w) :: u8) = ucast c"
proof -
  have m: "c AND 0xFF = take_bit 8 c" for c :: u32
    by (simp add: take_bit_eq_mask mask_eq_exp_minus_1)
  show "(ucast w :: u8) = ucast c" "(ucast (drop_bit 8 w) :: u8) = ucast c"
    "(ucast (drop_bit 16 w) :: u8) = ucast c" "(ucast (drop_bit 24 w) :: u8) = ucast c"
    unfolding w_def m by (rule bit_word_eqI; auto simp: bit_simps)+
qed

lemma stosl_eq:
  assumes "ucast w = b" "ucast (drop_bit 8 w) = b" "ucast (drop_bit 16 w) = b"
    "ucast (drop_bit 24 w) = b"
  shows "stosl d w n m = (\<lambda>a. if d \<le> a \<and> a < d + 4 * n then b else m a)"
proof (induction n arbitrary: d m)
  case 0
  then show ?case by (auto simp: fun_eq_iff)
next
  case (Suc n)
  have "d \<le> a \<Longrightarrow> a \<noteq> d \<Longrightarrow> a \<noteq> Suc d \<Longrightarrow> a \<noteq> Suc (Suc d) \<Longrightarrow> a \<noteq> d + 3 \<Longrightarrow> d + 4 \<le> a" for a
    by simp
  then show ?case by (auto simp: Suc assms fun_eq_iff)
qed


subsection \<open>Strings\<close>

lemma strlen_from_first:
  assumes "\<And>j. k \<le> j \<Longrightarrow> j < n \<Longrightarrow> s j \<noteq> 0" "s n = 0" "k \<le> n"
  shows "strlen_from s k = Some n"
  using assms
proof (induction "n - k" arbitrary: k)
  case 0
  then show ?case by (simp add: strlen_from.simps)
next
  case (Suc x)
  then have "strlen_from s (Suc k) = Some n" by simp
  moreover have "s k \<noteq> 0" using Suc by simp
  ultimately show ?case by (simp add: strlen_from.simps [of s k])
qed

lemma strncmp_zero:
  "strncmp p q n = 0 \<longleftrightarrow> (\<forall>i<n. (\<forall>j<i. p j \<noteq> 0) \<longrightarrow> p i = q i)"
proof (induction p q n rule: strncmp.induct)
  case (1 p q)
  then show ?case by simp
next
  case (2 p q n)
  have split: "(\<forall>i<Suc n. (\<forall>j<i. p j \<noteq> 0) \<longrightarrow> p i = q i) \<longleftrightarrow>
      p 0 = q 0 \<and> (p 0 \<noteq> 0 \<longrightarrow> (\<forall>i<n. (\<forall>j<i. p (Suc j) \<noteq> 0) \<longrightarrow> p (Suc i) = q (Suc i)))"
    by (simp add: All_less_Suc2) blast
  show ?case
  proof (cases "p 0 \<noteq> 0 \<and> p 0 = q 0")
    case True
    then show ?thesis using 2 split by simp
  next
    case False
    then show ?thesis using split by (auto simp: word_uint_eq_iff)
  qed
qed

lemma pad_zero_eq: "pad_zero s n m = (\<lambda>a. if s \<le> a \<and> a < s + n then 0 else m a)"
  by (induction n arbitrary: s m) (auto simp: fun_eq_iff not_less_eq)

lemma strncpy_at:
  assumes "t + n \<le> s \<or> s + n \<le> t"
  shows "a < s \<or> s + n \<le> a \<Longrightarrow> strncpy s t n m a = m a"
    and "k < n \<Longrightarrow> strncpy s t n m (s + k) = (if \<exists>j<k. m (t + j) = 0 then 0 else m (t + k))"
proof -
  have "(\<forall>a. a < s \<or> s + n \<le> a \<longrightarrow> strncpy s t n m a = m a) \<and>
    (\<forall>k<n. strncpy s t n m (s + k) = (if \<exists>j<k. m (t + j) = 0 then 0 else m (t + k)))"
    using assms
  proof (induction n arbitrary: s t m)
    case 0
    then show ?case by simp
  next
    case (Suc n)
    show ?case
    proof (cases "m t = 0")
      case True
      then have "strncpy s t (Suc n) m = pad_zero (s + 1) n (m(s := 0))"
        by simp
      then show ?thesis using True by (auto simp: pad_zero_eq not_less_eq_eq intro!: exI [of _ 0])
    next
      case False
      let ?m = "m(s := m t)"
      have same: "j < n \<Longrightarrow> ?m (t + 1 + j) = m (t + 1 + j)" for j using Suc(2) by auto
      have IH: "(\<forall>a. a < s + 1 \<or> s + 1 + n \<le> a \<longrightarrow> strncpy (s + 1) (t + 1) n ?m a = ?m a) \<and>
        (\<forall>k<n. strncpy (s + 1) (t + 1) n ?m (s + 1 + k) =
           (if \<exists>j<k. ?m (t + 1 + j) = 0 then 0 else ?m (t + 1 + k)))"
        using Suc(2) by (intro Suc(1)) auto
      have eq: "strncpy s t (Suc n) m = strncpy (s + 1) (t + 1) n ?m" using False by simp
      have "strncpy s t (Suc n) m (s + k) = (if \<exists>j<k. m (t + j) = 0 then 0 else m (t + k))"
        if "k < Suc n" for k
      proof (cases k)
        case 0
        then show ?thesis using IH eq by simp
      next
        case (Suc k')
        have "(\<exists>j<k'. ?m (t + 1 + j) = 0) = (\<exists>j<k'. m (t + 1 + j) = 0)"
          using same that Suc by (metis Suc_less_eq less_trans)
        then have "(\<exists>j<k. m (t + j) = 0) = (\<exists>j<k'. ?m (t + 1 + j) = 0)"
          using False Suc by (simp add: Ex_less_Suc2 del: fun_upd_apply)
        moreover have "strncpy (s + 1) (t + 1) n ?m (s + 1 + k') =
           (if \<exists>j<k'. ?m (t + 1 + j) = 0 then 0 else ?m (t + 1 + k'))"
          using IH that Suc by blast
        ultimately show ?thesis using same [of k'] that Suc unfolding eq by (auto simp del: fun_upd_apply)
      qed
      moreover have "a < s \<or> s + Suc n \<le> a \<Longrightarrow> strncpy s t (Suc n) m a = m a" for a
        using conjunct1 [OF IH, rule_format, of a] eq by auto
      ultimately show ?thesis by blast
    qed
  qed
  then show "a < s \<or> s + n \<le> a \<Longrightarrow> strncpy s t n m a = m a"
    and "k < n \<Longrightarrow> strncpy s t n m (s + k) = (if \<exists>j<k. m (t + j) = 0 then 0 else m (t + k))"
    by blast+
qed

definition safe_copied :: "nat \<Rightarrow> nat \<Rightarrow> nat \<Rightarrow> bmem \<Rightarrow> bmem \<Rightarrow> nat \<Rightarrow> bool" where
  "safe_copied s t n m m' k \<longleftrightarrow> k \<le> n \<and> m' (s + k) = 0 \<and>
     (\<forall>j<k. m' (s + j) = m (t + j) \<and> m (t + j) \<noteq> 0) \<and>
     (\<forall>a. a < s \<or> s + n < a \<longrightarrow> m' a = m a) \<and> (k < n \<longrightarrow> m (t + k) = 0)"

lemma safestrcpy_loop_copied:
  assumes "t + n < s \<or> s + n < t"
  shows "\<exists>k. safe_copied s t n m (safestrcpy_loop s t n m) k"
  using assms
proof (induction n arbitrary: s t m)
  case 0
  then show ?case by (simp add: safe_copied_def)
next
  case (Suc n)
  let ?m = "m(s := m t)"
  show ?case
  proof (cases "m t = 0")
    case True
    then show ?thesis by (intro exI [of _ 0]) (auto simp: safe_copied_def)
  next
    case False
    then have eq: "safestrcpy_loop s t (Suc n) m = safestrcpy_loop (s + 1) (t + 1) n ?m"
      by simp
    have "t + 1 + n < s + 1 \<or> s + 1 + n < t + 1" using Suc(2) by auto
    from Suc(1) [OF this, of ?m] obtain k
      where k: "safe_copied (s + 1) (t + 1) n ?m (safestrcpy_loop s t (Suc n) m) k"
      unfolding eq by blast
    have same: "j \<le> n \<Longrightarrow> ?m (t + 1 + j) = m (t + 1 + j)" for j using Suc(2) by auto
    have pre: "safestrcpy_loop s t (Suc n) m (s + j) = m (t + j) \<and> m (t + j) \<noteq> 0"
      if "j < Suc k" for j
      using False k same [of "j - 1"] that by (cases j) (auto simp: safe_copied_def)
    show ?thesis
      using k same [of k] pre by (intro exI [of _ "Suc k"]) (auto simp: safe_copied_def)
  qed
qed

subsection \<open>Numbers\<close>

lemma itoa_len_pos [simp]: "0 < itoa_len i"
  by (subst itoa_len.simps) simp

lemma itoa_len_small: "i < 10 \<Longrightarrow> itoa_len i = 1"
  by (subst itoa_len.simps) simp

lemma itoa_len_big: "\<not> i < 10 \<Longrightarrow> itoa_len i = Suc (itoa_len (i div 10))"
  by (subst itoa_len.simps) simp

lemma itoa_len_le: "0 < k \<Longrightarrow> i < 10 ^ k \<Longrightarrow> itoa_len i \<le> k"
proof (induction i arbitrary: k rule: itoa_len.induct)
  case (1 i)
  show ?case
  proof (cases "i < 10")
    case True
    then show ?thesis using 1(2) by (simp add: itoa_len_small)
  next
    case False
    have k: "1 < k"
    proof (rule ccontr)
      assume "\<not> 1 < k"
      with 1(2) have "k = 1" by simp
      with 1(3) False show False by simp
    qed
    have "i div 10 < 10 ^ (k - 1)" using 1(3) k
      by (cases k) (auto simp: less_mult_imp_div_less mult.commute)
    with 1(1) False k have "itoa_len (i div 10) \<le> k - 1" by simp
    then show ?thesis using False k by (simp add: itoa_len_big)
  qed
qed


fun dec_digits :: "nat \<Rightarrow> u8 list" where
  "dec_digits i = (if i < 10 then [of_nat (48 + i)]
     else dec_digits (i div 10) @ [of_nat (48 + i mod 10)])"

declare dec_digits.simps [simp del]

lemma length_dec_digits [simp]: "length (dec_digits i) = itoa_len i"
proof (induction i rule: dec_digits.induct)
  case (1 i)
  then show ?case by (subst dec_digits.simps, subst itoa_len.simps) simp
qed

lemma itoa_put_eq:
  assumes "itoa_len i \<le> p"
  shows "itoa_put p i b = (\<lambda>a. if p - itoa_len i \<le> a \<and> a < p
    then dec_digits i ! (a - (p - itoa_len i)) else b a)"
  using assms
proof (induction i arbitrary: p b rule: itoa_len.induct)
  case (1 i)
  show ?case
  proof (cases "i < 10")
    case True
    then show ?thesis using 1(2)
      by (subst itoa_put.simps) (auto simp: itoa_len_small dec_digits.simps [of i] fun_eq_iff)
  next
    case False
    let ?l = "itoa_len (i div 10)" and ?b = "b(p - 1 := of_nat (48 + i mod 10))"
    have l: "itoa_len i = Suc ?l" using False by (rule itoa_len_big)
    have d: "dec_digits i = dec_digits (i div 10) @ [of_nat (48 + i mod 10)]"
      using False by (simp add: dec_digits.simps [of i])
    have "itoa_put p i b = itoa_put (p - 1) (i div 10) ?b"
      using False by (subst itoa_put.simps) simp
    also have "\<dots> = (\<lambda>a. if p - 1 - ?l \<le> a \<and> a < p - 1
        then dec_digits (i div 10) ! (a - (p - 1 - ?l)) else ?b a)"
      by (rule 1(1)) (use 1(2) False l in auto)
    also have "\<dots> = (\<lambda>a. if p - itoa_len i \<le> a \<and> a < p
        then dec_digits i ! (a - (p - itoa_len i)) else b a)"
    proof
      fix a
      show "(if p - 1 - ?l \<le> a \<and> a < p - 1 then dec_digits (i div 10) ! (a - (p - 1 - ?l)) else ?b a) =
        (if p - itoa_len i \<le> a \<and> a < p then dec_digits i ! (a - (p - itoa_len i)) else b a)"
        using 1(2) l by (cases "a = p - 1") (auto simp: d nth_append)
    qed
    finally show ?thesis .
  qed
qed

lemma dec_digit_range: "c \<in> set (dec_digits i) \<Longrightarrow> 48 \<le> c \<and> c \<le> 57"
proof (induction i rule: dec_digits.induct)
  case (1 i)
  have r: "48 \<le> (of_nat (48 + j) :: u8) \<and> (of_nat (48 + j) :: u8) \<le> 57" if "j < 10" for j
    using that by (simp add: word_le_nat_alt unat_of_nat del: of_nat_add)
  show ?case
  proof (cases "i < 10")
    case True
    then show ?thesis using 1(2) r [of i] by (simp add: dec_digits.simps [of i])
  next
    case False
    then show ?thesis using 1 r [of "i mod 10"] by (auto simp: dec_digits.simps [of i])
  qed
qed

lemma atoi_loop_append:
  "(\<And>c. c \<in> set xs \<Longrightarrow> 48 \<le> c \<and> c \<le> 57) \<Longrightarrow>
   atoi_loop (xs @ ys) n = atoi_loop ys (atoi_loop xs n)"
  by (induction xs arbitrary: n) auto

lemma atoi_dec_digits: "atoi_loop (dec_digits i) 0 = of_nat i"
proof (induction i rule: dec_digits.induct)
  case (1 i)
  have u: "(ucast (of_nat (48 + j) :: u8) :: u32) = of_nat (48 + j)" if "j < 10" for j
    using that by (simp add: word_unat_eq_iff unat_of_nat unsigned_ucast_eq take_bit_nat_eq_self del: of_nat_add)
  show ?case
  proof (cases "i < 10")
    case True
    then have "48 \<le> (of_nat (48 + i) :: u8) \<and> (of_nat (48 + i) :: u8) \<le> 57"
      using dec_digit_range [of _ i] by (simp add: dec_digits.simps [of i])
    then show ?thesis using True u [of i] by (simp add: dec_digits.simps [of i])
  next
    case False
    have r: "48 \<le> (of_nat (48 + i mod 10) :: u8) \<and> (of_nat (48 + i mod 10) :: u8) \<le> 57"
      using dec_digit_range [of _ "i mod 10"] by (simp add: dec_digits.simps [of "i mod 10"])
    have "atoi_loop (dec_digits i) 0 = of_nat (i div 10) * 10 + of_nat (48 + i mod 10) - 48"
      using False 1 r u [of "i mod 10"]
      by (simp add: dec_digits.simps [of i] atoi_loop_append dec_digit_range)
    also have "\<dots> = of_nat (i div 10 * 10 + i mod 10)"
      by (simp only: of_nat_add of_nat_mult of_nat_numeral) simp
    finally show ?thesis by (simp only: div_mult_mod_eq)
  qed
qed


lemma itoa_nonneg:
  assumes "0 \<le> i"
  shows "itoa i b = Inr (\<lambda>a. if a < itoa_len (nat i) then dec_digits (nat i) ! a
    else if a = itoa_len (nat i) then 0 else b a)"
  using assms by (auto simp: itoa_def itoa_put_eq fun_eq_iff Let_def)

lemma memmove_eq:
  "memmove dst src n m = (\<lambda>a. if dst \<le> a \<and> a < dst + n then m (src + (a - dst)) else m a)"
proof (cases "src < dst \<and> src + n > dst")
  case True
  then have "copy_down (dst + n) (src + n) n m =
      (\<lambda>a. if dst + n - n \<le> a \<and> a < dst + n then m (src + n - (dst + n - a)) else m a)"
    by (intro copy_down_eq) auto
  moreover have "dst \<le> a \<Longrightarrow> a < dst + n \<Longrightarrow> src + n - (dst + n - a) = src + (a - dst)" for a
    by simp
  ultimately show ?thesis using True by (auto simp: memmove_def fun_eq_iff)
next
  case False
  then have "copy_up dst src n m = (\<lambda>a. if dst \<le> a \<and> a < dst + n then m (src + (a - dst)) else m a)"
    by (intro copy_up_eq) auto
  then show ?thesis unfolding memmove_def if_not_P [OF False] .
qed

lemma memset_eq:
  "memset dst c n m = (\<lambda>a. if dst \<le> a \<and> a < dst + n then ucast c else m a)"
proof (cases "dst mod 4 = 0 \<and> n mod 4 = 0")
  case True
  then have "4 * (n div 4) = n" by presburger
  then show ?thesis
    by (simp only: memset_def Let_def if_P [OF True] stosl_eq [OF splat_bytes])
next
  case False
  then show ?thesis by (auto simp: memset_def stosb_eq)
qed

section \<open>Properties\<close>

text \<open>
  \<open>memmove\<close> of the kernel copies a region onto another one whether or not the two overlap:
  every byte of the destination gets what the corresponding source byte held before the call,
  and nothing else changes. Both branches of \<open>memset\<close>, the word-wise one and the byte-wise one,
  store the low byte of \<open>c\<close> into exactly the \<open>n\<close> bytes from \<open>dst\<close>.
\<close>

theorem copy_and_fill_spec:
  "memmove dst src n m = (\<lambda>a. if dst \<le> a \<and> a < dst + n then m (src + (a - dst)) else m a) \<and>
   memset dst c n m = (\<lambda>a. if dst \<le> a \<and> a < dst + n then ucast c else m a)"
  by (intro conjI memmove_eq memset_eq)

text \<open>
  C39: \<open>safestrcpy\<close> leaves a NUL-terminated string in the \<open>n\<close> bytes of its destination, whose
  bytes are a prefix of the source string (all of it when it fits), and writes nothing else.
\<close>

theorem safestrcpy_spec:
  assumes "0 < n" and "t + nat n \<le> s \<or> s + nat n \<le> t"
  shows "\<exists>k<nat n. safestrcpy s t n m (s + k) = 0 \<and>
    (\<forall>j<k. safestrcpy s t n m (s + j) = m (t + j) \<and> m (t + j) \<noteq> 0) \<and>
    (\<forall>a. a < s \<or> s + nat n \<le> a \<longrightarrow> safestrcpy s t n m a = m a) \<and>
    (Suc k < nat n \<longrightarrow> m (t + k) = 0)"
proof -
  have "t + nat (n - 1) < s \<or> s + nat (n - 1) < t" using assms by auto
  from safestrcpy_loop_copied [OF this, of m] obtain k
    where "safe_copied s t (nat (n - 1)) m (safestrcpy s t n m) k"
    using assms(1) by (auto simp: safestrcpy_def)
  then show ?thesis using assms(1) by (intro exI [of _ k]) (auto simp: safe_copied_def)
qed

theorem safestrcpy_spec_witness:
  "\<exists>k<nat 3. safestrcpy 0 10 3 (\<lambda>a. 7) (0 + k) = 0 \<and>
    (\<forall>j<k. safestrcpy 0 10 3 (\<lambda>a. 7) (0 + j) = 7 \<and> (7 :: u8) \<noteq> 0) \<and>
    (\<forall>a. a < 0 \<or> 0 + nat 3 \<le> a \<longrightarrow> safestrcpy 0 10 3 (\<lambda>a. 7) a = 7) \<and>
    (Suc k < nat 3 \<longrightarrow> (7 :: u8) = 0)"
  using safestrcpy_spec [of 3 10 0 "\<lambda>a. 7"] by simp



text \<open>
  C40: the user library's \<open>memmove\<close> only copies upwards, so on overlapping regions with the
  source below the destination it is not the kernel's \<open>memmove\<close>; on all other regions it is.
\<close>

theorem ulib_memmove_overlap:
  "(\<forall>dst src n m. \<not> (src < dst \<and> dst < src + nat n) \<longrightarrow>
      ulib_memmove dst src n m = memmove dst src (nat n) m) \<and>
   ulib_memmove 1 0 2 (\<lambda>a. of_nat a) \<noteq> memmove 1 0 2 (\<lambda>a. of_nat a)"
proof -
  have "ulib_memmove 1 0 2 (\<lambda>a. of_nat a) 2 \<noteq> memmove 1 0 2 (\<lambda>a. of_nat a) 2"
    by (simp add: ulib_memmove_def memmove_eq numeral_2_eq_2)
  then show ?thesis by (auto simp: ulib_memmove_def memmove_eq copy_up_eq)
qed

theorem ulib_memmove_overlap_witness:
  "ulib_memmove 5 0 3 (\<lambda>a. of_nat a) = memmove 5 0 (nat 3) (\<lambda>a. of_nat a)"
proof -
  have "\<not> (0 < (5 :: nat) \<and> 5 < 0 + nat 3)" by simp
  then show ?thesis using ulib_memmove_overlap by blast
qed

end
