(* ===== verification/Ptable.thy ===== *)
theory Ptable
  imports Spinlock Cstring
begin

text \<open>
  The process table and what processes do to each other through it: \<open>struct proc\<close>, \<open>struct
  p_monitor\<close> and \<open>enum procstate\<close> of \<open>proc.h\<close>; \<open>myproc\<close>, \<open>sched\<close>, \<open>yield\<close>, \<open>sleep\<close>, \<open>wakeup\<close>,
  \<open>kill\<close>, \<open>scheduler\<close> of \<open>proc.c\<close>; the sleep locks of \<open>sleeplock.c\<close>; \<open>switchuvm\<close> and \<open>switchkvm\<close>
  of \<open>vm.c\<close>. A function that switches to another context is modelled up to the switch
  (\<open>_enter\<close>) and from it on (\<open>_leave\<close>); \<open>sched\<close> hands its saved \<open>intena\<close> from one to the other.
\<close>

unbundle bit_operations_syntax

section \<open>Definitions\<close>

abbreviation "NPROC \<equiv> (64 :: nat)"
abbreviation "NOFILE \<equiv> (16 :: nat)"
abbreviation "KSTACKSIZE \<equiv> (4096 :: u32)"
abbreviation "MAX_PYSC_PAGES \<equiv> (16 :: nat)"
abbreviation "MAX_TOTAL_PAGES \<equiv> (32 :: nat)"

datatype procstate = UNUSED | EMBRYO | SLEEPING | RUNNABLE | RUNNING | ZOMBIE

text \<open>Sleep channels: the objects whose addresses the code sleeps on.\<close>

datatype chan = ChProc nat | ChTicks | ChLog | ChSleep sleep_id | ChPipeRead u32 | ChPipeWrite u32
  | ChInput | ChBuf nat

record p_monitor =
  pm_used :: bool
  pm_pgdir :: u32
  pm_va :: u32
  pm_place :: int

record trapframe =
  tf_eax :: u32
  tf_eip :: u32
  tf_cs :: u32
  tf_eflags :: u32
  tf_esp :: u32
  tf_ss :: u32
  tf_ds :: u32
  tf_es :: u32
  tf_trapno :: u32
  tf_err :: u32

record proc =
  p_sz :: u32
  p_pgdir :: u32
  p_kstack :: u32
  p_state :: procstate
  p_pid :: int
  p_parent :: "nat option"
  p_tf :: trapframe
  p_eip :: u32
  p_chan :: "chan option"
  p_killed :: bool
  p_ofile :: "nat \<Rightarrow> nat option"
  p_cwd :: "nat option"
  p_name :: bview
  p_swapFile :: "nat option"
  p_ram :: "nat \<Rightarrow> p_monitor"
  p_swap :: "nat \<Rightarrow> p_monitor"
  p_pages_in_file :: int
  p_last_in_queue :: int
  p_protected :: int
  p_pgflt :: int

record sleeplock =
  sl_locked :: bool
  sl_pid :: int

record ptab_state = mach_state +
  procs :: "nat \<Rightarrow> proc"
  initproc :: "nat option"
  nextpid :: int
  ticks :: u32
  slocks :: "sleep_id \<Rightarrow> sleeplock"
  cr3 :: u32
  kpgdir :: u32
  ts_esp0 :: u32

definition myproc :: "('z mach_state_scheme, nat option) kop" where
  "myproc = thn pushcli (bnd mycpu (\<lambda>c.
     bnd (rd (\<lambda>s. cpu_proc (cpus (mach s) c))) (\<lambda>p. thn popcli (ret p))))"

text \<open>\<open>myproc()->f\<close>: the current process, a fault when there is none.\<close>

definition curproc :: "('z mach_state_scheme, nat) kop" where
  "curproc = bnd myproc (\<lambda>p. case p of None \<Rightarrow> kerror (Fault ''myproc'') | Some i \<Rightarrow> ret i)"

definition upd_proc :: "nat \<Rightarrow> (proc \<Rightarrow> proc) \<Rightarrow> ('z ptab_state_scheme, unit) kop" where
  "upd_proc i f = upd (\<lambda>s. s\<lparr>procs := (procs s)(i := f (procs s i))\<rparr>)"

definition pinit :: "('z ptab_state_scheme, unit) kop" where
  "pinit = initlock LPtable"

definition wake :: "chan option \<Rightarrow> proc \<Rightarrow> proc" where
  "wake ch p = (if p_state p = SLEEPING \<and> p_chan p = ch then p\<lparr>p_state := RUNNABLE\<rparr> else p)"

definition wake_all :: "chan option \<Rightarrow> (nat \<Rightarrow> proc) \<Rightarrow> nat \<Rightarrow> proc" where
  "wake_all ch ps = (\<lambda>i. if i < NPROC then wake ch (ps i) else ps i)"

definition wakeup1 :: "chan option \<Rightarrow> ('z ptab_state_scheme, unit) kop" where
  "wakeup1 ch = upd (\<lambda>s. s\<lparr>procs := wake_all ch (procs s)\<rparr>)"

definition wakeup :: "chan \<Rightarrow> ('z ptab_state_scheme, unit) kop" where
  "wakeup ch = thn (acquire LPtable) (thn (wakeup1 (Some ch)) (release LPtable))"

definition kill :: "int \<Rightarrow> ('z ptab_state_scheme, int) kop" where
  "kill pid =
     thn (acquire LPtable) (
     bnd (rd procs) (\<lambda>ps.
     case first_idx (\<lambda>i. p_pid (ps i) = pid) NPROC of
       Some i \<Rightarrow>
         thn (upd_proc i (\<lambda>p. p\<lparr>p_killed := True\<rparr>)) (
         thn (whn (p_state (ps i) = SLEEPING) (upd_proc i (\<lambda>p. p\<lparr>p_state := RUNNABLE\<rparr>))) (
         thn (release LPtable) (ret 0)))
     | None \<Rightarrow> thn (release LPtable) (ret (- 1))))"

definition switchkvm :: "('z ptab_state_scheme, unit) kop" where
  "switchkvm = upd (\<lambda>s. s\<lparr>cr3 := kpgdir s - 0x80000000\<rparr>)"

definition switchuvm :: "nat option \<Rightarrow> ('z ptab_state_scheme, unit) kop" where
  "switchuvm po = (case po of
     None \<Rightarrow> panic ''switchuvm: no process''
   | Some i \<Rightarrow> bnd (rd (\<lambda>s. procs s i)) (\<lambda>p.
       if p_kstack p = 0 then panic ''switchuvm: no kstack''
       else if p_pgdir p = 0 then panic ''switchuvm: no pgdir''
       else thn pushcli (
         thn (upd (\<lambda>s. s\<lparr>ts_esp0 := p_kstack p + KSTACKSIZE\<rparr>)) (
         thn (upd (\<lambda>s. s\<lparr>cr3 := p_pgdir p - 0x80000000\<rparr>))
         popcli))))"

text \<open>\<open>sched\<close> up to \<open>swtch\<close> (its result is the saved \<open>intena\<close>), and from \<open>swtch\<close> on.\<close>

definition sched_enter :: "('z ptab_state_scheme, bool) kop" where
  "sched_enter =
     bnd curproc (\<lambda>i.
     bnd (holding LPtable) (\<lambda>h.
     if \<not> h then panic ''sched ptable.lock''
     else bnd mycpu (\<lambda>c.
     bnd (rd (\<lambda>s. cpus (mach s) c)) (\<lambda>cp.
     if ncli cp \<noteq> 1 then panic ''sched locks''
     else bnd (rd (\<lambda>s. p_state (procs s i))) (\<lambda>st.
     if st = RUNNING then panic ''sched running''
     else bnd (rd (iflag \<circ> mach)) (\<lambda>f.
     if f then panic ''sched interruptible''
     else ret (intena cp)))))))"

definition sched_leave :: "bool \<Rightarrow> ('z ptab_state_scheme, unit) kop" where
  "sched_leave ie = bnd mycpu (\<lambda>c. upd_cpu c (\<lambda>cp. cp\<lparr>intena := ie\<rparr>))"

definition yield_enter :: "('z ptab_state_scheme, bool) kop" where
  "yield_enter =
     thn (acquire LPtable) (
     bnd curproc (\<lambda>i.
     thn (upd_proc i (\<lambda>p. p\<lparr>p_state := RUNNABLE\<rparr>))
     sched_enter))"

definition yield_leave :: "bool \<Rightarrow> ('z ptab_state_scheme, unit) kop" where
  "yield_leave ie = thn (sched_leave ie) (release LPtable)"

definition sleep_enter :: "chan \<Rightarrow> lock_id option \<Rightarrow> ('z ptab_state_scheme, bool) kop" where
  "sleep_enter ch lko =
     bnd myproc (\<lambda>po. case po of
       None \<Rightarrow> panic ''sleep''
     | Some i \<Rightarrow> (case lko of
         None \<Rightarrow> panic ''sleep without lk''
       | Some lk \<Rightarrow>
           thn (whn (lk \<noteq> LPtable) (thn (acquire LPtable) (release lk))) (
           thn (upd_proc i (\<lambda>p. p\<lparr>p_chan := Some ch, p_state := SLEEPING\<rparr>))
           sched_enter)))"

definition sleep_leave :: "lock_id \<Rightarrow> bool \<Rightarrow> ('z ptab_state_scheme, unit) kop" where
  "sleep_leave lk ie =
     thn (sched_leave ie) (
     bnd curproc (\<lambda>i.
     thn (upd_proc i (\<lambda>p. p\<lparr>p_chan := None\<rparr>)) (
     whn (lk \<noteq> LPtable) (thn (release LPtable) (acquire lk)))))"

text \<open>
  One step of the loop of \<open>scheduler\<close> over the table, the lock held: a process that is not
  RUNNABLE is passed over, another is switched to (\<open>True\<close>); \<open>scheduler_back\<close> is what follows
  \<open>swtch\<close> when that process gives the CPU up.
\<close>

definition scheduler_pick :: "nat \<Rightarrow> ('z ptab_state_scheme, bool) kop" where
  "scheduler_pick i =
     bnd (rd (\<lambda>s. p_state (procs s i))) (\<lambda>st.
     if st \<noteq> RUNNABLE then ret False
     else bnd mycpu (\<lambda>c.
       thn (upd_cpu c (\<lambda>cp. cp\<lparr>cpu_proc := Some i\<rparr>)) (
       thn (switchuvm (Some i)) (
       thn (upd_proc i (\<lambda>p. p\<lparr>p_state := RUNNING\<rparr>))
       (ret True)))))"

definition scheduler_back :: "('z ptab_state_scheme, unit) kop" where
  "scheduler_back = thn switchkvm (bnd mycpu (\<lambda>c. upd_cpu c (\<lambda>cp. cp\<lparr>cpu_proc := None\<rparr>)))"

definition used_swap_pages :: "proc \<Rightarrow> nat" where
  "used_swap_pages p = length (filter (\<lambda>i. pm_used (p_swap p i)) [0..<MAX_TOTAL_PAGES - MAX_PYSC_PAGES])"

subsection \<open>Sleep locks\<close>

definition initsleeplock :: "sleep_id \<Rightarrow> ('z ptab_state_scheme, unit) kop" where
  "initsleeplock lk = thn (initlock (LSleep lk))
     (upd (\<lambda>s. s\<lparr>slocks := (slocks s)(lk := \<lparr>sl_locked = False, sl_pid = 0\<rparr>)\<rparr>))"

definition acquiresleep :: "sleep_id \<Rightarrow> ('z ptab_state_scheme, unit) kop" where
  "acquiresleep lk =
     thn (acquire (LSleep lk)) (
     bnd (rd (\<lambda>s. sl_locked (slocks s lk))) (\<lambda>busy.
     if busy then kerror (Waits ''acquiresleep'')
     else bnd curproc (\<lambda>i.
       thn (upd (\<lambda>s. s\<lparr>slocks := (slocks s)(lk := \<lparr>sl_locked = True, sl_pid = p_pid (procs s i)\<rparr>)\<rparr>))
       (release (LSleep lk)))))"

definition releasesleep :: "sleep_id \<Rightarrow> ('z ptab_state_scheme, unit) kop" where
  "releasesleep lk =
     thn (acquire (LSleep lk)) (
     thn (upd (\<lambda>s. s\<lparr>slocks := (slocks s)(lk := \<lparr>sl_locked = False, sl_pid = 0\<rparr>)\<rparr>)) (
     thn (wakeup (ChSleep lk))
     (release (LSleep lk))))"

definition holdingsleep :: "sleep_id \<Rightarrow> ('z ptab_state_scheme, bool) kop" where
  "holdingsleep lk =
     thn (acquire (LSleep lk)) (
     bnd (rd (\<lambda>s. sl_locked (slocks s lk))) (\<lambda>r.
     thn (release (LSleep lk)) (ret r)))"

subsection \<open>The scheduling state machine\<close>

text \<open>
  The states of the processes and the process each CPU runs, changed by the code segments that
  run under \<open>ptable.lock\<close>.
\<close>

record sch_view =
  v_state :: "nat \<Rightarrow> procstate"
  v_run :: "nat \<Rightarrow> nat option"

inductive sch_step :: "sch_view \<Rightarrow> sch_view \<Rightarrow> bool" where
  sch_pick: "v_run v c = None \<Longrightarrow> v_state v i = RUNNABLE \<Longrightarrow>
    sch_step v (v\<lparr>v_state := (v_state v)(i := RUNNING), v_run := (v_run v)(c := Some i)\<rparr>)"
| sch_leave: "v_run v c = Some i \<Longrightarrow> st \<in> {RUNNABLE, SLEEPING, ZOMBIE} \<Longrightarrow>
    sch_step v (v\<lparr>v_state := (v_state v)(i := st), v_run := (v_run v)(c := None)\<rparr>)"
| sch_wake: "v_state v i = SLEEPING \<Longrightarrow> sch_step v (v\<lparr>v_state := (v_state v)(i := RUNNABLE)\<rparr>)"
| sch_alloc: "v_state v i = UNUSED \<Longrightarrow> sch_step v (v\<lparr>v_state := (v_state v)(i := EMBRYO)\<rparr>)"
| sch_ready: "v_state v i = EMBRYO \<Longrightarrow> st \<in> {RUNNABLE, UNUSED} \<Longrightarrow>
    sch_step v (v\<lparr>v_state := (v_state v)(i := st)\<rparr>)"
| sch_reap: "v_state v i = ZOMBIE \<Longrightarrow> sch_step v (v\<lparr>v_state := (v_state v)(i := UNUSED)\<rparr>)"

definition sch_init :: "sch_view \<Rightarrow> bool" where
  "sch_init v \<longleftrightarrow> (\<forall>i. v_state v i = UNUSED) \<and> (\<forall>c. v_run v c = None)"

definition sch_of :: "'z ptab_state_scheme \<Rightarrow> sch_view" where
  "sch_of s = \<lparr>v_state = (\<lambda>i. p_state (procs s i)), v_run = (\<lambda>c. cpu_proc (cpus (mach s) c))\<rparr>"


subsection \<open>Sleep and wakeup interleaved\<close>

text \<open>
  One process tests a condition under \<open>lk\<close> and calls \<open>sleep\<close> while it is false, another sets the
  condition under \<open>lk\<close> and calls \<open>wakeup\<close>; each step is the code between two lock operations, in
  the order of \<open>sleep\<close> (acquire \<open>ptable.lock\<close>, release \<open>lk\<close>, mark SLEEPING, switch away) and of
  \<open>wakeup\<close>.
\<close>

datatype sw_who = Sleeper | Waker

datatype sw_spc = S_enter | S_locked | S_tested | S_both | S_ptable | S_asleep | S_woken | S_done

datatype sw_wpc = W_enter | W_locked | W_set | W_ptable | W_woken | W_done

record sw_state =
  s_pc :: sw_spc
  w_pc :: sw_wpc
  sw_cond :: bool
  lk_owner :: "sw_who option"
  pt_owner :: "sw_who option"

inductive sw_step :: "sw_state \<Rightarrow> sw_state \<Rightarrow> bool" where
  s_lock: "s_pc v = S_enter \<Longrightarrow> lk_owner v = None \<Longrightarrow>
    sw_step v (v\<lparr>s_pc := S_locked, lk_owner := Some Sleeper\<rparr>)"
| s_test: "s_pc v = S_locked \<Longrightarrow> \<not> sw_cond v \<Longrightarrow> sw_step v (v\<lparr>s_pc := S_tested\<rparr>)"
| s_done: "s_pc v = S_locked \<Longrightarrow> sw_cond v \<Longrightarrow> sw_step v (v\<lparr>s_pc := S_done, lk_owner := None\<rparr>)"
| s_ptable: "s_pc v = S_tested \<Longrightarrow> pt_owner v = None \<Longrightarrow>
    sw_step v (v\<lparr>s_pc := S_both, pt_owner := Some Sleeper\<rparr>)"
| s_unlock: "s_pc v = S_both \<Longrightarrow> sw_step v (v\<lparr>s_pc := S_ptable, lk_owner := None\<rparr>)"
| s_sched: "s_pc v = S_ptable \<Longrightarrow> sw_step v (v\<lparr>s_pc := S_asleep, pt_owner := None\<rparr>)"
| s_relock: "s_pc v = S_woken \<Longrightarrow> lk_owner v = None \<Longrightarrow>
    sw_step v (v\<lparr>s_pc := S_locked, lk_owner := Some Sleeper\<rparr>)"
| w_lock: "w_pc v = W_enter \<Longrightarrow> lk_owner v = None \<Longrightarrow>
    sw_step v (v\<lparr>w_pc := W_locked, lk_owner := Some Waker\<rparr>)"
| w_set: "w_pc v = W_locked \<Longrightarrow> sw_step v (v\<lparr>w_pc := W_set, sw_cond := True\<rparr>)"
| w_ptable: "w_pc v = W_set \<Longrightarrow> pt_owner v = None \<Longrightarrow>
    sw_step v (v\<lparr>w_pc := W_ptable, pt_owner := Some Waker\<rparr>)"
| w_wake: "w_pc v = W_ptable \<Longrightarrow>
    sw_step v (v\<lparr>w_pc := W_woken, pt_owner := None,
      s_pc := if s_pc v = S_asleep then S_woken else s_pc v\<rparr>)"
| w_unlock: "w_pc v = W_woken \<Longrightarrow> sw_step v (v\<lparr>w_pc := W_done, lk_owner := None\<rparr>)"

definition sw_init :: "sw_state \<Rightarrow> bool" where
  "sw_init v \<longleftrightarrow> s_pc v = S_enter \<and> w_pc v = W_enter \<and> \<not> sw_cond v \<and> lk_owner v = None \<and> pt_owner v = None"

section \<open>Lemmas\<close>

definition cur_of :: "mach \<Rightarrow> nat option" where
  "cur_of m = cpu_proc (cpus m (this_cpu m))"

text \<open>\<open>calm\<close>: between critical sections, no spin lock held by anyone.\<close>

definition calm :: "'z mach_state_scheme \<Rightarrow> bool" where
  "calm s \<longleftrightarrow> mach_ok (mach s) \<and> (\<forall>l. lk_free (mach s) l)"

lemma calm_ok [simp]: "calm s \<Longrightarrow> mach_ok (mach s)" "calm s \<Longrightarrow> lk_free (mach s) l"
  by (auto simp: calm_def)

lemma cur_of_hold [simp]: "cur_of (hold l m) = cur_of m"
  and cur_of_cli_in [simp]: "cur_of (cli_in m) = cur_of m"
  unfolding cur_of_def this_cpu_hold this_cpu_cli_in by (simp_all add: hold_def cli_in_def)

lemma myproc_ok [simp]: "mach_ok (mach s) \<Longrightarrow> myproc s = Inr (cur_of (mach s), s)"
  using cur_of_cli_in [of "mach s"] by (simp add: myproc_def ret_def cur_of_def)

lemma curproc_ok [simp]:
  "mach_ok (mach s) \<Longrightarrow> cur_of (mach s) = Some i \<Longrightarrow> curproc s = Inr (i, s)"
  by (simp add: curproc_def ret_def)

lemma wakeup_ok [simp]:
  "mach_ok (mach s) \<Longrightarrow> lk_free (mach s) LPtable \<Longrightarrow>
   wakeup ch s = Inr ((), s\<lparr>procs := wake_all (Some ch) (procs s)\<rparr>)"
  by (simp add: wakeup_def wakeup1_def)

lemma wake_all_pid [simp]: "p_pid (wake_all ch ps i) = p_pid (ps i)"
  by (simp add: wake_all_def wake_def)

lemma acquiresleep_ok [simp]:
  "mach_ok (mach s) \<Longrightarrow> lk_free (mach s) (LSleep lk) \<Longrightarrow> cur_of (mach s) = Some i \<Longrightarrow>
   \<not> sl_locked (slocks s lk) \<Longrightarrow>
   acquiresleep lk s = Inr ((), s\<lparr>slocks := (slocks s)(lk := \<lparr>sl_locked = True, sl_pid = p_pid (procs s i)\<rparr>)\<rparr>)"
  by (simp add: acquiresleep_def)

lemma acquiresleep_busy [simp]:
  "mach_ok (mach s) \<Longrightarrow> lk_free (mach s) (LSleep lk) \<Longrightarrow> sl_locked (slocks s lk) \<Longrightarrow>
   acquiresleep lk s = Inl (Waits ''acquiresleep'')"
  by (simp add: acquiresleep_def kerror_def)

lemma releasesleep_ok [simp]:
  "mach_ok (mach s) \<Longrightarrow> lk_free (mach s) (LSleep lk) \<Longrightarrow> lk_free (mach s) LPtable \<Longrightarrow>
   releasesleep lk s = Inr ((), s\<lparr>slocks := (slocks s)(lk := \<lparr>sl_locked = False, sl_pid = 0\<rparr>),
     procs := wake_all (Some (ChSleep lk)) (procs s)\<rparr>)"
  by (simp add: releasesleep_def)

lemma holdingsleep_ok [simp]:
  "mach_ok (mach s) \<Longrightarrow> lk_free (mach s) (LSleep lk) \<Longrightarrow>
   holdingsleep lk s = Inr (sl_locked (slocks s lk), s)"
  by (simp add: holdingsleep_def ret_def)


lemma sched_enter_ok [simp]:
  assumes "mach s = hold LPtable m" "mach_ok m" "ncli (cpus m (this_cpu m)) = 0"
    "cur_of m = Some i" "p_state (procs s i) \<noteq> RUNNING"
  shows "sched_enter s = Inr (intena (cpus m (this_cpu m)), s)"
proof -
  have "ncli (cpus (hold LPtable m) (this_cpu m)) = 1"
    and "intena (cpus (hold LPtable m) (this_cpu m)) = intena (cpus m (this_cpu m))"
    using assms(3) by (simp_all add: hold_def)
  then show ?thesis using assms by (simp add: sched_enter_def ret_def)
qed

subsection \<open>The scheduling invariant\<close>

definition sch_inv :: "sch_view \<Rightarrow> bool" where
  "sch_inv v \<longleftrightarrow> (\<forall>c i. v_run v c = Some i \<longrightarrow> v_state v i = RUNNING) \<and>
     (\<forall>i. v_state v i = RUNNING \<longrightarrow> (\<exists>c. v_run v c = Some i)) \<and>
     (\<forall>c d i. v_run v c = Some i \<longrightarrow> v_run v d = Some i \<longrightarrow> c = d)"

lemma sch_invD:
  assumes "sch_inv v"
  shows "v_run v c = Some i \<Longrightarrow> v_state v i = RUNNING"
    and "v_state v i = RUNNING \<Longrightarrow> \<exists>c. v_run v c = Some i"
    and "v_run v c = Some i \<Longrightarrow> v_run v d = Some i \<Longrightarrow> c = d"
  using assms by (auto simp: sch_inv_def)

lemma sch_inv_other:
  assumes "sch_inv v" and "v_state v i \<noteq> RUNNING" and "st \<noteq> RUNNING"
  shows "sch_inv (v\<lparr>v_state := (v_state v)(i := st)\<rparr>)"
  using assms sch_invD [OF assms(1)] unfolding sch_inv_def by (simp; metis)

lemma sch_inv_step: "sch_step v w \<Longrightarrow> sch_inv v \<Longrightarrow> sch_inv w"
proof (induction rule: sch_step.induct)
  case (sch_pick v c i)
  then have "\<And>d. v_run v d \<noteq> Some i" using sch_invD(1) [OF sch_pick(3), of _ i] by auto
  then show ?case using sch_pick(1) sch_invD [OF sch_pick(3)]
    unfolding sch_inv_def by (simp; metis option.inject option.distinct(1))
next
  case (sch_leave v c i st)
  then have "\<And>d. v_run v d = Some i \<Longrightarrow> d = c" and "st \<noteq> RUNNING"
    using sch_invD(3) [OF sch_leave(3), of c i] by auto
  then show ?case using sch_leave(1) sch_invD [OF sch_leave(3)]
    unfolding sch_inv_def by (simp; metis option.inject)
qed (auto intro: sch_inv_other)

interpretation sch: inductive_invariant sch_init sch_step sch_inv
  by unfold_locales (auto simp: sch_init_def sch_inv_step, simp add: sch_init_def sch_inv_def)


subsection \<open>The code segments and the state machine\<close>

definition set_cur :: "nat option \<Rightarrow> mach \<Rightarrow> mach" where
  "set_cur q m = m\<lparr>cpus := (cpus m)(this_cpu m := (cpus m (this_cpu m))\<lparr>cpu_proc := q\<rparr>)\<rparr>"

lemma cpu_slot_set_cur [simp]: "cpu_slot (set_cur q m) = cpu_slot m"
  by (simp add: set_cur_def)

lemma this_cpu_set_cur [simp]: "this_cpu (set_cur q m) = this_cpu m"
  by (simp add: this_cpu_def)

lemma mach_ok_set_cur [simp]: "mach_ok (set_cur q m) = mach_ok m"
  by (simp add: mach_ok_def Let_def) (simp add: set_cur_def)

lemma lk_free_set_cur [simp]: "lk_free (set_cur q m) l = lk_free m l"
  by (simp add: lk_free_def set_cur_def)

lemma cpu_upd_swap: "c\<lparr>ncli := n, cpu_proc := q\<rparr> = c\<lparr>cpu_proc := q, ncli := n\<rparr>"
  by (cases c) simp

lemma set_cur_hold: "set_cur q (hold l m) = hold l (set_cur q m)"
proof -
  have "set_cur q (hold l m) = (hold l m)\<lparr>cpus := (cpus (hold l m))
      (this_cpu m := (cpus (hold l m) (this_cpu m))\<lparr>cpu_proc := q\<rparr>)\<rparr>"
    by (simp add: set_cur_def)
  also have "\<dots> = hold l (set_cur q m)"
    unfolding hold_def [of l "set_cur q m"] this_cpu_set_cur
    by (rule mach.equality) (simp_all add: hold_def set_cur_def cpu_upd_swap)
  finally show ?thesis .
qed

lemma upd_cpu_set_cur:
  "c = this_cpu (mach s) \<Longrightarrow>
   upd_cpu c (\<lambda>cp. cp\<lparr>cpu_proc := q\<rparr>) s = Inr ((), s\<lparr>mach := set_cur q (mach s)\<rparr>)"
  by (simp add: upd_cpu_def upd_def set_cur_def)

lemma cpu_proc_hold [simp]: "cpu_proc (cpus (hold l m) c) = cpu_proc (cpus m c)"
  by (simp add: hold_def)

lemma cpu_proc_set_cur [simp]:
  "cpu_proc (cpus (set_cur q m) c) = (if c = this_cpu m then q else cpu_proc (cpus m c))"
  by (simp add: set_cur_def)

lemma cur_of_set_cur [simp]: "cur_of (set_cur q m) = q"
  by (simp add: cur_of_def)

lemma ncli_set_cur [simp]: "ncli (cpus (set_cur q m) c) = ncli (cpus m c)"
  by (simp add: set_cur_def)

lemma scheduler_back_ok [simp]:
  "mach s = hold LPtable m \<Longrightarrow> mach_ok m \<Longrightarrow>
   scheduler_back s = Inr ((), s\<lparr>cr3 := kpgdir s - 0x80000000, mach := hold LPtable (set_cur None m)\<rparr>)"
  by (simp add: scheduler_back_def switchkvm_def upd_cpu_set_cur set_cur_hold)

lemma switchuvm_ok [simp]:
  "mach_ok (mach s) \<Longrightarrow> p_kstack (procs s i) \<noteq> 0 \<Longrightarrow> p_pgdir (procs s i) \<noteq> 0 \<Longrightarrow>
   switchuvm (Some i) s = Inr ((), s\<lparr>ts_esp0 := p_kstack (procs s i) + KSTACKSIZE,
     cr3 := p_pgdir (procs s i) - 0x80000000\<rparr>)"
  by (simp add: switchuvm_def)

lemma yield_ok:
  assumes "mach_ok (mach s)" "lk_free (mach s) LPtable" "cur_of (mach s) = Some i"
    "ncli (cpus (mach s) (this_cpu (mach s))) = 0"
  shows "bnd yield_enter (\<lambda>_. scheduler_back) s = Inr ((), s\<lparr>
    procs := (procs s)(i := (procs s i)\<lparr>p_state := RUNNABLE\<rparr>),
    cr3 := kpgdir s - 0x80000000, mach := hold LPtable (set_cur None (mach s))\<rparr>)"
  using assms by (simp add: yield_enter_def upd_proc_def)

lemma sleep_ok:
  assumes "mach s = hold lk m" "mach_ok m" "lk_free m lk" "lk_free m LPtable" "lk \<noteq> LPtable"
    "cur_of m = Some i" "ncli (cpus m (this_cpu m)) = 0"
  shows "bnd (sleep_enter ch (Some lk)) (\<lambda>_. scheduler_back) s = Inr ((), s\<lparr>
    procs := (procs s)(i := (procs s i)\<lparr>p_chan := Some ch, p_state := SLEEPING\<rparr>),
    cr3 := kpgdir s - 0x80000000, mach := hold LPtable (set_cur None m)\<rparr>)"
  using assms not_sym [OF assms(5)] by (simp add: sleep_enter_def upd_proc_def whn_def)

lemma pick_ok:
  assumes "mach s = hold LPtable m" "mach_ok m" "p_state (procs s i) = RUNNABLE"
    "p_kstack (procs s i) \<noteq> 0" "p_pgdir (procs s i) \<noteq> 0"
  shows "scheduler_pick i s = Inr (True, s\<lparr>procs := (procs s)(i := (procs s i)\<lparr>p_state := RUNNING\<rparr>),
    ts_esp0 := p_kstack (procs s i) + KSTACKSIZE, cr3 := p_pgdir (procs s i) - 0x80000000,
    mach := hold LPtable (set_cur (Some i) m)\<rparr>)"
  using assms by (simp add: scheduler_pick_def upd_cpu_set_cur set_cur_hold upd_proc_def ret_def)

lemma fun_upd_p_state:
  "(\<lambda>j. p_state (((ps)(i := (ps i)\<lparr>p_state := st\<rparr>)) j)) = (\<lambda>j. p_state (ps j))(i := st)"
  "(\<lambda>j. p_state (((ps)(i := (ps i)\<lparr>p_chan := ch, p_state := st\<rparr>)) j)) = (\<lambda>j. p_state (ps j))(i := st)"
  by auto

lemma sch_of_leave:
  assumes "cur_of m = Some i" "v_run (sch_of s) = (\<lambda>c. cpu_proc (cpus m c))"
    "v_state (sch_of t) = (v_state (sch_of s))(i := st)"
    "mach t = hold l (set_cur None m)" "st \<in> {RUNNABLE, SLEEPING, ZOMBIE}"
  shows "sch_step (sch_of s) (sch_of t)"
proof -
  have "v_run (sch_of t) = (v_run (sch_of s))(this_cpu m := None)"
    using assms(2,4) by (auto simp: sch_of_def)
  then have "sch_of t = (sch_of s)\<lparr>v_state := (v_state (sch_of s))(i := st),
      v_run := (v_run (sch_of s))(this_cpu m := None)\<rparr>"
    using assms(3) by (simp add: sch_view.equality)
  moreover have "v_run (sch_of s) (this_cpu m) = Some i" using assms(1,2) by (simp add: cur_of_def)
  ultimately show ?thesis using sch_leave [of "sch_of s" "this_cpu m" i st] assms(5) by simp
qed


lemma yield_refines:
  assumes "mach_ok m" "lk_free m LPtable" "ncli (cpus m (this_cpu m)) = 0" "mach s = m" "cur_of m = Some i"
  shows "wp (bnd yield_enter (\<lambda>_. scheduler_back)) (\<lambda>_ t. sch_step (sch_of s) (sch_of t)) s"
  by (rule wp_I, rule yield_ok, use assms in simp, use assms in simp, use assms in simp, use assms in simp,
      rule sch_of_leave [where i = i and m = m and st = RUNNABLE])
    (use assms in \<open>auto simp: sch_of_def\<close>)

lemma sleep_refines:
  assumes "mach_ok m" "lk_free m LPtable" "ncli (cpus m (this_cpu m)) = 0" "mach s = hold lk m"
    "lk_free m lk" "lk \<noteq> LPtable" "cur_of m = Some i"
  shows "wp (bnd (sleep_enter ch (Some lk)) (\<lambda>_. scheduler_back)) (\<lambda>_ t. sch_step (sch_of s) (sch_of t)) s"
  by (rule wp_I, rule sleep_ok [OF assms(4,1,5,2,6,7,3)],
      rule sch_of_leave [where i = i and m = m and st = SLEEPING])
    (use assms in \<open>auto simp: sch_of_def\<close>)

lemma pick_refines:
  assumes "mach_ok m" "mach s = hold LPtable m" "cur_of m = None" "p_state (procs s i) = RUNNABLE"
    "p_kstack (procs s i) \<noteq> 0" "p_pgdir (procs s i) \<noteq> 0"
  shows "wp (scheduler_pick i) (\<lambda>r t. r \<and> sch_step (sch_of s) (sch_of t)) s"
proof (rule wp_I, rule pick_ok [OF assms(2,1,4,5,6)], rule conjI [OF TrueI])
  let ?t = "s\<lparr>procs := (procs s)(i := (procs s i)\<lparr>p_state := RUNNING\<rparr>),
    ts_esp0 := p_kstack (procs s i) + KSTACKSIZE, cr3 := p_pgdir (procs s i) - 0x80000000,
    mach := hold LPtable (set_cur (Some i) m)\<rparr>"
  have "sch_of ?t = (sch_of s)\<lparr>v_state := (v_state (sch_of s))(i := RUNNING),
      v_run := (v_run (sch_of s))(this_cpu m := Some i)\<rparr>"
    using assms by (auto simp: sch_of_def fun_eq_iff)
  then show "sch_step (sch_of s) (sch_of ?t)"
    using sch_pick [of "sch_of s" "this_cpu m" i] assms by (simp add: sch_of_def cur_of_def)
qed

subsection \<open>The wakeup invariant\<close>

definition sw_inv :: "sw_state \<Rightarrow> bool" where
  "sw_inv v \<longleftrightarrow>
     (s_pc v \<in> {S_locked, S_tested, S_both} \<longleftrightarrow> lk_owner v = Some Sleeper) \<and>
     (w_pc v \<in> {W_locked, W_set, W_ptable, W_woken} \<longleftrightarrow> lk_owner v = Some Waker) \<and>
     (s_pc v \<in> {S_both, S_ptable} \<longleftrightarrow> pt_owner v = Some Sleeper) \<and>
     (w_pc v = W_ptable \<longleftrightarrow> pt_owner v = Some Waker) \<and>
     (sw_cond v \<longleftrightarrow> w_pc v \<in> {W_set, W_ptable, W_woken, W_done}) \<and>
     (w_pc v \<in> {W_woken, W_done} \<longrightarrow> s_pc v \<notin> {S_tested, S_both, S_ptable, S_asleep})"

lemma sw_inv_step: "sw_step v w \<Longrightarrow> sw_inv v \<Longrightarrow> sw_inv w"
  by (induction rule: sw_step.induct) (simp_all add: sw_inv_def, auto)

interpretation sw: inductive_invariant sw_init sw_step sw_inv
  by unfold_locales (auto simp: sw_init_def sw_inv_step, simp add: sw_init_def sw_inv_def)

section \<open>Properties\<close>

definition zero_tf :: trapframe where
  "zero_tf = \<lparr>tf_eax = 0, tf_eip = 0, tf_cs = 0, tf_eflags = 0, tf_esp = 0, tf_ss = 0, tf_ds = 0,
     tf_es = 0, tf_trapno = 0, tf_err = 0\<rparr>"

definition zero_pm :: p_monitor where
  "zero_pm = \<lparr>pm_used = False, pm_pgdir = 0, pm_va = 0, pm_place = 0\<rparr>"

definition zero_proc :: proc where
  "zero_proc = \<lparr>p_sz = 0, p_pgdir = 0, p_kstack = 0, p_state = UNUSED, p_pid = 0, p_parent = None,
     p_tf = zero_tf, p_eip = 0, p_chan = None, p_killed = False, p_ofile = (\<lambda>_. None), p_cwd = None,
     p_name = (\<lambda>_. 0), p_swapFile = None, p_ram = (\<lambda>_. zero_pm), p_swap = (\<lambda>_. zero_pm),
     p_pages_in_file = 0, p_last_in_queue = 0, p_protected = 0, p_pgflt = 0\<rparr>"

text \<open>A machine that runs process 0 (pid 3), every other slot of the table unused.\<close>

definition run_proc :: proc where
  "run_proc = zero_proc\<lparr>p_state := RUNNING, p_pid := 3, p_kstack := 0x80400000, p_pgdir := 0x80500000\<rparr>"

definition boot_ptab :: ptab_state where
  "boot_ptab = \<lparr>mach = boot_mach, procs = (\<lambda>_. zero_proc)(0 := run_proc), initproc = Some 1,
     nextpid = 4, ticks = 0, slocks = (\<lambda>_. \<lparr>sl_locked = False, sl_pid = 0\<rparr>), cr3 = 0x500000,
     kpgdir = 0x80300000, ts_esp0 = 0\<rparr>"

lemma calm_boot [simp]: "mach s = boot_mach \<Longrightarrow> calm s"
  by (simp add: calm_def)

lemma cur_of_boot [simp]: "cur_of boot_mach = Some 0"
  by (simp add: cur_of_def) (simp add: boot_mach_def)

lemma ncli_boot [simp]: "ncli (cpus boot_mach i) = 0"
  by (simp add: boot_mach_def)

lemma mach_boot_ptab [simp]: "mach boot_ptab = boot_mach"
  by (simp add: boot_ptab_def)







text \<open>
  C37: \<open>kill\<close> finds the first process with that pid, marks it killed, makes it RUNNABLE when it
  sleeps, changes no other process and returns 0; without such a process it changes nothing and
  returns -1.
\<close>

theorem kill_spec:
  assumes "calm s"
  shows "kill pid s = (case first_idx (\<lambda>i. p_pid (procs s i) = pid) NPROC of
      None \<Rightarrow> Inr (- 1, s)
    | Some i \<Rightarrow> Inr (0, s\<lparr>procs := (procs s)(i := (procs s i)\<lparr>p_killed := True,
        p_state := if p_state (procs s i) = SLEEPING then RUNNABLE else p_state (procs s i)\<rparr>)\<rparr>))"
  using assms by (auto simp: kill_def upd_proc_def whn_def ret_def split: option.splits)

theorem kill_spec_witness:
  "\<exists>t. kill 3 boot_ptab = Inr (0, t) \<and> p_killed (procs t 0) \<and>
     kill 9 boot_ptab = Inr (- 1, boot_ptab)"
proof -
  have "first_idx (\<lambda>i. p_pid (procs boot_ptab i) = 3) NPROC = Some 0"
    by (rule first_idx_SomeI) (simp_all add: boot_ptab_def run_proc_def)
  moreover have "first_idx (\<lambda>i. p_pid (procs boot_ptab i) = 9) NPROC = None"
    by (simp add: first_idx_None boot_ptab_def run_proc_def zero_proc_def)
  ultimately show ?thesis
    using kill_spec [of boot_ptab 3] kill_spec [of boot_ptab 9] by simp
qed

text \<open>
  \<open>kill(0)\<close> does not report an error: as long as the table has a slot that was never used,
  whose pid is 0, the call returns 0 and leaves that UNUSED slot marked killed, which
  \<open>allocproc\<close> does not clear, so the process later created there starts out killed.
\<close>

theorem kill_zero_marks_unused:
  assumes "calm s" and "\<forall>i<k. p_pid (procs s i) \<noteq> 0" and "k < NPROC"
    and "p_pid (procs s k) = 0" and "p_state (procs s k) = UNUSED"
  shows "\<exists>t. kill 0 s = Inr (0, t) \<and> p_state (procs t k) = UNUSED \<and> p_killed (procs t k)"
proof -
  have "first_idx (\<lambda>i. p_pid (procs s i) = 0) NPROC = Some k"
    using assms by (intro first_idx_SomeI) auto
  then show ?thesis using assms by (simp add: kill_def upd_proc_def ret_def whn_def)
qed

theorem kill_zero_marks_unused_witness:
  "\<exists>t. kill 0 boot_ptab = Inr (0, t) \<and> p_state (procs t 1) = UNUSED \<and> p_killed (procs t 1)"
  by (rule kill_zero_marks_unused) (simp_all add: boot_ptab_def run_proc_def zero_proc_def)

end
