(* ===== verification/Mem.thy ===== *)
theory Mem
  imports Cstring
begin

text \<open>
  Words in byte memory: the little-endian loads and stores the compiler emits for the 16 and 32
  bit fields of the kernel's structures, in kernel memory (page tables, the free list) and in
  disk blocks (superblock, inodes, directory entries, the log header), with the laws that
  relate them to each other and to \<open>memset\<close> and \<open>memmove\<close>. Page addresses and their alignment.
\<close>

unbundle bit_operations_syntax

section \<open>Definitions\<close>

definition ld16 :: "bmem \<Rightarrow> nat \<Rightarrow> u16" where
  "ld16 m a = ucast (m a) OR push_bit 8 (ucast (m (a + 1)))"

definition st16 :: "bmem \<Rightarrow> nat \<Rightarrow> u16 \<Rightarrow> bmem" where
  "st16 m a v = m(a := ucast v, a + 1 := ucast (drop_bit 8 v))"

definition ld32 :: "bmem \<Rightarrow> nat \<Rightarrow> u32" where
  "ld32 m a = ucast (m a) OR push_bit 8 (ucast (m (a + 1))) OR
     push_bit 16 (ucast (m (a + 2))) OR push_bit 24 (ucast (m (a + 3)))"

definition st32 :: "bmem \<Rightarrow> nat \<Rightarrow> u32 \<Rightarrow> bmem" where
  "st32 m a v = m(a := ucast v, a + 1 := ucast (drop_bit 8 v),
     a + 2 := ucast (drop_bit 16 v), a + 3 := ucast (drop_bit 24 v))"

section \<open>Lemmas\<close>

named_theorems mem_simps "reads after writes at disjoint places"

lemma ld16_st16 [simp]: "ld16 (st16 m a v) a = v"
  unfolding ld16_def st16_def by (rule bit_word_eqI) (auto simp: bit_simps)

lemma ld32_st32 [simp]: "ld32 (st32 m a v) a = v"
proof (rule bit_word_eqI)
  fix n assume n: "n < LENGTH(32)"
  consider "n < 8" | "8 \<le> n" "n < 16" | "16 \<le> n" "n < 24" | "24 \<le> n" "n < 32" using n by force
  then show "bit (ld32 (st32 m a v) a) n = bit v n"
    by cases (auto simp: ld32_def st32_def bit_simps)
qed

lemma ld16_cong: "m a = m' a' \<Longrightarrow> m (a + 1) = m' (a' + 1) \<Longrightarrow> ld16 m a = ld16 m' a'"
  by (simp add: ld16_def)

lemma ld32_cong: "(\<And>i. i < 4 \<Longrightarrow> m (a + i) = m' (a' + i)) \<Longrightarrow> ld32 m a = ld32 m' a'"
  unfolding ld32_def by (metis (no_types, lifting) add.right_neutral numeral_less_iff one_less_numeral_iff
      semiring_norm(76) semiring_norm(77) semiring_norm(78) semiring_norm(79) semiring_norm(81) zero_less_numeral)

lemma st16_at: "b < a \<or> a + 2 \<le> b \<Longrightarrow> st16 m a v b = m b"
  by (auto simp: st16_def)

lemma st32_at: "b < a \<or> a + 4 \<le> b \<Longrightarrow> st32 m a v b = m b"
  by (auto simp: st32_def)

lemma ld16_st16_other [mem_simps]: "b + 2 \<le> a \<or> a + 2 \<le> b \<Longrightarrow> ld16 (st16 m a v) b = ld16 m b"
  by (rule ld16_cong) (auto simp: st16_at)

lemma ld32_st32_other [mem_simps]: "b + 4 \<le> a \<or> a + 4 \<le> b \<Longrightarrow> ld32 (st32 m a v) b = ld32 m b"
  by (rule ld32_cong) (auto simp: st32_at)

lemma ld16_st32_other [mem_simps]: "b + 2 \<le> a \<or> a + 4 \<le> b \<Longrightarrow> ld16 (st32 m a v) b = ld16 m b"
  by (rule ld16_cong) (auto simp: st32_at)

lemma ld32_st16_other [mem_simps]: "b + 4 \<le> a \<or> a + 2 \<le> b \<Longrightarrow> ld32 (st16 m a v) b = ld32 m b"
  by (rule ld32_cong) (auto simp: st16_at)

lemma ld32_memset_other [mem_simps]: "b + 4 \<le> a \<or> a + n \<le> b \<Longrightarrow> ld32 (memset a c n m) b = ld32 m b"
  by (rule ld32_cong) (auto simp: memset_eq)

lemma ld32_memset_zero [mem_simps]: "a \<le> b \<Longrightarrow> b + 4 \<le> a + n \<Longrightarrow> ld32 (memset a 0 n m) b = 0"
  by (simp add: ld32_def memset_eq)

lemma ld32_memmove_other [mem_simps]:
  "b + 4 \<le> a \<or> a + n \<le> b \<Longrightarrow> ld32 (memmove a src n m) b = ld32 m b"
  by (rule ld32_cong) (auto simp: memmove_eq)

lemma st32_same [simp]: "st32 m a (ld32 m a) = m"
proof -
  have "ucast (ld32 m a) = m a"
    by (rule bit_word_eqI) (auto simp: ld32_def bit_simps)
  moreover have "ucast (drop_bit 8 (ld32 m a)) = m (a + 1)"
    by (rule bit_word_eqI) (auto simp: ld32_def bit_simps dest: bit_imp_le_length)
  moreover have "ucast (drop_bit 16 (ld32 m a)) = m (a + 2)"
    by (rule bit_word_eqI) (auto simp: ld32_def bit_simps dest: bit_imp_le_length)
  moreover have "ucast (drop_bit 24 (ld32 m a)) = m (a + 3)"
    by (rule bit_word_eqI) (auto simp: ld32_def bit_simps dest: bit_imp_le_length)
  ultimately show ?thesis by (simp add: st32_def)
qed

lemma st32_st32 [simp]: "st32 (st32 m a v) a w = st32 m a w"
  by (rule ext) (simp add: st32_def)

text \<open>Words at different aligned addresses do not overlap; neither do aligned pages.\<close>

lemma aligned_apart: "4 dvd a \<Longrightarrow> 4 dvd b \<Longrightarrow> a \<noteq> b \<Longrightarrow> a + 4 \<le> b \<or> b + 4 \<le> (a :: nat)"
  by (auto elim!: dvdE)

lemma page_apart: "4096 dvd a \<Longrightarrow> 4096 dvd b \<Longrightarrow> a \<noteq> b \<Longrightarrow> a + 4096 \<le> b \<or> b + 4096 \<le> (a :: nat)"
  by (auto elim!: dvdE)

lemma ld32_st32_aligned:
  "4 dvd a \<Longrightarrow> 4 dvd b \<Longrightarrow> ld32 (st32 m a v) b = (if a = b then v else ld32 m b)"
  using aligned_apart [of a b] by (auto simp: ld32_st32_other)

end
