(* ===== verification/Kalloc.thy ===== *)
theory Kalloc
  imports Ptable Mem
begin

text \<open>
  The physical page allocator (\<open>kalloc.c\<close>). Kernel memory is a byte memory indexed by kernel
  virtual address; the free list is threaded through it, the first word of a free page holding
  the address of the next one, as \<open>struct run\<close> does. The linker symbol \<open>end\<close> is the field
  \<open>kend\<close>, \<open>data\<close> is \<open>kdata\<close>; no operation changes them.
\<close>

unbundle bit_operations_syntax

section \<open>Definitions\<close>

abbreviation PGSIZE :: nat where "PGSIZE \<equiv> 4096"
abbreviation KERNBASE :: u32 where "KERNBASE \<equiv> 0x80000000"
abbreviation PHYSTOP :: u32 where "PHYSTOP \<equiv> 0xE000000"

definition V2P :: "u32 \<Rightarrow> u32" where "V2P a = a - KERNBASE"

definition P2V :: "u32 \<Rightarrow> u32" where "P2V a = a + KERNBASE"

definition PGROUNDUP :: "u32 \<Rightarrow> u32" where "PGROUNDUP sz = (sz + 4095) AND NOT 4095"

definition PGROUNDDOWN :: "u32 \<Rightarrow> u32" where "PGROUNDDOWN a = a AND NOT 4095"

record kmem_state = ptab_state +
  mem :: bmem
  use_lock :: bool
  freelist :: u32
  kend :: u32
  kdata :: u32

definition kmem_lock :: "('z kmem_state_scheme, unit) kop" where
  "kmem_lock = bnd (rd use_lock) (\<lambda>u. whn u (acquire LKmem))"

definition kmem_unlock :: "('z kmem_state_scheme, unit) kop" where
  "kmem_unlock = bnd (rd use_lock) (\<lambda>u. whn u (release LKmem))"

definition kfree :: "u32 \<Rightarrow> ('z kmem_state_scheme, unit) kop" where
  "kfree v =
     bnd (rd kend) (\<lambda>e.
     if unat v mod PGSIZE \<noteq> 0 \<or> v < e \<or> V2P v \<ge> PHYSTOP then panic ''kfree''
     else
       thn (upd (\<lambda>s. s\<lparr>mem := memset (unat v) 1 PGSIZE (mem s)\<rparr>)) (
       thn kmem_lock (
       thn (upd (\<lambda>s. s\<lparr>mem := st32 (mem s) (unat v) (freelist s)\<rparr>)) (
       thn (upd (\<lambda>s. s\<lparr>freelist := v\<rparr>))
       kmem_unlock))))"

definition kalloc :: "('z kmem_state_scheme, u32) kop" where
  "kalloc =
     thn kmem_lock (
     bnd (rd freelist) (\<lambda>r.
     thn (whn (r \<noteq> 0) (upd (\<lambda>s. s\<lparr>freelist := ld32 (mem s) (unat r)\<rparr>))) (
     thn kmem_unlock
     (ret r))))"

text \<open>
  The loop of \<open>freerange\<close>. Every round frees a page or panics, so the number of pages of the
  32-bit address space bounds the rounds.
\<close>

primrec freerange_loop :: "nat \<Rightarrow> u32 \<Rightarrow> u32 \<Rightarrow> ('z kmem_state_scheme, unit) kop" where
  "freerange_loop 0 p vend = kerror NoFuel"
| "freerange_loop (Suc n) p vend =
     (if p + 4096 \<le> vend then thn (kfree p) (freerange_loop n (p + 4096) vend) else ret ())"

definition freerange :: "u32 \<Rightarrow> u32 \<Rightarrow> ('z kmem_state_scheme, unit) kop" where
  "freerange vstart vend = freerange_loop 0x100001 (PGROUNDUP vstart) vend"

definition kinit1 :: "u32 \<Rightarrow> u32 \<Rightarrow> ('z kmem_state_scheme, unit) kop" where
  "kinit1 vstart vend =
     thn (initlock LKmem) (
     thn (upd (\<lambda>s. s\<lparr>use_lock := False\<rparr>))
     (freerange vstart vend))"

definition kinit2 :: "u32 \<Rightarrow> u32 \<Rightarrow> ('z kmem_state_scheme, unit) kop" where
  "kinit2 vstart vend =
     thn (freerange vstart vend)
     (upd (\<lambda>s. s\<lparr>use_lock := True\<rparr>))"

text \<open>The count of \<open>free_pages_in_system\<close>: a cyclic list would never end (\<open>None\<close>).\<close>

partial_function (option) count_runs :: "bmem \<Rightarrow> u32 \<Rightarrow> nat \<Rightarrow> nat option" where
  "count_runs m r n = (if r = 0 then Some n else count_runs m (ld32 m (unat r)) (Suc n))"

definition free_pages_in_system :: "('z kmem_state_scheme, nat) kop" where
  "free_pages_in_system =
     thn kmem_lock (
     bnd (rd (\<lambda>s. count_runs (mem s) (freelist s) 0)) (\<lambda>c.
     case c of None \<Rightarrow> kerror NoFuel
     | Some n \<Rightarrow> thn kmem_unlock (ret n)))"

section \<open>Lemmas\<close>

subsection \<open>Page addresses\<close>

text \<open>A page of the range the allocator manages.\<close>

definition frame :: "u32 \<Rightarrow> u32 \<Rightarrow> bool" where
  "frame e v \<longleftrightarrow> 4096 dvd unat v \<and> e \<le> v \<and> V2P v < PHYSTOP"

lemma unat_inj: "unat a = unat b \<longleftrightarrow> a = b"
  by (auto intro: unsigned_word_eqI)

lemma frame_dvd: "frame e v \<Longrightarrow> 4096 dvd unat v"
  by (simp add: frame_def)

lemma frame_range:
  assumes "frame e v" "KERNBASE < e"
  shows "0x80000000 < unat v" "unat v + 4096 \<le> 0x8E000000"
proof -
  have 1: "0x80000000 < v" using assms less_le_trans [of KERNBASE e v] by (simp add: frame_def)
  then show 2: "0x80000000 < unat v" by (simp add: word_less_nat_alt)
  have "unat (v - 0x80000000) = unat v - 0x80000000" using 1 by (simp add: unat_sub word_less_def word_le_nat_alt 2 less_imp_le)
  then have "unat v < 0x8E000000" using assms 2 by (auto simp: frame_def V2P_def word_less_nat_alt)
  moreover have "4096 dvd unat v" using assms by (simp add: frame_def)
  ultimately show "unat v + 4096 \<le> 0x8E000000" by (auto elim!: dvdE)
qed

lemma frame_nonzero [simp]: "frame e v \<Longrightarrow> KERNBASE < e \<Longrightarrow> v \<noteq> 0"
  using frame_range(1) by fastforce

lemma frame_apart:
  "frame e v \<Longrightarrow> frame e' w \<Longrightarrow> v \<noteq> w \<Longrightarrow> unat v + 4096 \<le> unat w \<or> unat w + 4096 \<le> unat v"
  by (rule page_apart) (auto simp: frame_def unat_inj)

subsection \<open>The free list in memory\<close>

primrec flist :: "bmem \<Rightarrow> u32 \<Rightarrow> u32 list \<Rightarrow> bool" where
  "flist m p [] \<longleftrightarrow> p = 0"
| "flist m p (x # xs) \<longleftrightarrow> p = x \<and> x \<noteq> 0 \<and> flist m (ld32 m (unat x)) xs"

lemma flist_cong:
  "(\<And>x. x \<in> set xs \<Longrightarrow> ld32 m (unat x) = ld32 m' (unat x)) \<Longrightarrow> flist m p xs = flist m' p xs"
  by (induction xs arbitrary: p) auto

text \<open>\<open>flist\<close> determines its list, and the traversal with enough fuel finds it.\<close>

primrec run_list :: "nat \<Rightarrow> bmem \<Rightarrow> u32 \<Rightarrow> u32 list" where
  "run_list 0 m p = []"
| "run_list (Suc n) m p = (if p = 0 then [] else p # run_list n m (ld32 m (unat p)))"

lemma run_list_flist: "flist m p xs \<Longrightarrow> length xs \<le> n \<Longrightarrow> run_list n m p = xs"
proof (induction xs arbitrary: p n)
  case Nil
  then show ?case by (cases n) auto
next
  case (Cons x xs)
  then show ?case by (cases n) auto
qed

lemma count_runs_flist: "flist m p xs \<Longrightarrow> count_runs m p n = Some (n + length xs)"
proof (induction xs arbitrary: p n)
  case Nil
  then show ?case by (simp add: count_runs.simps)
next
  case (Cons x xs)
  then show ?case by (subst count_runs.simps) auto
qed

definition free_pages :: "'z kmem_state_scheme \<Rightarrow> u32 list" where
  "free_pages s = run_list 0x100000 (mem s) (freelist s)"

definition kmem_ok :: "'z kmem_state_scheme \<Rightarrow> bool" where
  "kmem_ok s \<longleftrightarrow> flist (mem s) (freelist s) (free_pages s) \<and> distinct (free_pages s) \<and>
     (\<forall>x\<in>set (free_pages s). frame (kend s) x) \<and> KERNBASE < kend s"

lemma frames_bound:
  assumes "distinct (xs :: u32 list)" "\<forall>x\<in>set xs. 4096 dvd unat x"
  shows "length xs \<le> 0x100000"
proof -
  have "inj_on (\<lambda>x :: u32. unat x div 4096) (set xs)"
    using assms(2) by (auto simp: inj_on_def simp flip: unat_inj) (metis dvd_div_mult_self)
  then have "card (set xs) = card ((\<lambda>x. unat x div 4096) ` set xs)" by (simp add: card_image)
  also have "\<dots> \<le> card {..<0x100000 :: nat}"
  proof (rule card_mono, simp, rule image_subsetI)
    fix x :: u32
    have "unat x < 2 ^ 32" using unsigned_less [of x] by simp
    then show "unat x div 4096 \<in> {..<0x100000}" by simp
  qed
  finally show ?thesis using distinct_card [OF assms(1)] by simp
qed

lemma kmem_okI:
  assumes "flist (mem s) (freelist s) xs" "distinct xs" "\<forall>x\<in>set xs. frame (kend s) x" "KERNBASE < kend s"
  shows "free_pages s = xs" and "kmem_ok s"
proof -
  show eq: "free_pages s = xs" unfolding free_pages_def
    by (rule run_list_flist [OF assms(1)], rule frames_bound [OF assms(2)])
      (use assms(3) in \<open>auto simp: frame_def\<close>)
  show "kmem_ok s" using assms by (simp add: kmem_ok_def eq)
qed

lemma kmem_okD:
  assumes "kmem_ok s"
  shows "flist (mem s) (freelist s) (free_pages s)" "distinct (free_pages s)"
    "\<And>x. x \<in> set (free_pages s) \<Longrightarrow> frame (kend s) x" "KERNBASE < kend s"
  using assms by (auto simp: kmem_ok_def)

text \<open>Only the first words of the free pages matter to the list.\<close>

lemma kmem_ok_cong:
  assumes "kmem_ok s" "freelist t = freelist s" "kend t = kend s"
    "\<And>x. x \<in> set (free_pages s) \<Longrightarrow> ld32 (mem t) (unat x) = ld32 (mem s) (unat x)"
  shows "free_pages t = free_pages s" "kmem_ok t"
proof -
  have "flist (mem t) (freelist t) (free_pages s)"
    using kmem_okD(1) [OF assms(1)] flist_cong [of "free_pages s" "mem t" "mem s"] assms by simp
  then show "free_pages t = free_pages s" "kmem_ok t"
    using kmem_okI [of t "free_pages s"] kmem_okD [OF assms(1)] assms by auto
qed

subsection \<open>The operations\<close>

lemma kmem_lock_off [simp]: "\<not> use_lock s \<Longrightarrow> kmem_lock s = Inr ((), s)"
  "\<not> use_lock s \<Longrightarrow> kmem_unlock s = Inr ((), s)"
  by (simp_all add: kmem_lock_def kmem_unlock_def whn_def ret_def)

lemma kmem_lock_on [simp]:
  "use_lock s \<Longrightarrow> mach_ok (mach s) \<Longrightarrow> lk_free (mach s) LKmem \<Longrightarrow>
     kmem_lock s = Inr ((), s\<lparr>mach := hold LKmem (mach s)\<rparr>)"
  by (simp add: kmem_lock_def whn_def)

lemma kmem_unlock_on [simp]:
  "use_lock s \<Longrightarrow> mach s = hold LKmem m \<Longrightarrow> mach_ok m \<Longrightarrow> lk_free m LKmem \<Longrightarrow>
     kmem_unlock s = Inr ((), s\<lparr>mach := m\<rparr>)"
  by (simp add: kmem_unlock_def whn_def)

definition push_page :: "u32 \<Rightarrow> 'z kmem_state_scheme \<Rightarrow> 'z kmem_state_scheme" where
  "push_page v s = s\<lparr>mem := st32 (memset (unat v) 1 PGSIZE (mem s)) (unat v) (freelist s), freelist := v\<rparr>"

lemma kfree_ok:
  assumes "mach_ok (mach s)" "lk_free (mach s) LKmem" "frame (kend s) v"
  shows "kfree v s = Inr ((), push_page v s)"
proof -
  have "unat v mod PGSIZE = 0" "\<not> v < kend s" "\<not> V2P v \<ge> PHYSTOP"
    using assms(3) by (auto simp: frame_def)
  then show ?thesis using assms(1,2)
    by (cases "use_lock s") (simp_all add: kfree_def push_page_def upd_def)
qed

lemma kfree_bad: "\<not> frame (kend s) v \<Longrightarrow> kfree v s = Inl (Panic ''kfree'')"
  by (auto simp: kfree_def frame_def kerror_def not_less not_le)

lemma kalloc_none:
  "mach_ok (mach s) \<Longrightarrow> lk_free (mach s) LKmem \<Longrightarrow> freelist s = 0 \<Longrightarrow> kalloc s = Inr (0, s)"
  by (cases "use_lock s") (simp_all add: kalloc_def whn_def ret_def)

lemma kalloc_some:
  "mach_ok (mach s) \<Longrightarrow> lk_free (mach s) LKmem \<Longrightarrow> freelist s = r \<Longrightarrow> r \<noteq> 0 \<Longrightarrow>
   kalloc s = Inr (r, s\<lparr>freelist := ld32 (mem s) (unat r)\<rparr>)"
  by (cases "use_lock s") (simp_all add: kalloc_def whn_def ret_def)

lemma push_page_ok:
  assumes "kmem_ok s" "frame (kend s) v" "v \<notin> set (free_pages s)"
  shows "free_pages (push_page v s) = v # free_pages s" "kmem_ok (push_page v s)"
proof -
  have "ld32 (mem (push_page v s)) (unat x) = ld32 (mem s) (unat x)" if "x \<in> set (free_pages s)" for x
  proof -
    have "v \<noteq> x" using that assms(3) by auto
    from frame_apart [OF assms(2) kmem_okD(3) [OF assms(1) that] this]
    show ?thesis by (elim disjE) (simp_all add: push_page_def mem_simps)
  qed
  then have "flist (mem (push_page v s)) (freelist s) (free_pages s)"
    using kmem_okD(1) [OF assms(1)] flist_cong [of "free_pages s" "mem (push_page v s)" "mem s"] by simp
  then have "flist (mem (push_page v s)) (freelist (push_page v s)) (v # free_pages s)"
    using assms kmem_okD(4) [OF assms(1)] by (simp add: push_page_def)
  from kmem_okI [OF this] show "free_pages (push_page v s) = v # free_pages s" "kmem_ok (push_page v s)"
    using kmem_okD [OF assms(1)] assms by (auto simp: push_page_def)
qed

lemma pop_page_ok:
  assumes "kmem_ok s" "free_pages s = x # xs"
  shows "freelist s = x" "x \<noteq> 0" "free_pages (s\<lparr>freelist := ld32 (mem s) (unat x)\<rparr>) = xs"
    "kmem_ok (s\<lparr>freelist := ld32 (mem s) (unat x)\<rparr>)"
proof -
  note ok = kmem_okD [OF assms(1), unfolded assms(2)]
  show "freelist s = x" "x \<noteq> 0" using ok(1) by auto
  have "flist (mem s) (ld32 (mem s) (unat x)) xs" using ok(1) by auto
  from kmem_okI [of "s\<lparr>freelist := ld32 (mem s) (unat x)\<rparr>" xs] this ok
  show "free_pages (s\<lparr>freelist := ld32 (mem s) (unat x)\<rparr>) = xs"
    "kmem_ok (s\<lparr>freelist := ld32 (mem s) (unat x)\<rparr>)" by auto
qed


subsection \<open>Rounding\<close>

lemma unat_and_not_4095: "unat (a AND NOT 4095 :: u32) = unat a div 4096 * 4096"
proof -
  have "a AND NOT 4095 = push_bit 12 (drop_bit 12 a)"
  proof -
    have m: "(4095 :: u32) = mask 12" by (simp add: mask_eq_exp_minus_1)
    show ?thesis unfolding m by (rule bit_word_eqI) (auto simp: bit_simps)
  qed
  moreover have "unat a div 4096 * 4096 < 2 ^ 32"
    using unsigned_less [of a, where 'a = nat] by (simp add: order.strict_trans1 [OF div_times_less_eq_dividend])
  ultimately show ?thesis
    by (simp add: drop_bit_eq_div push_bit_eq_mult unat_word_ariths(2) unat_div)
qed

lemma unat_PGROUNDDOWN: "unat (PGROUNDDOWN a) = unat a div 4096 * 4096"
  by (simp only: PGROUNDDOWN_def unat_and_not_4095)

lemma unat_PGROUNDUP:
  assumes "unat a + 4095 < 2 ^ 32"
  shows "unat (PGROUNDUP a) = (unat a + 4095) div 4096 * 4096"
proof -
  have "unat (a + 4095) = unat a + 4095" using assms by (simp add: unat_plus_if')
  then show ?thesis by (simp only: PGROUNDUP_def unat_and_not_4095)
qed

subsection \<open>Freeing a range\<close>

lemma push_page_sel [simp]: "mach (push_page v s) = mach s" "kend (push_page v s) = kend s"
  "use_lock (push_page v s) = use_lock s" "procs (push_page v s) = procs s"
  by (simp_all add: push_page_def)

lemma of_nat_u32_eq_0: "(of_nat k :: u32) = 0 \<Longrightarrow> k = 0 \<or> 2 ^ 32 \<le> k"
  by (auto simp: word_of_nat_eq_0_iff dest: dvd_imp_le)

lemma freerange_loop_ok:
  assumes "kmem_ok s" "mach_ok (mach s)" "lk_free (mach s) LKmem" "n < f"
    and "n \<noteq> 0 \<Longrightarrow> unat p + 4096 * n \<le> unat vend" "unat vend < unat p + 4096 * Suc n"
      "unat vend < 0xF0000000" "unat p < 0xF0000000"
    and "\<And>i. i < n \<Longrightarrow> frame (kend s) (p + of_nat (4096 * i))"
    and "\<And>i. i < n \<Longrightarrow> p + of_nat (4096 * i) \<notin> set (free_pages s)"
  shows "\<exists>t. freerange_loop f p vend s = Inr ((), t) \<and> kmem_ok t \<and> mach t = mach s \<and> kend t = kend s \<and>
    set (free_pages t) = (\<lambda>i. p + of_nat (4096 * i)) ` {..<n} \<union> set (free_pages s)"
  using assms
proof (induction n arbitrary: f p s)
  case 0
  then obtain f' where f: "f = Suc f'" by (cases f) auto
  have "unat (p + 4096) = unat p + 4096" using 0 by (simp add: unat_plus_if')
  then have "\<not> p + 4096 \<le> vend" using 0 by (simp add: word_le_nat_alt)
  then show ?case using 0 by (simp add: f ret_def)
next
  case (Suc n)
  then obtain f' where f: "f = Suc f'" by (cases f) auto
  have np: "unat (p + 4096) = unat p + 4096" using Suc.prems by (simp add: unat_plus_if')
  then have le: "p + 4096 \<le> vend" using Suc.prems by (simp add: word_le_nat_alt)
  have fr: "frame (kend s) p" "p \<notin> set (free_pages s)"
    using Suc.prems(9) [of 0] Suc.prems(10) [of 0] by simp_all
  have shift: "p + 4096 + of_nat (4096 * i) = p + of_nat (4096 * Suc i)" for i by simp
  have nz: "p + 4096 + of_nat (4096 * i) \<noteq> p" if "i < n" for i
  proof
    assume "p + 4096 + of_nat (4096 * i) = p"
    then have "p + of_nat (4096 * Suc i) = p" by simp
    then have "(of_nat (4096 * Suc i) :: u32) = 0" by (simp del: of_nat_Suc of_nat_mult)
    from of_nat_u32_eq_0 [OF this] show False using Suc.prems(5,7) that by simp
  qed
  note pp = push_page_ok [OF Suc.prems(1) fr]
  have "\<exists>t. freerange_loop f' (p + 4096) vend (push_page p s) = Inr ((), t) \<and> kmem_ok t \<and>
      mach t = mach (push_page p s) \<and> kend t = kend (push_page p s) \<and>
      set (free_pages t) = (\<lambda>i. p + 4096 + of_nat (4096 * i)) ` {..<n} \<union> set (free_pages (push_page p s))"
  proof (rule Suc.IH [OF pp(2)])
    fix i assume "i < n"
    then show "frame (kend (push_page p s)) (p + 4096 + of_nat (4096 * i))"
      "p + 4096 + of_nat (4096 * i) \<notin> set (free_pages (push_page p s))"
      using Suc.prems(9) [of "Suc i"] Suc.prems(10) [of "Suc i"] nz [of i] by (simp_all add: add.assoc pp(1))
  qed (use Suc.prems f np in auto)
  moreover have "(\<lambda>i. p + of_nat (4096 * i)) ` {..<Suc n} = insert p ((\<lambda>i. p + 4096 + of_nat (4096 * i)) ` {..<n})"
    unfolding lessThan_Suc_eq_insert_0 by (simp add: image_image add.assoc)
  ultimately show ?case
    using Suc.prems le fr by (simp add: f kfree_ok pp(1))
qed


lemma page_at:
  fixes p :: u32
  assumes "unat p + 4096 * i < 2 ^ 32"
  shows "unat (p + of_nat (4096 * i)) = unat p + 4096 * i"
proof -
  have "unat (of_nat (4096 * i) :: u32) = 4096 * i"
    using assms by (simp only: unat_of_nat) simp
  then show ?thesis using assms by (simp add: unat_plus_if')
qed

lemma freerange_ok:
  assumes "kmem_ok s" "mach_ok (mach s)" "lk_free (mach s) LKmem" "freelist s = 0"
    and "kend s \<le> vstart" "vstart \<le> vend" "vend \<le> 0x8E000000"
  shows "\<exists>t. freerange vstart vend s = Inr ((), t) \<and> kmem_ok t \<and> mach t = mach s \<and>
    set (free_pages t) = {v. 4096 dvd unat v \<and> vstart \<le> v \<and> unat v + 4096 \<le> unat vend}"
proof -
  define p where "p = PGROUNDUP vstart"
  define n where "n = (unat vend - unat p) div 4096"
  have b: "unat vstart \<le> unat vend" "unat vend \<le> 0x8E000000" "unat (kend s) \<le> unat vstart"
    "0x80000000 < unat (kend s)"
    using assms(5-7) kmem_okD(4) [OF assms(1)] by (simp_all add: word_le_nat_alt word_less_nat_alt)
  have up: "unat p = (unat vstart + 4095) div 4096 * 4096"
    unfolding p_def by (rule unat_PGROUNDUP) (use b in simp)
  have up_le: "unat vstart \<le> unat p" "unat p < unat vstart + 4096" "4096 dvd unat p" unfolding up by auto
  have at: "unat (p + of_nat (4096 * i)) = unat p + 4096 * i" if "i < n" for i
    using that b by (intro page_at) (auto simp: n_def)
  have empty: "free_pages s = []" using kmem_okD(1) [OF assms(1)] assms(4) by (cases "free_pages s") auto
  have fr: "frame (kend s) (p + of_nat (4096 * i))" if "i < n" for i
  proof -
    have "unat p + 4096 * i + 4096 \<le> unat vend" using that by (auto simp: n_def)
    moreover have "unat (p + of_nat (4096 * i) - KERNBASE) = unat p + 4096 * i - 0x80000000"
      using at [OF that] b up_le by (simp add: unat_sub word_le_nat_alt)
    ultimately show ?thesis using at [OF that] b up_le
      by (simp add: frame_def word_le_nat_alt word_less_nat_alt V2P_def)
  qed
  have "\<exists>t. freerange_loop 0x100001 p vend s = Inr ((), t) \<and> kmem_ok t \<and> mach t = mach s \<and> kend t = kend s \<and>
    set (free_pages t) = (\<lambda>i. p + of_nat (4096 * i)) ` {..<n} \<union> set (free_pages s)"
    by (rule freerange_loop_ok [OF assms(1-3)]) (use b up_le fr empty in \<open>auto simp: n_def\<close>)
  moreover have "(\<lambda>i. p + of_nat (4096 * i)) ` {..<n} =
      {v. 4096 dvd unat v \<and> vstart \<le> v \<and> unat v + 4096 \<le> unat vend}" (is "_ = ?R")
  proof (rule antisym, rule image_subsetI)
    fix i assume "i \<in> {..<n}"
    then show "p + of_nat (4096 * i) \<in> ?R"
      using at [of i] up_le by (auto simp: n_def word_le_nat_alt)
  next
    show "?R \<subseteq> (\<lambda>i. p + of_nat (4096 * i)) ` {..<n}"
    proof
      fix v assume v: "v \<in> ?R"
      then have "unat vstart \<le> unat v" by (simp add: word_le_nat_alt)
      then have "unat p \<le> unat v" using v up by (auto elim!: dvdE)
      moreover from this v up_le(3) have "4096 dvd unat v - unat p" by (auto intro: dvd_diff_nat)
      ultimately obtain i where i: "unat v = unat p + 4096 * i" by (metis dvdE le_add_diff_inverse)
      with v have "i < n" by (auto simp: n_def)
      moreover have "v = p + of_nat (4096 * i)" using at [OF \<open>i < n\<close>] i by (simp flip: unat_inj)
      ultimately show "v \<in> (\<lambda>i. p + of_nat (4096 * i)) ` {..<n}" by blast
    qed
  qed
  ultimately show ?thesis using empty by (auto simp: freerange_def p_def)
qed


section \<open>The page pool interface\<close>

text \<open>
  What the clients of the allocator (page tables, kernel stacks, pipes, user memory) rely on:
  an invariant, the pages available, and what taking and giving back a page does to them.
\<close>

locale page_pool =
  fixes inv :: "'s \<Rightarrow> bool"
    and avail :: "'s \<Rightarrow> u32 list"
    and valid :: "'s \<Rightarrow> u32 \<Rightarrow> bool"
    and take_page :: "('s, u32) kop"
    and give_page :: "u32 \<Rightarrow> ('s, unit) kop"
  assumes avail_ok: "inv s \<Longrightarrow> distinct (avail s) \<and> (\<forall>x\<in>set (avail s). valid s x \<and> x \<noteq> 0)"
    and take_empty: "inv s \<Longrightarrow> avail s = [] \<Longrightarrow> take_page s = Inr (0, s)"
    and take_cons: "inv s \<Longrightarrow> avail s = x # xs \<Longrightarrow>
      \<exists>t. take_page s = Inr (x, t) \<and> inv t \<and> avail t = xs \<and> valid t = valid s"
    and give_ok: "inv s \<Longrightarrow> valid s x \<Longrightarrow> x \<notin> set (avail s) \<Longrightarrow>
      \<exists>t. give_page x s = Inr ((), t) \<and> inv t \<and> avail t = x # avail s \<and> valid t = valid s"
    and give_bad: "inv s \<Longrightarrow> \<not> valid s x \<Longrightarrow> \<exists>e. give_page x s = Inl e"
begin

primrec take_many :: "nat \<Rightarrow> ('s, u32 list) kop" where
  "take_many 0 = ret []"
| "take_many (Suc n) = bnd take_page (\<lambda>p. bnd (take_many n) (\<lambda>ps. ret (p # ps)))"

lemma take_many_ok:
  "inv s \<Longrightarrow> n \<le> length (avail s) \<Longrightarrow>
   \<exists>t. take_many n s = Inr (take n (avail s), t) \<and> inv t \<and> avail t = drop n (avail s)"
proof (induction n arbitrary: s)
  case 0
  then show ?case by (auto simp: ret_def)
next
  case (Suc n)
  then obtain x xs where x: "avail s = x # xs" by (cases "avail s") auto
  from take_cons [OF Suc.prems(1) x] obtain t where t: "take_page s = Inr (x, t)" "inv t" "avail t = xs" by auto
  with Suc.IH [OF t(2)] Suc.prems(2) x obtain u where
    "take_many n t = Inr (take n xs, u)" "inv u" "avail u = drop n xs" by auto
  then show ?case using t x by (auto simp: ret_def)
qed

text \<open>Pages handed out one after the other are different and none is still in the pool.\<close>

lemma take_many_fresh:
  assumes "inv s" "n \<le> length (avail s)"
  shows "\<exists>ps t. take_many n s = Inr (ps, t) \<and> length ps = n \<and> distinct ps \<and> 0 \<notin> set ps \<and>
    set ps \<inter> set (avail t) = {} \<and> set ps \<union> set (avail t) = set (avail s)"
proof -
  from take_many_ok [OF assms] obtain t where t: "take_many n s = Inr (take n (avail s), t)"
    "avail t = drop n (avail s)" by auto
  have "set (take n (avail s)) \<inter> set (drop n (avail s)) = {}"
    using avail_ok [OF assms(1)] by (meson distinct_append append_take_drop_id set_take_disj_set_drop_if_distinct order_refl)
  moreover have "set (take n (avail s)) \<union> set (drop n (avail s)) = set (avail s)"
    by (metis append_take_drop_id set_append)
  moreover have "0 \<notin> set (take n (avail s))" using avail_ok [OF assms(1)] by (auto dest: in_set_takeD)
  ultimately show ?thesis using t assms(2) avail_ok [OF assms(1)] by auto
qed

lemma give_then_take:
  "inv s \<Longrightarrow> valid s x \<Longrightarrow> x \<notin> set (avail s) \<Longrightarrow>
   \<exists>t. thn (give_page x) take_page s = Inr (x, t) \<and> inv t \<and> avail t = avail s"
  using give_ok take_cons by fastforce

end

definition pool_ok :: "'z kmem_state_scheme \<Rightarrow> bool" where
  "pool_ok s \<longleftrightarrow> kmem_ok s \<and> mach_ok (mach s) \<and> lk_free (mach s) LKmem"

lemma pool_take: "pool_ok s \<Longrightarrow> free_pages s = x # xs \<Longrightarrow>
  kalloc s = Inr (x, s\<lparr>freelist := ld32 (mem s) (unat x)\<rparr>)"
  using pop_page_ok(1,2) [of s x xs] by (intro kalloc_some) (auto simp: pool_ok_def)

interpretation pool: page_pool pool_ok free_pages "\<lambda>s. frame (kend s)" kalloc kfree
proof (unfold_locales)
  fix s :: "'z kmem_state_scheme" and x :: u32 and xs
  show "pool_ok s \<Longrightarrow> distinct (free_pages s) \<and> (\<forall>x\<in>set (free_pages s). frame (kend s) x \<and> x \<noteq> 0)"
    by (auto simp: pool_ok_def dest: kmem_okD frame_nonzero [OF kmem_okD(3) kmem_okD(4)])
  show "pool_ok s \<Longrightarrow> free_pages s = [] \<Longrightarrow> kalloc s = Inr (0, s)"
    using kmem_okD(1) [of s] by (auto simp: pool_ok_def intro: kalloc_none)
  show "pool_ok s \<Longrightarrow> free_pages s = x # xs \<Longrightarrow>
    \<exists>t. kalloc s = Inr (x, t) \<and> pool_ok t \<and> free_pages t = xs \<and> frame (kend t) = frame (kend s)"
    using pool_take [of s x xs] pop_page_ok [of s x xs] by (simp add: pool_ok_def)
  show "pool_ok s \<Longrightarrow> frame (kend s) x \<Longrightarrow> x \<notin> set (free_pages s) \<Longrightarrow>
    \<exists>t. kfree x s = Inr ((), t) \<and> pool_ok t \<and> free_pages t = x # free_pages s \<and> frame (kend t) = frame (kend s)"
    using kfree_ok [of s x] push_page_ok [of s x] by (simp add: pool_ok_def)
  show "pool_ok s \<Longrightarrow> \<not> frame (kend s) x \<Longrightarrow> \<exists>e. kfree x s = Inl e"
    using kfree_bad by blast
qed

section \<open>Properties\<close>

text \<open>A machine just before \<open>kinit1\<close>: nothing on the free list, the kernel ending at 0x80120000.\<close>

definition boot_kmem :: kmem_state where
  "boot_kmem = ptab_state.extend boot_ptab
     \<lparr>mem = (\<lambda>_. 0), use_lock = False, freelist = 0, kend = 0x80120000, kdata = 0x80108000\<rparr>"

lemma boot_kmem_sel [simp]: "mach boot_kmem = boot_mach" "freelist boot_kmem = 0"
  "kend boot_kmem = 0x80120000" "mem boot_kmem = (\<lambda>_. 0)"
  by (simp_all add: boot_kmem_def ptab_state.defs boot_ptab_def)

lemma boot_kmem_ok [simp]: "kmem_ok boot_kmem" "free_pages boot_kmem = []"
  using kmem_okI [of boot_kmem "[]"] by simp_all

text \<open>The same machine with two pages freed.\<close>

definition two_pages :: kmem_state where
  "two_pages = push_page 0x80122000 (push_page 0x80121000 boot_kmem)"

lemma two_pages_ok [simp]: "pool_ok two_pages" "free_pages two_pages = [0x80122000, 0x80121000]"
proof -
  have f: "frame 0x80120000 0x80121000" "frame 0x80120000 0x80122000" by (simp_all add: frame_def V2P_def)
  have 1: "free_pages (push_page 0x80121000 boot_kmem) = [0x80121000]" "kmem_ok (push_page 0x80121000 boot_kmem)"
    using push_page_ok [of boot_kmem "0x80121000"] f by simp_all
  show "free_pages two_pages = [0x80122000, 0x80121000]" "pool_ok two_pages"
    using push_page_ok [OF 1(2), of "0x80122000"] f 1(1) by (simp_all add: pool_ok_def two_pages_def)
qed

lemma two_pages_kend [simp]: "kend two_pages = 0x80120000"
  by (simp add: two_pages_def)

text \<open>
  C33: the allocator never hands a page out twice. From a state whose free list is well formed,
  \<open>n\<close> calls of \<open>kalloc\<close> (as many as there are free pages) return \<open>n\<close> different non-null pages, all
  taken from the list and none still on it.
\<close>

theorem kalloc_distinct_pages:
  assumes "pool_ok s" and "n \<le> length (free_pages s)"
  shows "\<exists>ps t. pool.take_many n s = Inr (ps, t) \<and> length ps = n \<and> distinct ps \<and> 0 \<notin> set ps \<and>
    set ps \<inter> set (free_pages t) = {} \<and> set ps \<union> set (free_pages t) = set (free_pages s)"
  using pool.take_many_fresh [OF assms] .

theorem kalloc_distinct_pages_witness:
  "\<exists>ps t. pool.take_many 2 two_pages = Inr (ps, t) \<and> length ps = 2 \<and> distinct ps \<and> 0 \<notin> set ps \<and>
    set ps \<inter> set (free_pages t) = {} \<and> set ps \<union> set (free_pages t) = {0x80122000, 0x80121000}"
  using kalloc_distinct_pages [of two_pages 2] by simp



text \<open>
  C35: after \<open>kinit1(vstart, vend)\<close> on a range of managed memory the free list holds exactly the
  pages that lie completely in the range.
\<close>

theorem kinit1_pages:
  assumes "mach_ok (mach s)" "lk_free (mach s) LKmem" "freelist s = 0" "KERNBASE < kend s"
    and "kend s \<le> vstart" "vstart \<le> vend" "vend \<le> 0x8E000000"
  shows "wp (kinit1 vstart vend) (\<lambda>_ t. kmem_ok t \<and>
    set (free_pages t) = {v. 4096 dvd unat v \<and> vstart \<le> v \<and> unat v + 4096 \<le> unat vend}) s"
proof -
  let ?m = "(mach s)\<lparr>locks := (locks (mach s))(LKmem := \<lparr>locked = False, lk_cpu = None\<rparr>)\<rparr>"
  let ?s = "s\<lparr>mach := ?m, use_lock := False\<rparr>"
  have "mach_ok ?m" using assms(1) by (simp add: mach_ok_def this_cpu_def)
  moreover have "lk_free ?m LKmem" by (simp add: lk_free_def)
  moreover have "kmem_ok ?s" using assms by (intro kmem_okI(2) [of ?s "[]"]) simp_all
  ultimately have "\<exists>t. freerange vstart vend ?s = Inr ((), t) \<and> kmem_ok t \<and> mach t = mach ?s \<and>
    set (free_pages t) = {v. 4096 dvd unat v \<and> vstart \<le> v \<and> unat v + 4096 \<le> unat vend}"
    using assms by (intro freerange_ok) simp_all
  then show ?thesis using assms(1) by (auto simp: kinit1_def wp_simps initlock_def intro: wp_I)
qed

theorem kinit1_pages_witness:
  "wp (kinit1 0x80120000 0x80400000) (\<lambda>_ t. kmem_ok t \<and>
    set (free_pages t) = {v. 4096 dvd unat v \<and> 0x80120000 \<le> v \<and> unat v + 4096 \<le> 0x80400000}) boot_kmem"
  using kinit1_pages [of boot_kmem "0x80120000" "0x80400000"] by simp

end
