(* ===== verification/Vm.thy ===== *)
theory Vm
  imports Kalloc
begin

text \<open>
  Page tables (\<open>vm.c\<close>): two-level tables in kernel memory, walked and filled by \<open>walkpgdir\<close> and
  \<open>mappages\<close>; the kernel part \<open>setupkvm\<close>; the user part (\<open>inituvm\<close>, \<open>deallocuvm\<close>, \<open>freevm\<close>,
  \<open>copyuvm\<close>, \<open>clearpteu\<close>, \<open>uva2ka\<close>, \<open>copyout\<close>); the page flags of the paging extension
  (\<open>page_in\<close>, \<open>page_out\<close>, \<open>turn_flag\<close>, \<open>is_flag_on\<close>), the table of resident pages and the choice of
  the page to evict. What writes to the swap file is in the theory of paging.
\<close>

unbundle bit_operations_syntax

section \<open>Definitions\<close>

abbreviation "PTE_P \<equiv> (0x001 :: u32)"
abbreviation "PTE_W \<equiv> (0x002 :: u32)"
abbreviation "PTE_U \<equiv> (0x004 :: u32)"
abbreviation "PTE_A \<equiv> (0x020 :: u32)"
abbreviation "PTE_PG \<equiv> (0x200 :: u32)"
abbreviation "PTE_1 \<equiv> (0x400 :: u32)"
abbreviation "EXTMEM \<equiv> (0x100000 :: u32)"
abbreviation "KERNLINK \<equiv> (0x80100000 :: u32)"
abbreviation "DEVSPACE \<equiv> (0xFE000000 :: u32)"

definition PDX :: "u32 \<Rightarrow> u32" where "PDX va = drop_bit 22 va AND 0x3FF"

definition PTX :: "u32 \<Rightarrow> u32" where "PTX va = drop_bit 12 va AND 0x3FF"

definition PGADDR :: "u32 \<Rightarrow> u32 \<Rightarrow> u32 \<Rightarrow> u32" where
  "PGADDR d t o' = push_bit 22 d OR push_bit 12 t OR o'"

definition PTE_ADDR :: "u32 \<Rightarrow> u32" where "PTE_ADDR pte = pte AND NOT 0xFFF"

definition PTE_FLAGS :: "u32 \<Rightarrow> u32" where "PTE_FLAGS pte = pte AND 0xFFF"

text \<open>The page replacement policy the kernel is compiled with.\<close>

datatype selection = NONE | LIFO | SCFIFO

record vm_state = kmem_state +
  policy :: selection

text \<open>Loads and stores through a pointer to a word; a null pointer faults.\<close>

definition ldw :: "u32 \<Rightarrow> ('z kmem_state_scheme, u32) kop" where
  "ldw a = (if a = 0 then kerror (Fault ''null pointer'') else rd (\<lambda>s. ld32 (mem s) (unat a)))"

definition stw :: "u32 \<Rightarrow> u32 \<Rightarrow> ('z kmem_state_scheme, unit) kop" where
  "stw a v = (if a = 0 then kerror (Fault ''null pointer'')
     else upd (\<lambda>s. s\<lparr>mem := st32 (mem s) (unat a) v\<rparr>))"

definition zero_page :: "u32 \<Rightarrow> ('z kmem_state_scheme, unit) kop" where
  "zero_page v = (if v = 0 then kerror (Fault ''null pointer'')
     else upd (\<lambda>s. s\<lparr>mem := memset (unat v) 0 PGSIZE (mem s)\<rparr>))"

definition walkpgdir :: "u32 \<Rightarrow> u32 \<Rightarrow> bool \<Rightarrow> ('z kmem_state_scheme, u32) kop" where
  "walkpgdir pgdir va alloc =
     bnd (ldw (pgdir + 4 * PDX va)) (\<lambda>pde.
     if pde AND PTE_P \<noteq> 0 then ret (P2V (PTE_ADDR pde) + 4 * PTX va)
     else if \<not> alloc then ret 0
     else bnd kalloc (\<lambda>pgtab.
       if pgtab = 0 then ret 0
       else
         thn (zero_page pgtab) (
         thn (stw (pgdir + 4 * PDX va) (V2P pgtab OR PTE_P OR PTE_W OR PTE_U))
         (ret (pgtab + 4 * PTX va)))))"

text \<open>
  The loop of \<open>mappages\<close> runs through the pages from \<open>a\<close> to \<open>last\<close>, around the address space if
  \<open>last\<close> is below \<open>a\<close>; the number of pages of the address space bounds the rounds.
\<close>

primrec mappages_loop :: "nat \<Rightarrow> u32 \<Rightarrow> u32 \<Rightarrow> u32 \<Rightarrow> u32 \<Rightarrow> u32 \<Rightarrow> ('z kmem_state_scheme, int) kop" where
  "mappages_loop 0 pgdir a lst pa perm = kerror NoFuel"
| "mappages_loop (Suc n) pgdir a lst pa perm =
     bnd (walkpgdir pgdir a True) (\<lambda>pte.
     if pte = 0 then ret (- 1)
     else bnd (ldw pte) (\<lambda>e.
       if e AND PTE_P \<noteq> 0 then panic ''remap''
       else thn (stw pte (pa OR perm OR PTE_P)) (
         if a = lst then ret 0
         else mappages_loop n pgdir (a + 4096) lst (pa + 4096) perm)))"

definition mappages :: "u32 \<Rightarrow> u32 \<Rightarrow> u32 \<Rightarrow> u32 \<Rightarrow> u32 \<Rightarrow> ('z kmem_state_scheme, int) kop" where
  "mappages pgdir va sz pa perm =
     mappages_loop 0x100000 pgdir (PGROUNDDOWN va) (PGROUNDDOWN (va + sz - 1)) pa perm"

definition page_in :: "u32 \<Rightarrow> u32 \<Rightarrow> u32 \<Rightarrow> ('z vm_state_scheme, unit) kop" where
  "page_in u_va pa pgdir =
     bnd curproc (\<lambda>i.
     bnd (walkpgdir pgdir u_va False) (\<lambda>pte.
     if pte = 0 then panic ''page pte is not found''
     else
       bnd (ldw pte) (\<lambda>e. thn (stw pte (e OR PTE_P OR PTE_W OR PTE_U)) (
       thn (upd_proc i (\<lambda>p. p\<lparr>p_protected := p_protected p - 1\<rparr>)) (
       bnd (ldw pte) (\<lambda>e. thn (stw pte (e AND NOT PTE_PG)) (
       bnd (ldw pte) (\<lambda>e. thn (stw pte (e OR pa))
       (upd (\<lambda>s. s\<lparr>cr3 := V2P (p_pgdir (procs s i))\<rparr>))))))))))"

definition page_out :: "u32 \<Rightarrow> u32 \<Rightarrow> ('z vm_state_scheme, unit) kop" where
  "page_out va pgdir =
     bnd curproc (\<lambda>i.
     bnd (walkpgdir pgdir va False) (\<lambda>pte.
     if pte = 0 then panic ''pte is not found''
     else
       bnd (ldw pte) (\<lambda>e. thn (stw pte (e OR PTE_PG)) (
       bnd (ldw pte) (\<lambda>e. thn (stw pte (e AND NOT PTE_P)) (
       bnd (ldw pte) (\<lambda>e. thn (stw pte (e AND PTE_FLAGS e)) (
       thn (upd_proc i (\<lambda>p. p\<lparr>p_protected := p_protected p + 1\<rparr>))
       (upd (\<lambda>s. s\<lparr>cr3 := V2P (p_pgdir (procs s i))\<rparr>))))))))))"

definition turn_flag :: "u32 \<Rightarrow> u32 \<Rightarrow> bool \<Rightarrow> ('z vm_state_scheme, unit) kop" where
  "turn_flag va flag on =
     bnd curproc (\<lambda>i.
     bnd (rd (\<lambda>s. p_pgdir (procs s i))) (\<lambda>pgdir.
     bnd (walkpgdir pgdir va False) (\<lambda>pte.
     if pte = 0 then panic ''turn flag: no pte found''
     else
       bnd (ldw pte) (\<lambda>e.
       thn (stw pte (if on then e OR flag else e AND NOT flag))
       (upd (\<lambda>s. s\<lparr>cr3 := V2P pgdir\<rparr>))))))"

definition is_flag_on :: "u32 \<Rightarrow> u32 \<Rightarrow> ('z vm_state_scheme, bool) kop" where
  "is_flag_on va flag =
     bnd curproc (\<lambda>i.
     bnd (rd (\<lambda>s. p_pgdir (procs s i))) (\<lambda>pgdir.
     bnd (walkpgdir pgdir va False) (\<lambda>pte.
     if pte = 0 then panic ''turn flag: no pte found''
     else bnd (ldw pte) (\<lambda>e. ret (e AND flag \<noteq> 0)))))"

definition update_protected_pages :: "bool \<Rightarrow> ('z vm_state_scheme, unit) kop" where
  "update_protected_pages up =
     bnd curproc (\<lambda>i. upd_proc i (\<lambda>p. p\<lparr>p_protected := p_protected p + (if up then 1 else - 1)\<rparr>))"

definition select_NONE :: "('z vm_state_scheme, bool) kop" where
  "select_NONE = rd (\<lambda>s. policy s = NONE)"

subsection \<open>Resident pages\<close>

definition get_free_ram_idx :: "('z vm_state_scheme, nat option) kop" where
  "get_free_ram_idx =
     bnd curproc (\<lambda>i. rd (\<lambda>s. first_idx (\<lambda>k. \<not> pm_used (p_ram (procs s i) k)) MAX_PYSC_PAGES))"

definition add2ram :: "u32 \<Rightarrow> u32 \<Rightarrow> ('z vm_state_scheme, unit) kop" where
  "add2ram pgdir p_va =
     bnd get_free_ram_idx (\<lambda>io. case io of None \<Rightarrow> ret ()
     | Some k \<Rightarrow>
       bnd curproc (\<lambda>i. upd_proc i (\<lambda>p. p\<lparr>
         p_last_in_queue := p_last_in_queue p + 1,
         p_ram := (p_ram p)(k := \<lparr>pm_used = True, pm_pgdir = pgdir, pm_va = p_va,
           pm_place = p_last_in_queue p + 1\<rparr>)\<rparr>)))"

text \<open>One step of the scans of \<open>select_LIFO\<close> and \<open>select_SCFIFO\<close>: the index and place found so far.\<close>

definition lifo_step :: "(nat \<Rightarrow> p_monitor) \<Rightarrow> nat \<Rightarrow> nat option \<times> int \<Rightarrow> nat option \<times> int" where
  "lifo_step ram k = (\<lambda>(r, l). if pm_place (ram k) > l \<and> pm_used (ram k) then (Some k, pm_place (ram k)) else (r, l))"

definition select_LIFO :: "('z vm_state_scheme, nat option) kop" where
  "select_LIFO = bnd curproc (\<lambda>i. rd (\<lambda>s.
     fst (fold (lifo_step (p_ram (procs s i))) [0..<MAX_PYSC_PAGES] (None, 0))))"

definition scfifo_step :: "(nat \<Rightarrow> p_monitor) \<Rightarrow> nat \<Rightarrow> nat option \<times> int \<Rightarrow> nat option \<times> int" where
  "scfifo_step ram k = (\<lambda>(r, f). if pm_place (ram k) \<le> f \<and> pm_used (ram k) then (Some k, pm_place (ram k)) else (r, f))"

definition scfifo_oldest :: "(nat \<Rightarrow> p_monitor) \<Rightarrow> nat option" where
  "scfifo_oldest ram = fst (fold (scfifo_step ram) [0..<MAX_PYSC_PAGES] (None, 0x7FFFFFFF))"

text \<open>
  The loop of \<open>select_SCFIFO\<close>: every round that does not end it clears the accessed bit of an entry,
  so one round more than there are resident pages is enough. With no resident page at all it
  reads \<open>ram_monitor[-1]\<close>.
\<close>

primrec scfifo_loop :: "nat \<Rightarrow> nat \<Rightarrow> ('z vm_state_scheme, nat) kop" where
  "scfifo_loop 0 i = kerror NoFuel"
| "scfifo_loop (Suc n) i =
     bnd (rd (\<lambda>s. p_ram (procs s i))) (\<lambda>ram.
     case scfifo_oldest ram of None \<Rightarrow> kerror (Fault ''ram_monitor[-1]'')
     | Some k \<Rightarrow>
       bnd (walkpgdir (pm_pgdir (ram k)) (pm_va (ram k)) False) (\<lambda>pte.
       bnd (ldw pte) (\<lambda>e.
       if PTE_FLAGS e AND PTE_A \<noteq> 0 then
         thn (stw pte (e AND NOT PTE_A)) (
         thn (upd_proc i (\<lambda>p. p\<lparr>
           p_last_in_queue := p_last_in_queue p + 1,
           p_ram := (p_ram p)(k := (p_ram p k)\<lparr>pm_place := p_last_in_queue p + 1\<rparr>)\<rparr>))
         (scfifo_loop n i))
       else ret k)))"

definition select_SCFIFO :: "('z vm_state_scheme, nat) kop" where
  "select_SCFIFO = bnd curproc (\<lambda>i. scfifo_loop (Suc MAX_PYSC_PAGES) i)"

definition replace_page_by_policy :: "('z vm_state_scheme, nat) kop" where
  "replace_page_by_policy =
     bnd (rd policy) (\<lambda>sel. case sel of
       LIFO \<Rightarrow> bnd select_LIFO (\<lambda>r. case r of None \<Rightarrow> kerror (Fault ''ram_monitor[-1]'') | Some k \<Rightarrow> ret k)
     | SCFIFO \<Rightarrow> select_SCFIFO
     | NONE \<Rightarrow> panic ''invalid policy!'')"

subsection \<open>User address spaces\<close>

definition ram_forget :: "u32 \<Rightarrow> u32 \<Rightarrow> proc \<Rightarrow> proc" where
  "ram_forget pgdir a p = p\<lparr>p_ram := (\<lambda>k.
     if k < MAX_PYSC_PAGES \<and> pm_used (p_ram p k) \<and> pm_va (p_ram p k) = a \<and> pm_pgdir (p_ram p k) = pgdir
     then (p_ram p k)\<lparr>pm_used := False\<rparr> else p_ram p k)\<rparr>"

primrec deallocuvm_loop :: "nat \<Rightarrow> u32 \<Rightarrow> u32 \<Rightarrow> u32 \<Rightarrow> ('z vm_state_scheme, unit) kop" where
  "deallocuvm_loop 0 pgdir a oldsz = kerror NoFuel"
| "deallocuvm_loop (Suc n) pgdir a oldsz =
     (if \<not> a < oldsz then ret ()
      else bnd (walkpgdir pgdir a False) (\<lambda>pte.
        if pte = 0 then deallocuvm_loop n pgdir (PGADDR (PDX a + 1) 0 0 - 4096 + 4096) oldsz
        else bnd (ldw pte) (\<lambda>e.
          if e AND PTE_P \<noteq> 0 then
            (if PTE_ADDR e = 0 then panic ''kfree''
             else
               thn (kfree (P2V (PTE_ADDR e))) (
               thn (bnd select_NONE (\<lambda>none. whn (\<not> none)
                 (bnd curproc (\<lambda>i. upd_proc i (ram_forget pgdir a))))) (
               thn (stw pte 0)
               (deallocuvm_loop n pgdir (a + 4096) oldsz))))
          else deallocuvm_loop n pgdir (a + 4096) oldsz)))"

definition deallocuvm :: "u32 \<Rightarrow> u32 \<Rightarrow> u32 \<Rightarrow> ('z vm_state_scheme, u32) kop" where
  "deallocuvm pgdir oldsz newsz =
     (if newsz \<ge> oldsz then ret oldsz
      else thn (deallocuvm_loop 0x100001 pgdir (PGROUNDUP newsz) oldsz) (ret newsz))"

definition free_table :: "u32 \<Rightarrow> nat \<Rightarrow> ('z vm_state_scheme, unit) kop" where
  "free_table pgdir i =
     bnd (ldw (pgdir + of_nat (4 * i))) (\<lambda>pde.
     whn (pde AND PTE_P \<noteq> 0) (kfree (P2V (PTE_ADDR pde))))"

definition freevm :: "u32 \<Rightarrow> ('z vm_state_scheme, unit) kop" where
  "freevm pgdir =
     (if pgdir = 0 then panic ''freevm: no pgdir''
      else thn (deallocuvm pgdir KERNBASE 0) (
        thn (each (free_table pgdir) [0..<1024])
        (kfree pgdir)))"

text \<open>The table \<open>kmap\<close>: virtual start, physical start, physical end, permissions.\<close>

definition kmap :: "'z kmem_state_scheme \<Rightarrow> (u32 \<times> u32 \<times> u32 \<times> u32) list" where
  "kmap s = [(KERNBASE, 0, EXTMEM, PTE_W),
             (KERNLINK, V2P KERNLINK, V2P (kdata s), 0),
             (kdata s, V2P (kdata s), PHYSTOP, PTE_W),
             (DEVSPACE, DEVSPACE, 0, PTE_W)]"

primrec setupkvm_loop :: "u32 \<Rightarrow> (u32 \<times> u32 \<times> u32 \<times> u32) list \<Rightarrow> ('z vm_state_scheme, u32) kop" where
  "setupkvm_loop pgdir [] = ret pgdir"
| "setupkvm_loop pgdir (k # ks) = (case k of (virt, phys_start, phys_end, perm) \<Rightarrow>
     bnd (mappages pgdir virt (phys_end - phys_start) phys_start perm) (\<lambda>r.
     if r < 0 then thn (freevm pgdir) (ret 0) else setupkvm_loop pgdir ks))"

definition setupkvm :: "('z vm_state_scheme, u32) kop" where
  "setupkvm =
     bnd kalloc (\<lambda>pgdir.
     if pgdir = 0 then ret 0
     else
       thn (zero_page pgdir) (
       if P2V PHYSTOP > DEVSPACE then panic ''PHYSTOP too high''
       else bnd (rd kmap) (\<lambda>ks. setupkvm_loop pgdir ks)))"

definition kvmalloc :: "('z vm_state_scheme, unit) kop" where
  "kvmalloc = bnd setupkvm (\<lambda>d. thn (upd (\<lambda>s. s\<lparr>kpgdir := d\<rparr>)) switchkvm)"

text \<open>Bytes put into memory from \<open>a\<close> on, as \<open>memmove\<close> from a buffer outside it does.\<close>

definition put_bytes :: "nat \<Rightarrow> u8 list \<Rightarrow> bmem \<Rightarrow> bmem" where
  "put_bytes a bs m = (\<lambda>x. if a \<le> x \<and> x < a + length bs then bs ! (x - a) else m x)"

definition inituvm :: "u32 \<Rightarrow> u8 list \<Rightarrow> ('z vm_state_scheme, unit) kop" where
  "inituvm pgdir init =
     (if length init \<ge> PGSIZE then panic ''inituvm: more than a page''
      else bnd kalloc (\<lambda>m.
        thn (zero_page m) (
        thn (mappages pgdir 0 4096 (V2P m) (PTE_W OR PTE_U))
        (upd (\<lambda>s. s\<lparr>mem := put_bytes (unat m) init (mem s)\<rparr>)))))"

definition clearpteu :: "u32 \<Rightarrow> u32 \<Rightarrow> ('z kmem_state_scheme, unit) kop" where
  "clearpteu pgdir uva =
     bnd (walkpgdir pgdir uva False) (\<lambda>pte.
     if pte = 0 then panic ''clearpteu''
     else bnd (ldw pte) (\<lambda>e. stw pte (e AND NOT PTE_U)))"

text \<open>
  The loop of \<open>copyuvm\<close> over the pages below \<open>sz\<close>; the result says whether it reached the label
  \<open>bad\<close>.
\<close>

primrec copyuvm_loop :: "nat \<Rightarrow> u32 \<Rightarrow> u32 \<Rightarrow> u32 \<Rightarrow> u32 \<Rightarrow> ('z vm_state_scheme, bool) kop" where
  "copyuvm_loop 0 pgdir d i sz = kerror NoFuel"
| "copyuvm_loop (Suc n) pgdir d i sz =
     (if \<not> i < sz then ret True
      else bnd (walkpgdir pgdir i False) (\<lambda>pte.
        if pte = 0 then panic ''copyuvm: pte should exist''
        else bnd (ldw pte) (\<lambda>e.
          if e AND PTE_P = 0 then panic ''copyuvm: page not present''
          else if e AND PTE_PG \<noteq> 0 then thn (page_out i d) (copyuvm_loop n pgdir d (i + 4096) sz)
          else bnd kalloc (\<lambda>m.
            if m = 0 then ret False
            else
              thn (upd (\<lambda>s. s\<lparr>mem := memmove (unat m) (unat (P2V (PTE_ADDR e))) PGSIZE (mem s)\<rparr>)) (
              bnd (mappages d i 4096 (V2P m) (PTE_FLAGS e)) (\<lambda>r.
              if r < 0 then ret False
              else copyuvm_loop n pgdir d (i + 4096) sz))))))"

definition copyuvm :: "u32 \<Rightarrow> u32 \<Rightarrow> ('z vm_state_scheme, u32) kop" where
  "copyuvm pgdir sz =
     bnd setupkvm (\<lambda>d.
     if d = 0 then ret 0
     else bnd (copyuvm_loop 0x100001 pgdir d 0 sz) (\<lambda>ok.
       if ok then ret d else thn (freevm d) (ret 0)))"

definition uva2ka :: "u32 \<Rightarrow> u32 \<Rightarrow> ('z kmem_state_scheme, u32) kop" where
  "uva2ka pgdir uva =
     bnd (walkpgdir pgdir uva False) (\<lambda>pte.
     bnd (ldw pte) (\<lambda>e.
     if e AND PTE_P = 0 then ret 0
     else if e AND PTE_U = 0 then ret 0
     else ret (P2V (PTE_ADDR e))))"

text \<open>The bytes of \<open>copyout\<close>'s source buffer are a list; every round copies at least one.\<close>

function copyout_loop :: "u32 \<Rightarrow> u32 \<Rightarrow> u8 list \<Rightarrow> ('z kmem_state_scheme, int) kop" where
  "copyout_loop pgdir va bs =
     (if bs = [] then ret 0
      else let va0 = PGROUNDDOWN va; n = min (PGSIZE - unat (va - va0)) (length bs) in
        bnd (uva2ka pgdir va0) (\<lambda>pa0.
        if pa0 = 0 then ret (- 1)
        else thn (upd (\<lambda>s. s\<lparr>mem := put_bytes (unat pa0 + unat (va - va0)) (take n bs) (mem s)\<rparr>))
          (if n = 0 then kerror NoFuel else copyout_loop pgdir (va0 + 4096) (drop n bs))))"
  by pat_completeness auto

termination
  by (relation "measure (\<lambda>(_, _, bs). length bs)") auto

definition copyout :: "u32 \<Rightarrow> u32 \<Rightarrow> u8 list \<Rightarrow> ('z kmem_state_scheme, int) kop" where
  "copyout pgdir va bs = copyout_loop pgdir va bs"

end
