(* ===== verification/Vm_Spec.thy ===== *)
theory Vm_Spec
  imports Vm
begin

text \<open>
  What the page table code guarantees: a page table read as a function from virtual addresses to
  entries (\<open>pte_of\<close>), the invariant that keeps the tables of an address space apart from each
  other and from the free list, and the effect of every operation on both.
\<close>

unbundle bit_operations_syntax

section \<open>Addresses and entries\<close>

lemma unat_PDX: "unat (PDX va) = unat va div 4194304"
proof -
  have "drop_bit 22 va AND 0x3FF = drop_bit 22 va"
  proof -
    have m: "(0x3FF :: u32) = mask 10" by (simp add: mask_eq_exp_minus_1)
    show ?thesis unfolding m by (rule bit_word_eqI) (auto simp: bit_simps dest: bit_imp_le_length)
  qed
  then show ?thesis by (simp add: PDX_def drop_bit_eq_div unat_div)
qed

lemma unat_PTX: "unat (PTX va) = unat va div 4096 mod 1024"
proof -
  have m: "(0x3FF :: u32) = mask 10" by (simp add: mask_eq_exp_minus_1)
  have "unat (drop_bit 12 va AND 0x3FF) = take_bit 10 (unat (drop_bit 12 va))"
    unfolding m take_bit_eq_mask [symmetric] by (simp add: unsigned_take_bit_eq)
  then show ?thesis by (simp add: PTX_def drop_bit_eq_div take_bit_eq_mod unat_div)
qed

lemma PDX_less [simp]: "unat (PDX va) < 1024"
  using unsigned_less [of va, where 'a = nat] by (simp add: unat_PDX)

lemma PTX_less [simp]: "unat (PTX va) < 1024"
  by (simp add: unat_PTX)

lemma PDX_le [simp]: "unat (PDX va) \<le> 1023"
  using PDX_less [of va] by linarith

lemma PTX_le [simp]: "unat (PTX va) \<le> 1023"
  using PTX_less [of va] by linarith

definition pgno :: "u32 \<Rightarrow> nat" where
  "pgno va = unat va div 4096"

lemma pgno_PDX_PTX: "pgno va = 1024 * unat (PDX va) + unat (PTX va)"
proof -
  have "unat va div 4194304 = unat va div 4096 div 1024" by (simp flip: div_mult2_eq)
  then show ?thesis by (simp add: pgno_def unat_PDX unat_PTX)
qed

lemma pgno_eq_iff: "pgno va = pgno va' \<longleftrightarrow> PDX va = PDX va' \<and> PTX va = PTX va'"
proof
  assume eq: "pgno va = pgno va'"
  have "unat (PDX va) = pgno va div 1024" "unat (PTX va) = pgno va mod 1024"
    "unat (PDX va') = pgno va' div 1024" "unat (PTX va') = pgno va' mod 1024"
    by (simp_all add: pgno_PDX_PTX)
  then show "PDX va = PDX va' \<and> PTX va = PTX va'" using eq by (simp flip: unat_inj)
qed (simp add: pgno_PDX_PTX)

lemma slot_addr:
  fixes p x :: u32
  assumes "4096 dvd unat p" "unat x < 1024"
  shows "unat (p + 4 * x) = unat p + 4 * unat x"
proof -
  from assms(1) obtain k where k: "unat p = 4096 * k" by (auto elim: dvdE)
  have "unat p < 2 ^ 32" using unsigned_less [of p, where 'a = nat] by simp
  then have "k < 1048576" using k by simp
  then have "unat p \<le> 4096 * 1048575" using k by simp
  moreover have "unat (4 * x) = 4 * unat x" using assms(2) by (simp add: unat_word_ariths(2))
  ultimately show ?thesis using assms(2) by (simp add: unat_plus_if')
qed

lemma aligned_bits: "4096 dvd unat (y :: u32) \<Longrightarrow> n < 12 \<Longrightarrow> \<not> bit y n"
proof -
  assume "4096 dvd unat y" "n < 12"
  then have "take_bit 12 (unat y) = 0" by (simp add: take_bit_eq_mod dvd_eq_mod_eq_0)
  then have "unat (take_bit 12 y) = 0" by (simp add: unsigned_take_bit_eq)
  then have "take_bit 12 y = 0" by (simp add: unat_0_iff)
  then have "\<not> bit (take_bit 12 y) n" by simp
  then show ?thesis using \<open>n < 12\<close> by (simp add: bit_simps)
qed

lemma small_bits: "f < 4096 \<Longrightarrow> 12 \<le> n \<Longrightarrow> \<not> bit (f :: u32) n"
proof -
  assume "f < 4096" "12 \<le> n"
  then have "unat f < 2 ^ 12" by (simp add: word_less_nat_alt)
  then have "take_bit 12 (unat f) = unat f" by (rule take_bit_nat_eq_self)
  then have "unat (take_bit 12 f) = unat f" by (simp add: unsigned_take_bit_eq)
  then have "take_bit 12 f = f" by (simp add: unat_inj)
  then show ?thesis using \<open>12 \<le> n\<close> by (metis bit_take_bit_iff not_less)
qed

lemma fff_mask: "(0xFFF :: u32) = mask 12"
  by (simp add: mask_eq_exp_minus_1)

lemma bit_PTE_ADDR: "bit (PTE_ADDR e) n \<longleftrightarrow> bit e n \<and> 12 \<le> n"
  unfolding PTE_ADDR_def fff_mask
  by (auto simp: bit_simps dest: bit_imp_le_length)

lemma bit_PTE_FLAGS: "bit (PTE_FLAGS e) n \<longleftrightarrow> bit e n \<and> n < 12"
  unfolding PTE_FLAGS_def fff_mask by (auto simp: bit_simps dest: bit_imp_le_length)

lemma PTE_ADDR_or [simp]: "4096 dvd unat y \<Longrightarrow> f < 4096 \<Longrightarrow> PTE_ADDR (y OR f) = y"
  using aligned_bits [of y] small_bits [of f] by (intro bit_word_eqI) (auto simp: bit_simps bit_PTE_ADDR, meson not_less)

lemma PTE_FLAGS_or [simp]: "4096 dvd unat y \<Longrightarrow> f < 4096 \<Longrightarrow> PTE_FLAGS (y OR f) = f"
  using aligned_bits [of y] small_bits [of f] by (intro bit_word_eqI) (auto simp: bit_simps bit_PTE_FLAGS, meson not_less)

lemma V2P_dvd [simp]: "4096 dvd unat (V2P x) \<longleftrightarrow> 4096 dvd unat x"
proof -
  have "V2P x = x + 0x80000000" by (simp add: V2P_def)
  then have "unat (V2P x) = (unat x + 2147483648) mod 4294967296" by (simp add: unat_word_ariths(1))
  then show ?thesis by (simp add: dvd_mod_iff dvd_add_left_iff)
qed

lemma P2V_V2P [simp]: "P2V (V2P x) = x" "V2P (P2V x) = x"
  by (simp_all add: P2V_def V2P_def)


section \<open>A page table as a function\<close>

definition pde_at :: "bmem \<Rightarrow> u32 \<Rightarrow> nat \<Rightarrow> u32" where
  "pde_at m pd i = ld32 m (unat pd + 4 * i)"

definition has_tab :: "bmem \<Rightarrow> u32 \<Rightarrow> nat \<Rightarrow> bool" where
  "has_tab m pd i \<longleftrightarrow> pde_at m pd i AND PTE_P \<noteq> 0"

definition tab :: "bmem \<Rightarrow> u32 \<Rightarrow> nat \<Rightarrow> u32" where
  "tab m pd i = P2V (PTE_ADDR (pde_at m pd i))"

definition slot :: "bmem \<Rightarrow> u32 \<Rightarrow> u32 \<Rightarrow> u32" where
  "slot m pd va = tab m pd (unat (PDX va)) + 4 * PTX va"

definition mapped :: "bmem \<Rightarrow> u32 \<Rightarrow> u32 \<Rightarrow> bool" where
  "mapped m pd va = has_tab m pd (unat (PDX va))"

definition pte_of :: "bmem \<Rightarrow> u32 \<Rightarrow> u32 \<Rightarrow> u32" where
  "pte_of m pd va = (if mapped m pd va then ld32 m (unat (slot m pd va)) else 0)"

definition tables :: "bmem \<Rightarrow> u32 \<Rightarrow> u32 set" where
  "tables m pd = insert pd {tab m pd i | i. i < 1024 \<and> has_tab m pd i}"

definition pd_ok :: "'z kmem_state_scheme \<Rightarrow> u32 \<Rightarrow> bool" where
  "pd_ok s pd \<longleftrightarrow> (\<forall>x\<in>tables (mem s) pd. frame (kend s) x) \<and> KERNBASE < kend s \<and>
     tables (mem s) pd \<inter> set (free_pages s) = {} \<and>
     (\<forall>i<1024. has_tab (mem s) pd i \<longrightarrow> tab (mem s) pd i \<noteq> pd) \<and>
     (\<forall>i<1024. \<forall>j<1024. has_tab (mem s) pd i \<longrightarrow> has_tab (mem s) pd j \<longrightarrow>
        tab (mem s) pd i = tab (mem s) pd j \<longrightarrow> i = j)"

definition in_page :: "u32 \<Rightarrow> nat \<Rightarrow> bool" where
  "in_page x a \<longleftrightarrow> unat x \<le> a \<and> a < unat x + 4096"

text \<open>Two memories agree on a set of pages.\<close>

definition agree :: "u32 set \<Rightarrow> bmem \<Rightarrow> bmem \<Rightarrow> bool" where
  "agree S m m' \<longleftrightarrow> (\<forall>x\<in>S. \<forall>a. in_page x a \<longrightarrow> m' a = m a)"

lemma agree_ld32: "agree S m m' \<Longrightarrow> x \<in> S \<Longrightarrow> unat x \<le> a \<Longrightarrow> a + 4 \<le> unat x + 4096 \<Longrightarrow> ld32 m' a = ld32 m a"
  by (rule ld32_cong) (auto simp: agree_def in_page_def)

lemma agree_mono: "agree S m m' \<Longrightarrow> T \<subseteq> S \<Longrightarrow> agree T m m'"
  by (auto simp: agree_def)

lemma pde_at_agree: "agree S m m' \<Longrightarrow> pd \<in> S \<Longrightarrow> i < 1024 \<Longrightarrow> pde_at m' pd i = pde_at m pd i"
  unfolding pde_at_def by (rule agree_ld32) auto

lemma has_tab_agree: "agree S m m' \<Longrightarrow> pd \<in> S \<Longrightarrow> i < 1024 \<Longrightarrow> has_tab m' pd i = has_tab m pd i"
  and tab_agree: "agree S m m' \<Longrightarrow> pd \<in> S \<Longrightarrow> i < 1024 \<Longrightarrow> tab m' pd i = tab m pd i"
  by (simp_all add: has_tab_def tab_def pde_at_agree)

lemma tables_agree: "agree {pd} m m' \<Longrightarrow> tables m' pd = tables m pd"
  unfolding tables_def
  by (rule arg_cong [of _ _ "insert pd"], rule Collect_cong) (metis has_tab_agree tab_agree insertI1)

lemma pd_in_tables [simp]: "pd \<in> tables m pd"
  by (simp add: tables_def)

lemma tab_in_tables: "has_tab m pd i \<Longrightarrow> i < 1024 \<Longrightarrow> tab m pd i \<in> tables m pd"
  by (auto simp: tables_def)

lemma pd_okD:
  assumes "pd_ok s pd"
  shows "frame (kend s) pd" "\<And>x. x \<in> tables (mem s) pd \<Longrightarrow> frame (kend s) x" "KERNBASE < kend s"
    "\<And>x. x \<in> tables (mem s) pd \<Longrightarrow> x \<notin> set (free_pages s)"
    "\<And>i. i < 1024 \<Longrightarrow> has_tab (mem s) pd i \<Longrightarrow> tab (mem s) pd i \<noteq> pd"
    "\<And>i j. i < 1024 \<Longrightarrow> j < 1024 \<Longrightarrow> has_tab (mem s) pd i \<Longrightarrow> has_tab (mem s) pd j \<Longrightarrow>
      tab (mem s) pd i = tab (mem s) pd j \<Longrightarrow> i = j"
  using assms by (auto simp: pd_ok_def)

lemma slot_eq:
  assumes "pd_ok s pd" "mapped (mem s) pd va"
  shows "unat (slot (mem s) pd va) = unat (tab (mem s) pd (unat (PDX va))) + 4 * unat (PTX va)"
    and "tab (mem s) pd (unat (PDX va)) \<in> tables (mem s) pd"
    and "slot (mem s) pd va \<noteq> 0"
proof -
  show t: "tab (mem s) pd (unat (PDX va)) \<in> tables (mem s) pd"
    using assms(2) by (simp add: mapped_def tab_in_tables)
  note f = pd_okD(2) [OF assms(1) t]
  show eq: "unat (slot (mem s) pd va) = unat (tab (mem s) pd (unat (PDX va))) + 4 * unat (PTX va)"
    unfolding slot_def by (rule slot_addr) (use f in \<open>simp_all add: frame_def\<close>)
  show "slot (mem s) pd va \<noteq> 0"
    using frame_range(1) [OF f pd_okD(3) [OF assms(1)]] eq by (auto simp flip: unat_0_iff)
qed

lemma pte_of_agree:
  assumes "pd_ok s pd" "agree (tables (mem s) pd) (mem s) m'"
  shows "mapped m' pd = mapped (mem s) pd" and "pte_of m' pd = pte_of (mem s) pd"
proof -
  have "agree {pd} (mem s) m'" using assms(2) by (rule agree_mono) simp
  then have m: "mapped m' pd va = mapped (mem s) pd va" "slot m' pd va = slot (mem s) pd va" for va
    by (simp_all add: mapped_def slot_def has_tab_agree [where S = "{pd}"] tab_agree [where S = "{pd}"])
  have "ld32 m' (unat (slot (mem s) pd va)) = ld32 (mem s) (unat (slot (mem s) pd va))"
    if "mapped (mem s) pd va" for va
    using slot_eq(1) [OF assms(1) that]
    by (intro agree_ld32 [OF assms(2) slot_eq(2) [OF assms(1) that]]) simp_all
  then show "mapped m' pd = mapped (mem s) pd" "pte_of m' pd = pte_of (mem s) pd"
    using m by (auto simp: pte_of_def fun_eq_iff)
qed

lemma pd_ok_agree:
  assumes "pd_ok s pd" "agree {pd} (mem s) (mem t)" "kend t = kend s" "set (free_pages t) \<subseteq> set (free_pages s)"
  shows "pd_ok t pd"
proof -
  have h: "has_tab (mem t) pd i = has_tab (mem s) pd i" "tab (mem t) pd i = tab (mem s) pd i" if "i < 1024" for i
    using has_tab_agree [OF assms(2) _ that] tab_agree [OF assms(2) _ that] by simp_all
  show ?thesis unfolding pd_ok_def tables_agree [OF assms(2)]
    using pd_okD [OF assms(1)] assms(3,4) h by auto
qed

lemma walk_no_alloc [simp]:
  assumes "pd_ok s pd"
  shows "walkpgdir pd va False s = Inr (if mapped (mem s) pd va then slot (mem s) pd va else 0, s)"
proof -
  have f: "4096 dvd unat pd" "0x80000000 < unat pd"
    using pd_okD(1) [OF assms] frame_range(1) [OF pd_okD(1) [OF assms] pd_okD(3) [OF assms]] by (simp_all add: frame_def)
  then have "unat (pd + 4 * PDX va) = unat pd + 4 * unat (PDX va)" by (simp add: slot_addr)
  moreover from this f have "pd + 4 * PDX va \<noteq> 0" by (auto simp flip: unat_0_iff)
  ultimately show ?thesis
    by (simp add: walkpgdir_def ldw_def mapped_def has_tab_def slot_def tab_def pde_at_def ret_def)
qed

lemma ldw_slot [simp]:
  assumes "pd_ok s pd" "mapped (mem s) pd va"
  shows "ldw (slot (mem s) pd va) s = Inr (pte_of (mem s) pd va, s)"
  using slot_eq(3) [OF assms] assms(2) by (simp add: ldw_def pte_of_def rd_def)


subsection \<open>Writing an entry\<close>

lemma agree_st32:
  assumes "frame e y" "unat y \<le> a" "a + 4 \<le> unat y + 4096" "\<And>x. x \<in> S \<Longrightarrow> frame e x \<and> x \<noteq> y"
  shows "agree S m (st32 m a v)"
  unfolding agree_def
proof (intro ballI allI impI)
  fix x b assume x: "x \<in> S" and b: "in_page x b"
  from frame_apart [of e x e y] assms(1) assms(4) [OF x]
  have "unat x + 4096 \<le> unat y \<or> unat y + 4096 \<le> unat x" by blast
  with b assms(2,3) show "st32 m a v b = m b" by (intro st32_at) (auto simp: in_page_def)
qed

lemma agree_memset:
  assumes "frame e y" "\<And>x. x \<in> S \<Longrightarrow> frame e x \<and> x \<noteq> y"
  shows "agree S m (memset (unat y) c 4096 m)"
  unfolding agree_def
proof (intro ballI allI impI)
  fix x b assume x: "x \<in> S" and b: "in_page x b"
  from frame_apart [of e x e y] assms(1) assms(2) [OF x]
  have "unat x + 4096 \<le> unat y \<or> unat y + 4096 \<le> unat x" by blast
  with b show "memset (unat y) c 4096 m b = m b" by (auto simp: in_page_def memset_eq)
qed

lemma agree_trans: "agree S m m' \<Longrightarrow> agree S m' m'' \<Longrightarrow> agree S m m''"
  by (simp add: agree_def)

lemma pool_agree:
  assumes "pool_ok s" "agree (set (free_pages s)) (mem s) (mem t)" "freelist t = freelist s"
    "kend t = kend s" "mach t = mach s"
  shows "free_pages t = free_pages s" "pool_ok t"
proof -
  have "ld32 (mem t) (unat x) = ld32 (mem s) (unat x)" if "x \<in> set (free_pages s)" for x
    using agree_ld32 [OF assms(2) that] by simp
  from kmem_ok_cong [OF _ assms(3,4) this] show "free_pages t = free_pages s" "pool_ok t"
    using assms(1,5) by (auto simp: pool_ok_def)
qed

lemma pool_okD: "pool_ok s \<Longrightarrow> x \<in> set (free_pages s) \<Longrightarrow> frame (kend s) x"
  by (auto simp: pool_ok_def dest: kmem_okD)

definition set_pte :: "u32 \<Rightarrow> u32 \<Rightarrow> u32 \<Rightarrow> 'z kmem_state_scheme \<Rightarrow> 'z kmem_state_scheme" where
  "set_pte pd va v s = s\<lparr>mem := st32 (mem s) (unat (slot (mem s) pd va)) v\<rparr>"

lemma set_pte_sel [simp]: "freelist (set_pte pd va v s) = freelist s" "kend (set_pte pd va v s) = kend s"
  "mach (set_pte pd va v s) = mach s" "procs (set_pte pd va v s) = procs s"
  "mem (set_pte pd va v s) = st32 (mem s) (unat (slot (mem s) pd va)) v"
  by (simp_all add: set_pte_def)

lemma stw_slot [simp]:
  "pd_ok s pd \<Longrightarrow> mapped (mem s) pd va \<Longrightarrow> stw (slot (mem s) pd va) v s = Inr ((), set_pte pd va v s)"
  using slot_eq(3) [of s pd va] by (simp add: stw_def set_pte_def upd_def)

lemma set_pte_agree:
  assumes "pd_ok s pd" "mapped (mem s) pd va"
    "\<And>x. x \<in> S \<Longrightarrow> frame (kend s) x \<and> x \<noteq> tab (mem s) pd (unat (PDX va))"
  shows "agree S (mem s) (mem (set_pte pd va v s))"
  using slot_eq(1,2) [OF assms(1,2)] pd_okD(2) [OF assms(1)] assms(3)
  by (auto intro!: agree_st32 [where y = "tab (mem s) pd (unat (PDX va))" and e = "kend s"])

lemma set_pte_pd:
  assumes "pd_ok s pd" "mapped (mem s) pd va"
  shows "agree {pd} (mem s) (mem (set_pte pd va v s))"
  using assms pd_okD(1) [OF assms(1)] pd_okD(5) [OF assms(1) PDX_less, of va]
  by (intro set_pte_agree) (auto simp: mapped_def)

lemma set_pte_ok:
  assumes "pd_ok s pd" "mapped (mem s) pd va" "pool_ok s"
  shows "free_pages (set_pte pd va v s) = free_pages s" "pool_ok (set_pte pd va v s)"
    "pd_ok (set_pte pd va v s) pd" "tables (mem (set_pte pd va v s)) pd = tables (mem s) pd"
    "mapped (mem (set_pte pd va v s)) pd va' = mapped (mem s) pd va'"
    "slot (mem (set_pte pd va v s)) pd va' = slot (mem s) pd va'"
proof -
  have "agree (set (free_pages s)) (mem s) (mem (set_pte pd va v s))"
    using pd_okD(4) [OF assms(1) slot_eq(2) [OF assms(1,2)]] pool_okD [OF assms(3)]
    by (intro set_pte_agree assms(1,2)) auto
  from pool_agree [OF assms(3) this]
  show fp: "free_pages (set_pte pd va v s) = free_pages s" "pool_ok (set_pte pd va v s)" by simp_all
  note a = set_pte_pd [OF assms(1,2), of v]
  show "pd_ok (set_pte pd va v s) pd" by (rule pd_ok_agree [OF assms(1) a]) (simp_all add: fp(1) del: set_pte_sel(5))
  show "tables (mem (set_pte pd va v s)) pd = tables (mem s) pd" by (rule tables_agree [OF a])
  show "mapped (mem (set_pte pd va v s)) pd va' = mapped (mem s) pd va'"
    unfolding mapped_def by (rule has_tab_agree [OF a]) simp_all
  show "slot (mem (set_pte pd va v s)) pd va' = slot (mem s) pd va'"
    unfolding slot_def by (subst tab_agree [OF a]) simp_all
qed

lemma pte_of_set_pte:
  assumes "pd_ok s pd" "mapped (mem s) pd va" "pool_ok s"
  shows "pte_of (mem (set_pte pd va v s)) pd va' = (if pgno va' = pgno va then v else pte_of (mem s) pd va')"
proof (cases "mapped (mem s) pd va'")
  case False
  then have "pgno va' \<noteq> pgno va" using assms(2) by (auto simp: pgno_eq_iff mapped_def)
  then show ?thesis using False by (simp only: pte_of_def set_pte_ok(5) [OF assms] if_False)
next
  case True
  have eq: "pte_of (mem (set_pte pd va v s)) pd va' =
      ld32 (st32 (mem s) (unat (slot (mem s) pd va)) v) (unat (slot (mem s) pd va'))"
    using True set_pte_ok(5,6) [OF assms, of v va'] by (simp add: pte_of_def)
  note sl = slot_eq(1,2) [OF assms(1,2)] slot_eq(1,2) [OF assms(1) True]
  have "unat (slot (mem s) pd va') + 4 \<le> unat (slot (mem s) pd va) \<or>
      unat (slot (mem s) pd va) + 4 \<le> unat (slot (mem s) pd va')" if "pgno va' \<noteq> pgno va"
  proof (cases "PDX va' = PDX va")
    case True
    then have "unat (PTX va') \<noteq> unat (PTX va)" using that by (auto simp: pgno_eq_iff unat_inj)
    then show ?thesis using sl True by auto
  next
    case False
    then have "tab (mem s) pd (unat (PDX va')) \<noteq> tab (mem s) pd (unat (PDX va))"
      using pd_okD(6) [OF assms(1), of "unat (PDX va')" "unat (PDX va)"] True assms(2) by (auto simp: mapped_def unat_inj)
    from frame_apart [OF pd_okD(2) [OF assms(1) sl(4)] pd_okD(2) [OF assms(1) sl(2)] this]
    show ?thesis using sl(1,3) PTX_le [of va] PTX_le [of va'] by linarith
  qed
  moreover have "slot (mem s) pd va' = slot (mem s) pd va" if "pgno va' = pgno va"
    using that by (simp add: slot_def pgno_eq_iff)
  ultimately show ?thesis using True unfolding eq by (auto simp: mem_simps pte_of_def)
qed


subsection \<open>Allocating a table\<close>

definition new_tab :: "u32 \<Rightarrow> u32 \<Rightarrow> u32 \<Rightarrow> 'z kmem_state_scheme \<Rightarrow> 'z kmem_state_scheme" where
  "new_tab pd va x s = s\<lparr>mem := st32 (memset (unat x) 0 4096 (mem s)) (unat pd + 4 * unat (PDX va))
     (V2P x OR PTE_P OR PTE_W OR PTE_U), freelist := ld32 (mem s) (unat x)\<rparr>"

lemma pde_slot:
  assumes "pd_ok s pd"
  shows "unat (pd + 4 * PDX va) = unat pd + 4 * unat (PDX va)" "pd + 4 * PDX va \<noteq> 0"
proof -
  have f: "4096 dvd unat pd" "0x80000000 < unat pd"
    using pd_okD(1) [OF assms] frame_range(1) [OF pd_okD(1) [OF assms] pd_okD(3) [OF assms]] by (simp_all add: frame_def)
  then show 1: "unat (pd + 4 * PDX va) = unat pd + 4 * unat (PDX va)" by (simp add: slot_addr)
  from f 1 show "pd + 4 * PDX va \<noteq> 0" by (auto simp flip: unat_0_iff)
qed

lemma walk_alloc_mapped [simp]:
  assumes "pd_ok s pd" "mapped (mem s) pd va"
  shows "walkpgdir pd va True s = Inr (slot (mem s) pd va, s)"
  using pde_slot [OF assms(1), of va] assms(2)
  by (simp add: walkpgdir_def ldw_def mapped_def has_tab_def slot_def tab_def pde_at_def ret_def)

lemma walk_alloc_empty:
  assumes "pd_ok s pd" "\<not> mapped (mem s) pd va" "pool_ok s" "free_pages s = []"
  shows "walkpgdir pd va True s = Inr (0, s)"
  using pde_slot [OF assms(1), of va] assms(2) pool.take_empty [OF assms(3,4)]
  by (simp add: walkpgdir_def ldw_def mapped_def has_tab_def pde_at_def ret_def)

lemma walk_alloc_new:
  assumes "pd_ok s pd" "\<not> mapped (mem s) pd va" "pool_ok s" "free_pages s = x # xs"
  shows "walkpgdir pd va True s = Inr (x + 4 * PTX va, new_tab pd va x s)"
proof -
  have "x \<noteq> 0" using pool.avail_ok [OF assms(3)] assms(4) by simp
  then show ?thesis using pde_slot [OF assms(1), of va] assms(2) pool_take [OF assms(3,4)]
    by (simp add: walkpgdir_def ldw_def stw_def zero_page_def mapped_def has_tab_def pde_at_def ret_def new_tab_def)
qed

lemma P_bit_7: "(y OR PTE_P OR PTE_W OR PTE_U) AND PTE_P \<noteq> 0"
proof -
  have "bit ((y OR PTE_P OR PTE_W OR PTE_U) AND PTE_P) 0" by (simp add: bit_simps)
  then show ?thesis by (metis bit_0_eq bot_apply bot_bool_def)
qed

lemma new_tab_ok:
  assumes "pd_ok s pd" "\<not> mapped (mem s) pd va" "pool_ok s" "free_pages s = x # xs"
  defines "t \<equiv> new_tab pd va x s"
  shows "free_pages t = xs" "pool_ok t" "pd_ok t pd" "mapped (mem t) pd va"
    "tables (mem t) pd = insert x (tables (mem s) pd)" "pte_of (mem t) pd = pte_of (mem s) pd"
    "slot (mem t) pd va = x + 4 * PTX va"
proof -
  define s1 where "s1 = s\<lparr>freelist := ld32 (mem s) (unat x)\<rparr>"
  have s1: "free_pages s1 = xs" "pool_ok s1"
    using pop_page_ok [of s x xs] assms(3,4) by (auto simp: pool_ok_def s1_def)
  have x: "frame (kend s) x" "x \<notin> set xs" "x \<notin> tables (mem s) pd"
    using pool.avail_ok [OF assms(3)] assms(4) pd_okD(4) [OF assms(1), of x] by auto
  have pd: "frame (kend s) pd" "pd \<notin> set (free_pages s)" "x \<noteq> pd"
    using pd_okD(1,4) [OF assms(1)] x by auto
  have ag: "agree S (mem s) (mem t)" if "\<And>y. y \<in> S \<Longrightarrow> frame (kend s) y \<and> y \<noteq> x \<and> y \<noteq> pd" for S
    unfolding t_def new_tab_def
    by (simp, rule agree_trans [OF agree_memset [OF x(1)] agree_st32 [OF pd(1)]]) (use that in auto)
  have "agree (set (free_pages s1)) (mem s1) (mem t)"
    unfolding s1(1) using ag [of "set xs"] x(2) pd(2) pool_okD [OF assms(3)] assms(4) by (auto simp: s1_def)
  from pool_agree [OF s1(2) this] s1(1) show fp: "free_pages t = xs" "pool_ok t"
    by (simp_all add: t_def new_tab_def s1_def)
  have pde: "pde_at (mem t) pd i = (if i = unat (PDX va) then V2P x OR PTE_P OR PTE_W OR PTE_U else pde_at (mem s) pd i)"
    if "i < 1024" for i
  proof (cases "i = unat (PDX va)")
    case False
    then have "unat pd + 4 * i + 4 \<le> unat pd + 4 * unat (PDX va) \<or>
      unat pd + 4 * unat (PDX va) + 4 \<le> unat pd + 4 * i" by linarith
    moreover have "unat pd + 4 * i + 4 \<le> unat x \<or> unat x + 4096 \<le> unat pd + 4 * i"
      using frame_apart [OF pd(1) x(1)] pd(3) that by auto
    ultimately show ?thesis using False
      by (simp add: t_def new_tab_def pde_at_def ld32_st32_other ld32_memset_other)
  qed (simp add: t_def new_tab_def pde_at_def)
  have has: "has_tab (mem t) pd i = (i = unat (PDX va) \<or> has_tab (mem s) pd i)" if "i < 1024" for i
    using P_bit_7 [of "V2P x"] by (simp add: has_tab_def pde [OF that])
  have tb: "tab (mem t) pd i = (if i = unat (PDX va) then x else tab (mem s) pd i)" if "i < 1024" for i
    using x(1) PTE_ADDR_or [of "V2P x" "PTE_P OR PTE_W OR PTE_U"] by (simp add: tab_def pde [OF that] frame_def or.assoc)
  show m: "mapped (mem t) pd va" by (simp add: mapped_def has)
  show "slot (mem t) pd va = x + 4 * PTX va" by (simp add: slot_def tb)
  show tabs: "tables (mem t) pd = insert x (tables (mem s) pd)"
    using assms(2) has tb PDX_less [of va] unfolding tables_def mapped_def
    by (auto; metis)
  have new: "tab (mem s) pd i \<noteq> x" if "i < 1024" "has_tab (mem s) pd i" for i
    using x(3) tab_in_tables [OF that(2,1)] by auto
  have not: "\<not> has_tab (mem s) pd (unat (PDX va))" using assms(2) by (simp add: mapped_def)
  have kt: "kend t = kend s" by (simp add: t_def new_tab_def)
  show "pd_ok t pd" unfolding pd_ok_def tabs kt fp(1)
    using pd_okD [OF assms(1)] x pd has tb new new [THEN not_sym] not assms(4) by (auto split: if_splits)
  have "pte_of (mem t) pd va' = pte_of (mem s) pd va'" for va'
  proof (cases "PDX va' = PDX va")
    case True
    have "unat (x + 4 * PTX va') = unat x + 4 * unat (PTX va')"
      using x(1) by (intro slot_addr) (simp_all add: frame_def)
    moreover have "unat x + 4 * unat (PTX va') + 4 \<le> unat pd \<or> unat pd + 4096 \<le> unat x + 4 * unat (PTX va')"
      using frame_apart [OF pd(1) x(1) pd(3) [symmetric]] PTX_le [of va'] by linarith
    moreover from this PDX_le [of va] have "unat x + 4 * unat (PTX va') + 4 \<le> unat pd + 4 * unat (PDX va) \<or>
      unat pd + 4 * unat (PDX va) + 4 \<le> unat x + 4 * unat (PTX va')" by linarith
    ultimately show ?thesis using True not has tb
      by (simp add: pte_of_def mapped_def slot_def t_def new_tab_def ld32_st32_other ld32_memset_zero)
  next
    case False
    then have ne: "unat (PDX va') \<noteq> unat (PDX va)" by (simp add: unat_inj)
    show ?thesis
    proof (cases "mapped (mem s) pd va'")
      case True
      have "agree {tab (mem s) pd (unat (PDX va'))} (mem s) (mem t)"
        using True slot_eq(2) [OF assms(1) True] pd_okD(2,5) [OF assms(1)] new by (intro ag) (auto simp: mapped_def)
      from agree_ld32 [OF this, of _ "unat (slot (mem s) pd va')"] slot_eq(1) [OF assms(1) True]
      show ?thesis using True ne has tb by (simp add: pte_of_def mapped_def slot_def)
    qed (use ne has in \<open>simp add: pte_of_def mapped_def\<close>)
  qed
  then show "pte_of (mem t) pd = pte_of (mem s) pd" by (rule ext)
qed


subsection \<open>Extending an address space\<close>

text \<open>
  What adding mappages to the page table \<open>pd\<close> may do: take pages from the free list for new tables,
  write to tables of \<open>pd\<close> and to those pages, and nothing else.
\<close>

definition vm_ext :: "u32 \<Rightarrow> 'z kmem_state_scheme \<Rightarrow> 'z kmem_state_scheme \<Rightarrow> bool" where
  "vm_ext pd s t \<longleftrightarrow> pool_ok t \<and> pd_ok t pd \<and> (\<exists>m f. t = s\<lparr>mem := m, freelist := f\<rparr>) \<and>
     set (free_pages t) \<subseteq> set (free_pages s) \<and>
     tables (mem t) pd \<subseteq> tables (mem s) pd \<union> (set (free_pages s) - set (free_pages t)) \<and>
     (\<forall>a. (\<forall>x\<in>tables (mem s) pd \<union> set (free_pages s). \<not> in_page x a) \<longrightarrow> mem t a = mem s a)"

lemma vm_ext_refl: "pool_ok s \<Longrightarrow> pd_ok s pd \<Longrightarrow> vm_ext pd s s"
  unfolding vm_ext_def by (auto intro!: exI [of _ "mem s"] exI [of _ "freelist s"])

lemma vm_ext_trans:
  assumes "vm_ext pd s t" "vm_ext pd t u"
  shows "vm_ext pd s u"
proof -
  obtain m f where t: "t = s\<lparr>mem := m, freelist := f\<rparr>" using assms(1) unfolding vm_ext_def by blast
  obtain m' f' where "u = t\<lparr>mem := m', freelist := f'\<rparr>" using assms(2) unfolding vm_ext_def by blast
  then have "u = s\<lparr>mem := m', freelist := f'\<rparr>" by (simp add: t)
  then have "\<exists>m f. u = s\<lparr>mem := m, freelist := f\<rparr>" by blast
  moreover have "tables (mem u) pd \<subseteq> tables (mem s) pd \<union> (set (free_pages s) - set (free_pages u))"
    using assms unfolding vm_ext_def by blast
  moreover have "mem u a = mem s a" if "\<forall>x\<in>tables (mem s) pd \<union> set (free_pages s). \<not> in_page x a" for a
  proof -
    have "tables (mem t) pd \<union> set (free_pages t) \<subseteq> tables (mem s) pd \<union> set (free_pages s)"
      using assms(1) unfolding vm_ext_def by blast
    then have "\<forall>x\<in>tables (mem t) pd \<union> set (free_pages t). \<not> in_page x a" using that by blast
    then show ?thesis using that assms unfolding vm_ext_def by metis
  qed
  ultimately show ?thesis using assms unfolding vm_ext_def by blast
qed

lemma vm_extD:
  assumes "vm_ext pd s t"
  shows "pool_ok t" "pd_ok t pd" "set (free_pages t) \<subseteq> set (free_pages s)" "kend t = kend s" "mach t = mach s"
    "procs t = procs s" "kdata t = kdata s"
  using assms by (auto simp: vm_ext_def)

lemma vm_ext_set_pte:
  assumes "pd_ok s pd" "mapped (mem s) pd va" "pool_ok s"
  shows "vm_ext pd s (set_pte pd va v s)"
proof -
  have "mem (set_pte pd va v s) a = mem s a" if "\<forall>x\<in>tables (mem s) pd. \<not> in_page x a" for a
  proof -
    have "\<not> in_page (tab (mem s) pd (unat (PDX va))) a" using that slot_eq(2) [OF assms(1,2)] by blast
    then have "a < unat (slot (mem s) pd va) \<or> unat (slot (mem s) pd va) + 4 \<le> a"
      using slot_eq(1) [OF assms(1,2)] PTX_le [of va] unfolding in_page_def by linarith
    then show ?thesis by (simp add: st32_at)
  qed
  moreover have "\<exists>m f. set_pte pd va v s = s\<lparr>mem := m, freelist := f\<rparr>"
    by (auto simp: set_pte_def intro!: exI [of _ "freelist s"])
  ultimately show ?thesis
    using set_pte_ok(1-4) [OF assms] by (auto simp: vm_ext_def simp del: set_pte_sel)
qed

lemma vm_ext_new_tab:
  assumes "pd_ok s pd" "\<not> mapped (mem s) pd va" "pool_ok s" "free_pages s = x # xs"
  shows "vm_ext pd s (new_tab pd va x s)"
proof -
  have "mem (new_tab pd va x s) a = mem s a" if "\<forall>y\<in>tables (mem s) pd \<union> set (free_pages s). \<not> in_page y a" for a
  proof -
    have "\<not> in_page pd a" "\<not> in_page x a" using that assms(4) by auto
    then have "a < unat pd + 4 * unat (PDX va) \<or> unat pd + 4 * unat (PDX va) + 4 \<le> a" "a < unat x \<or> unat x + 4096 \<le> a"
      using PDX_le [of va] unfolding in_page_def by linarith+
    then show ?thesis by (auto simp: new_tab_def st32_at memset_eq)
  qed
  moreover have "x \<notin> set xs" using pool.avail_ok [OF assms(3)] assms(4) by simp
  ultimately show ?thesis
    using new_tab_ok(1,2,3,5) [OF assms] assms(4) by (auto simp: vm_ext_def) (auto simp: new_tab_def)
qed

lemma walk_alloc:
  assumes "pd_ok s pd" "pool_ok s"
  shows "wp (walkpgdir pd va True) (\<lambda>p t. vm_ext pd s t \<and> pte_of (mem t) pd = pte_of (mem s) pd \<and>
    (if p = 0 then free_pages s = [] \<and> t = s else mapped (mem t) pd va \<and> p = slot (mem t) pd va)) s"
proof (cases "mapped (mem s) pd va")
  case True
  then show ?thesis using assms slot_eq(3) [OF assms(1) True]
    by (intro wp_I [OF walk_alloc_mapped]) (auto simp: vm_ext_refl)
next
  case False
  show ?thesis
  proof (cases "free_pages s")
    case Nil
    then show ?thesis using assms False by (intro wp_I [OF walk_alloc_empty]) (auto simp: vm_ext_refl)
  next
    case (Cons x xs)
    note n = new_tab_ok [OF assms(1) False assms(2) Cons]
    have "slot (mem (new_tab pd va x s)) pd va \<noteq> 0" by (rule slot_eq(3) [OF n(3,4)])
    then show ?thesis
      using n vm_ext_new_tab [OF assms(1) False assms(2) Cons]
      by (intro wp_I) (rule walk_alloc_new [OF assms(1) False assms(2) Cons], auto)
  qed
qed


subsection \<open>Mapping a range\<close>

definition map_range :: "(u32 \<Rightarrow> u32) \<Rightarrow> nat \<Rightarrow> nat \<Rightarrow> u32 \<Rightarrow> u32 \<Rightarrow> u32 \<Rightarrow> u32" where
  "map_range g n k pa perm va =
     (if n \<le> pgno va \<and> pgno va < n + k then (pa + of_nat (4096 * (pgno va - n))) OR perm OR PTE_P else g va)"

lemma map_range_0 [simp]: "map_range g n 0 pa perm = g"
  by (auto simp: map_range_def fun_eq_iff)

lemma map_range_1: "map_range g n (Suc 0) pa perm = (\<lambda>va. if pgno va = n then pa OR perm OR PTE_P else g va)"
  by (auto simp: map_range_def fun_eq_iff)

lemma map_range_Suc:
  "map_range (map_range g n (Suc 0) pa perm) (Suc n) k (pa + 4096) perm = map_range g n (Suc k) pa perm"
proof (rule ext)
  fix va
  have "pa + 4096 + of_nat (4096 * (pgno va - Suc n)) = pa + of_nat (4096 * (pgno va - n))" if "Suc n \<le> pgno va"
  proof -
    have "4096 * (pgno va - n) = 4096 + 4096 * (pgno va - Suc n)" using that by simp
    then show ?thesis by simp
  qed
  then show "map_range (map_range g n (Suc 0) pa perm) (Suc n) k (pa + 4096) perm va = map_range g n (Suc k) pa perm va"
    unfolding map_range_def by (cases "pgno va = n") auto
qed

lemma pgno_next: "pgno a + 1 < 0x100000 \<Longrightarrow> pgno (a + 4096) = Suc (pgno a)"
proof -
  assume "pgno a + 1 < 0x100000"
  then have "unat a + 4096 < 2 ^ 32" by (simp add: pgno_def)
  then have "unat (a + 4096) = unat a + 4096" by (simp add: unat_plus_if')
  then show ?thesis by (simp add: pgno_def)
qed

lemma mappages_step:
  assumes "pd_ok s pd" "pool_ok s" "pte_of (mem s) pd a AND PTE_P = 0"
    and "free_pages s = [] \<Longrightarrow> Q (- 1) s"
    and "\<And>t. vm_ext pd s t \<Longrightarrow>
      pte_of (mem t) pd = map_range (pte_of (mem s) pd) (pgno a) (Suc 0) pa perm \<Longrightarrow> wp K Q t"
  shows "wp (bnd (walkpgdir pd a True) (\<lambda>pte.
     if pte = 0 then ret (- 1)
     else bnd (ldw pte) (\<lambda>e.
       if e AND PTE_P \<noteq> 0 then panic ''remap''
       else thn (stw pte (pa OR perm OR PTE_P)) K))) Q s"
  unfolding wp_bnd
proof (rule wp_mono [OF walk_alloc [OF assms(1,2), of a]], goal_cases)
  case (1 p t)
  show ?case
  proof (cases "p = 0")
    case True
    then show ?thesis using 1 assms(4) by (simp add: wp_simps)
  next
    case False
    then have t: "pd_ok t pd" "pool_ok t" "mapped (mem t) pd a" "p = slot (mem t) pd a" "vm_ext pd s t"
      using 1 by (auto dest: vm_extD)
    have np: "pte_of (mem t) pd a AND PTE_P = 0" using 1 assms(3) by simp
    have "pte_of (mem (set_pte pd a (pa OR perm OR PTE_P) t)) pd = map_range (pte_of (mem s) pd) (pgno a) (Suc 0) pa perm"
      using 1 pte_of_set_pte [OF t(1,3,2)] by (simp add: map_range_1 fun_eq_iff)
    from assms(5) [OF vm_ext_trans [OF t(5) vm_ext_set_pte [OF t(1,3,2)]] this]
    show ?thesis using t False np by (simp add: wp_def)
  qed
qed

text \<open>
  The outcome of mapping \<open>k + 1\<close> pages from \<open>a\<close>: all of them (result 0), or the first few when the
  allocator ran out of pages (result -1).
\<close>

definition map_done ::
  "u32 \<Rightarrow> 'z kmem_state_scheme \<Rightarrow> u32 \<Rightarrow> nat \<Rightarrow> u32 \<Rightarrow> u32 \<Rightarrow> int \<Rightarrow> 'z kmem_state_scheme \<Rightarrow> bool" where
  "map_done pd s a k pa perm r t \<longleftrightarrow> vm_ext pd s t \<and>
     (r = 0 \<and> pte_of (mem t) pd = map_range (pte_of (mem s) pd) (pgno a) (Suc k) pa perm \<or>
      r = - 1 \<and> free_pages t = [] \<and>
        (\<exists>j\<le>k. pte_of (mem t) pd = map_range (pte_of (mem s) pd) (pgno a) j pa perm))"

lemma map_done_none: "pool_ok s \<Longrightarrow> pd_ok s pd \<Longrightarrow> free_pages s = [] \<Longrightarrow> map_done pd s a k pa perm (- 1) s"
  by (auto simp: map_done_def vm_ext_refl intro: exI [of _ 0])

lemma map_done_Suc:
  assumes "vm_ext pd s t" "pte_of (mem t) pd = map_range (pte_of (mem s) pd) (pgno a) (Suc 0) pa perm"
    "pgno (a + 4096) = Suc (pgno a)" "map_done pd t (a + 4096) k (pa + 4096) perm r u"
  shows "map_done pd s a (Suc k) pa perm r u"
  using assms(4) vm_ext_trans [OF assms(1)] Suc_le_mono
  unfolding map_done_def assms(2,3) map_range_Suc by blast

lemma mappages_loop_ok:
  assumes "pd_ok s pd" "pool_ok s" "k < f" "pgno a + k < 0x100000" "lst = a + of_nat (4096 * k)"
    and "\<And>va. pgno a \<le> pgno va \<Longrightarrow> pgno va \<le> pgno a + k \<Longrightarrow> pte_of (mem s) pd va AND PTE_P = 0"
  shows "wp (mappages_loop f pd a lst pa perm) (map_done pd s a k pa perm) s"
  using assms
proof (induction k arbitrary: f a pa s)
  case (0 f a pa s)
  then obtain f' where f: "f = Suc f'" by (cases f) auto
  show ?case unfolding f mappages_loop.simps
    by (rule mappages_step [OF 0(1,2)]) (use 0 in \<open>auto simp: wp_simps map_done_none, simp add: map_done_def\<close>)
next
  case (Suc k f a pa s)
  then obtain f' where f: "f = Suc f'" by (cases f) auto
  have "(of_nat (4096 * Suc k) :: u32) \<noteq> 0"
    using of_nat_u32_eq_0 [of "4096 * Suc k"] Suc.prems(4) by auto
  then have ne: "a \<noteq> lst" using Suc.prems(5) by (simp del: of_nat_Suc of_nat_mult)
  have nx: "pgno (a + 4096) = Suc (pgno a)" using Suc.prems(4) by (intro pgno_next) simp
  show ?case unfolding f mappages_loop.simps
  proof (rule mappages_step [OF Suc.prems(1,2)])
    show "pte_of (mem s) pd a AND PTE_P = 0" using Suc.prems(6) [of a] by simp
    show "free_pages s = [] \<Longrightarrow> map_done pd s a (Suc k) pa perm (- 1) s" by (rule map_done_none [OF Suc.prems(2,1)])
    fix t assume t: "vm_ext pd s t" "pte_of (mem t) pd = map_range (pte_of (mem s) pd) (pgno a) (Suc 0) pa perm"
    have "wp (mappages_loop f' pd (a + 4096) lst (pa + 4096) perm) (map_done pd t (a + 4096) k (pa + 4096) perm) t"
    proof (rule Suc.IH [OF vm_extD(2) [OF t(1)] vm_extD(1) [OF t(1)]])
      show "k < f'" "pgno (a + 4096) + k < 0x100000" "lst = a + 4096 + of_nat (4096 * k)"
        using Suc.prems f nx by (simp_all add: add.assoc)
      show "pte_of (mem t) pd va AND PTE_P = 0" if "pgno (a + 4096) \<le> pgno va" "pgno va \<le> pgno (a + 4096) + k" for va
        using that Suc.prems(6) [of va] nx by (simp add: t(2) map_range_1)
    qed
    from wp_mono [OF this map_done_Suc [OF t nx]]
    show "wp (if a = lst then ret 0 else mappages_loop f' pd (a + 4096) lst (pa + 4096) perm)
        (map_done pd s a (Suc k) pa perm) t"
      by (simp add: ne)
  qed
qed

text \<open>\<open>mappages\<close> over the pages that \<open>size\<close> bytes from \<open>va\<close> touch.\<close>

lemma pgno_PGROUNDDOWN [simp]: "pgno (PGROUNDDOWN a) = pgno a"
  by (simp add: pgno_def unat_PGROUNDDOWN)

lemma pgno_span:
  assumes "0 < sz" "unat va + unat sz \<le> 2 ^ 32"
  shows "pgno va \<le> pgno (va + sz - 1)"
proof -
  have one: "unat (sz - 1) = unat sz - 1" using assms(1) by (simp add: unat_minus_one word_gt_0)
  have "unat (va + (sz - 1)) = unat va + unat (sz - 1)"
    using assms(2) one unsigned_less [of va, where 'a = nat] by (cases "unat sz") (auto simp: unat_plus_if')
  then have "unat va \<le> unat (va + sz - 1)" by (simp add: add_diff_eq)
  then show ?thesis unfolding pgno_def by (rule div_le_mono)
qed

lemma mappages_ok:
  assumes "pd_ok s pd" "pool_ok s" "0 < sz" "unat va + unat sz \<le> 2 ^ 32"
    and "\<And>v. pgno va \<le> pgno v \<Longrightarrow> pgno v \<le> pgno (va + sz - 1) \<Longrightarrow> pte_of (mem s) pd v AND PTE_P = 0"
  shows "wp (mappages pd va sz pa perm)
    (map_done pd s (PGROUNDDOWN va) (pgno (va + sz - 1) - pgno va) pa perm) s"
proof -
  let ?k = "pgno (va + sz - 1) - pgno va"
  note le = pgno_span [OF assms(3,4)]
  have lt: "pgno (va + sz - 1) < 0x100000"
    using unsigned_less [of "va + sz - 1", where 'a = nat] unfolding pgno_def by simp
  show ?thesis unfolding mappages_def
  proof (rule mappages_loop_ok [OF assms(1,2)])
    show "?k < 0x100000" "pgno (PGROUNDDOWN va) + ?k < 0x100000" using le lt by simp_all
    have "unat (PGROUNDDOWN va) + 4096 * ?k = unat (PGROUNDDOWN (va + sz - 1))"
      using le by (simp add: unat_PGROUNDDOWN pgno_def algebra_simps)
    then have "unat (PGROUNDDOWN va + of_nat (4096 * ?k)) = unat (PGROUNDDOWN (va + sz - 1))"
      by (subst page_at) (use unsigned_less [of "PGROUNDDOWN (va + sz - 1)", where 'a = nat] in simp_all)
    then show "PGROUNDDOWN (va + sz - 1) = PGROUNDDOWN va + of_nat (4096 * ?k)" by (simp add: unat_inj)
  qed (use assms(5) le in auto)
qed

section \<open>Releasing an address space\<close>

definition present :: "bmem \<Rightarrow> u32 \<Rightarrow> u32 \<Rightarrow> bool" where
  "present m pd va \<longleftrightarrow> pte_of m pd va AND PTE_P \<noteq> 0"

text \<open>The kernel address of the page that \<open>va\<close> maps to.\<close>

definition ufr :: "bmem \<Rightarrow> u32 \<Rightarrow> u32 \<Rightarrow> u32" where
  "ufr m pd va = P2V (PTE_ADDR (pte_of m pd va))"

definition urange :: "nat \<Rightarrow> nat \<Rightarrow> u32 set" where
  "urange n b = {va. n \<le> pgno va \<and> 4096 * pgno va < b}"

text \<open>The pages mapped in a range belong to this address space alone.\<close>

definition own :: "'z kmem_state_scheme \<Rightarrow> u32 \<Rightarrow> u32 set \<Rightarrow> bool" where
  "own s pd R \<longleftrightarrow> (\<forall>va\<in>R. present (mem s) pd va \<longrightarrow> frame (kend s) (ufr (mem s) pd va) \<and>
       ufr (mem s) pd va \<notin> tables (mem s) pd \<and> ufr (mem s) pd va \<notin> set (free_pages s)) \<and>
     (\<forall>va\<in>R. \<forall>va'\<in>R. present (mem s) pd va \<longrightarrow> present (mem s) pd va' \<longrightarrow>
       ufr (mem s) pd va = ufr (mem s) pd va' \<longrightarrow> pgno va = pgno va')"

definition released :: "u32 \<Rightarrow> u32 set \<Rightarrow> 'z kmem_state_scheme \<Rightarrow> 'z kmem_state_scheme \<Rightarrow> bool" where
  "released pd R s t \<longleftrightarrow> pool_ok t \<and> pd_ok t pd \<and> tables (mem t) pd = tables (mem s) pd \<and>
     kend t = kend s \<and> mach t = mach s \<and>
     pte_of (mem t) pd = (\<lambda>va. if va \<in> R \<and> present (mem s) pd va then 0 else pte_of (mem s) pd va) \<and>
     set (free_pages t) = set (free_pages s) \<union> ufr (mem s) pd ` {va \<in> R. present (mem s) pd va}"

lemma released_nothing:
  "pool_ok s \<Longrightarrow> pd_ok s pd \<Longrightarrow> (\<And>va. va \<in> R \<Longrightarrow> \<not> present (mem s) pd va) \<Longrightarrow> released pd R s s"
  by (auto simp: released_def fun_eq_iff)

lemma own_mono: "own s pd R \<Longrightarrow> R' \<subseteq> R \<Longrightarrow> own s pd R'"
  unfolding own_def by blast

lemma ownD:
  assumes "own s pd R" "va \<in> R" "present (mem s) pd va"
  shows "frame (kend s) (ufr (mem s) pd va)" "ufr (mem s) pd va \<notin> tables (mem s) pd"
    "ufr (mem s) pd va \<notin> set (free_pages s)"
  using assms unfolding own_def by blast+

lemma own_inj:
  "own s pd R \<Longrightarrow> va \<in> R \<Longrightarrow> va' \<in> R \<Longrightarrow> present (mem s) pd va \<Longrightarrow> present (mem s) pd va' \<Longrightarrow>
   ufr (mem s) pd va = ufr (mem s) pd va' \<Longrightarrow> pgno va = pgno va'"
  unfolding own_def by blast

lemma released_same:
  assumes "released pd R s t" "va \<notin> R"
  shows "pte_of (mem t) pd va = pte_of (mem s) pd va" "present (mem t) pd va = present (mem s) pd va"
    "ufr (mem t) pd va = ufr (mem s) pd va"
  using assms by (simp_all add: released_def present_def ufr_def)

lemma released_own:
  assumes "released pd R s t" "own s pd (R \<union> R')" "\<And>va va'. va \<in> R \<Longrightarrow> va' \<in> R' \<Longrightarrow> pgno va \<noteq> pgno va'"
  shows "own t pd R'"
proof -
  have pt: "present (mem t) pd va = present (mem s) pd va" "ufr (mem t) pd va = ufr (mem s) pd va" if "va \<in> R'" for va
    using released_same [OF assms(1), of va] assms(3) that by blast+
  have "ufr (mem s) pd va \<notin> ufr (mem s) pd ` {va \<in> R. present (mem s) pd va}"
    if "va \<in> R'" "present (mem s) pd va" for va
  proof
    assume "ufr (mem s) pd va \<in> ufr (mem s) pd ` {va \<in> R. present (mem s) pd va}"
    then obtain w where "w \<in> R" "present (mem s) pd w" "ufr (mem s) pd va = ufr (mem s) pd w" by auto
    with own_inj [OF assms(2), of va w] assms(3) [of w va] that show False by simp
  qed
  then have "frame (kend s) (ufr (mem s) pd va) \<and> ufr (mem s) pd va \<notin> tables (mem t) pd \<and>
      ufr (mem s) pd va \<notin> set (free_pages t)" if "va \<in> R'" "present (mem s) pd va" for va
    using that assms(1) ownD [OF assms(2), of va] by (simp add: released_def)
  moreover have "kend t = kend s" using assms(1) by (simp add: released_def)
  ultimately show ?thesis unfolding own_def
    by (intro conjI ballI impI own_inj [OF assms(2)]) (simp_all add: pt)
qed

lemma released_trans:
  assumes "released pd R s t" "released pd R' t u" "\<And>va va'. va \<in> R \<Longrightarrow> va' \<in> R' \<Longrightarrow> pgno va \<noteq> pgno va'"
  shows "released pd (R \<union> R') s u"
proof -
  have pt: "present (mem t) pd va = present (mem s) pd va" "ufr (mem t) pd va = ufr (mem s) pd va" if "va \<in> R'" for va
    using released_same [OF assms(1), of va] assms(3) that by blast+
  have "ufr (mem t) pd ` {va \<in> R'. present (mem t) pd va} = ufr (mem s) pd ` {va \<in> R'. present (mem s) pd va}"
    using pt by (intro image_cong) auto
  moreover have "{va \<in> R \<union> R'. present (mem s) pd va} =
      {va \<in> R. present (mem s) pd va} \<union> {va \<in> R'. present (mem s) pd va}" by auto
  ultimately have "set (free_pages u) = set (free_pages s) \<union> ufr (mem s) pd ` {va \<in> R \<union> R'. present (mem s) pd va}"
    using assms(1,2) by (simp add: released_def image_Un Un_assoc)
  moreover have "pte_of (mem u) pd = (\<lambda>va. if va \<in> R \<union> R' \<and> present (mem s) pd va then 0 else pte_of (mem s) pd va)"
    using assms(1,2) pt by (auto simp: released_def fun_eq_iff)
  ultimately show ?thesis using assms(1,2) by (simp add: released_def)
qed

lemma push_page_agree:
  assumes "frame e x" "\<And>y. y \<in> S \<Longrightarrow> frame e y \<and> y \<noteq> x"
  shows "agree S (mem s) (mem (push_page x s))"
  unfolding push_page_def
  by (simp, rule agree_trans [OF agree_memset [OF assms(1)] agree_st32 [OF assms(1)]]) (use assms(2) in auto)

lemma push_page_pd:
  assumes "pool_ok s" "pd_ok s pd" "frame (kend s) x" "x \<notin> set (free_pages s)" "x \<notin> tables (mem s) pd"
  shows "pool_ok (push_page x s)" "free_pages (push_page x s) = x # free_pages s" "pd_ok (push_page x s) pd"
    "tables (mem (push_page x s)) pd = tables (mem s) pd" "mapped (mem (push_page x s)) pd = mapped (mem s) pd"
    "pte_of (mem (push_page x s)) pd = pte_of (mem s) pd" "slot (mem (push_page x s)) pd = slot (mem s) pd"
proof -
  have ag: "agree (tables (mem s) pd) (mem s) (mem (push_page x s))"
    using pd_okD(2) [OF assms(2)] assms(3,5) by (intro push_page_agree) auto
  then have agp: "agree {pd} (mem s) (mem (push_page x s))" by (rule agree_mono) simp
  show p: "pool_ok (push_page x s)" "free_pages (push_page x s) = x # free_pages s"
    using push_page_ok [of s x] assms(1,3,4) by (auto simp: pool_ok_def)
  show t: "tables (mem (push_page x s)) pd = tables (mem s) pd" by (rule tables_agree [OF agp])
  show "mapped (mem (push_page x s)) pd = mapped (mem s) pd" "pte_of (mem (push_page x s)) pd = pte_of (mem s) pd"
    using pte_of_agree [OF assms(2) ag] by auto
  show "slot (mem (push_page x s)) pd = slot (mem s) pd"
    by (rule ext) (simp add: slot_def tab_agree [OF agp])
  have "has_tab (mem (push_page x s)) pd i = has_tab (mem s) pd i" "tab (mem (push_page x s)) pd i = tab (mem s) pd i"
    if "i < 1024" for i using has_tab_agree [OF agp _ that] tab_agree [OF agp _ that] by simp_all
  then show "pd_ok (push_page x s) pd"
    unfolding pd_ok_def t p(2) using pd_okD [OF assms(2)] assms(5) by auto
qed

lemma procs_upd [simp]: "pool_ok (s\<lparr>procs := ps\<rparr>) = pool_ok s" "pd_ok (s\<lparr>procs := ps\<rparr>) pd = pd_ok s pd"
  "free_pages (s\<lparr>procs := ps\<rparr>) = free_pages s"
  by (simp_all add: pool_ok_def kmem_ok_def free_pages_def pd_ok_def)

lemma pte_of_pgno: "pgno va = pgno va' \<Longrightarrow> pte_of m pd va = pte_of m pd va'"
  by (simp add: pgno_eq_iff pte_of_def mapped_def slot_def)

lemma present_pgno: "pgno va = pgno va' \<Longrightarrow> present m pd va = present m pd va'"
  and ufr_pgno: "pgno va = pgno va' \<Longrightarrow> ufr m pd va = ufr m pd va'"
  by (simp_all add: present_def ufr_def pte_of_pgno [of va va'])

definition page_of :: "u32 \<Rightarrow> u32 set" where
  "page_of a = {va. pgno va = pgno a}"

lemma released_page:
  assumes "pd_ok s pd" "pool_ok s" "mapped (mem s) pd a" "present (mem s) pd a" "own s pd (page_of a)"
  shows "released pd (page_of a) s ((set_pte pd a 0 (push_page (ufr (mem s) pd a) s))\<lparr>procs := ps\<rparr>)"
proof -
  let ?x = "ufr (mem s) pd a" and ?p = "push_page (ufr (mem s) pd a) s"
  have x: "frame (kend s) ?x" "?x \<notin> tables (mem s) pd" "?x \<notin> set (free_pages s)"
    using ownD [OF assms(5) _ assms(4)] by (auto simp: page_of_def)
  note p = push_page_pd [OF assms(2,1) x(1,3,2)]
  have m: "mapped (mem ?p) pd a" using p(5) assms(3) by simp
  note q = set_pte_ok [OF p(3) m p(1), of 0]
  have pr: "present (mem s) pd va" "ufr (mem s) pd va = ?x" if "va \<in> page_of a" for va
    using that assms(4) present_pgno [of va a] ufr_pgno [of va a] by (simp_all add: page_of_def)
  have "{va \<in> page_of a. present (mem s) pd va} = page_of a" using pr(1) by auto
  moreover have "ufr (mem s) pd ` page_of a = {?x}"
  proof -
    have "ufr (mem s) pd ` page_of a = (\<lambda>_. ?x) ` page_of a" by (rule image_cong [OF refl pr(2)])
    then show ?thesis by (auto simp: image_constant_conv page_of_def)
  qed
  moreover have "pte_of (mem (set_pte pd a 0 ?p)) pd = (\<lambda>va. if va \<in> page_of a \<and> present (mem s) pd va then 0 else pte_of (mem s) pd va)"
    unfolding fun_eq_iff pte_of_set_pte [OF p(3) m p(1)] p(6) using pr(1) by (simp add: page_of_def)
  moreover define u where "u = set_pte pd a 0 ?p"
  moreover from q(1-4) p(2,4) have "free_pages u = ?x # free_pages s" "pool_ok u" "pd_ok u pd"
    "tables (mem u) pd = tables (mem s) pd" "kend u = kend s" "mach u = mach s"
    unfolding u_def by (simp_all del: set_pte_sel(5))
  ultimately show ?thesis unfolding released_def by simp
qed

lemma wp_released:
  assumes "released pd R s t" "own s pd (R \<union> R')" "\<And>va va'. va \<in> R \<Longrightarrow> va' \<in> R' \<Longrightarrow> pgno va \<noteq> pgno va'"
    and "own t pd R' \<Longrightarrow> wp m (\<lambda>_ u. released pd R' t u) t"
  shows "wp m (\<lambda>_ u. released pd (R \<union> R') s u) t"
  using assms(4) [OF released_own [OF assms(1-3)]]
proof (rule wp_mono)
  fix u assume "released pd R' t u"
  from released_trans [OF assms(1) this assms(3)] show "released pd (R \<union> R') s u" by simp
qed

lemma PGADDR_next:
  assumes "unat a < 0x80000000"
  shows "pgno (PGADDR (PDX a + 1) 0 0 - 4096 + 4096) = 1024 * (unat (PDX a) + 1)"
    "4096 dvd unat (PGADDR (PDX a + 1) 0 0 - 4096 + 4096)"
proof -
  have d: "unat (PDX a) < 512" using assms by (simp add: unat_PDX)
  then have "unat (PDX a + 1) = unat (PDX a) + 1" by (simp add: unat_plus_if')
  then have "unat ((PDX a + 1) * 4194304) = (unat (PDX a) + 1) * 4194304"
    unfolding unat_word_ariths(2) using d by simp
  moreover have "PGADDR (PDX a + 1) 0 0 = (PDX a + 1) * 4194304"
    by (simp add: PGADDR_def push_bit_eq_mult)
  ultimately have "unat (PGADDR (PDX a + 1) 0 0 - 4096 + 4096) = (unat (PDX a) + 1) * 4194304"
    by (simp only: diff_add_cancel)
  then show "pgno (PGADDR (PDX a + 1) 0 0 - 4096 + 4096) = 1024 * (unat (PDX a) + 1)"
    "4096 dvd unat (PGADDR (PDX a + 1) 0 0 - 4096 + 4096)"
    by (simp_all add: pgno_def)
qed

lemma PDX_pgno: "unat (PDX va) = pgno va div 1024"
  unfolding unat_PDX pgno_def by (simp flip: div_mult2_eq)

lemma urange_empty: "4096 dvd unat a \<Longrightarrow> b \<le> unat a \<Longrightarrow> urange (pgno a) b = {}"
  by (auto simp: urange_def pgno_def elim!: dvdE)

lemma dealloc_end: "\<not> a < b \<Longrightarrow> deallocuvm_loop (Suc n) pd a b s = Inr ((), s)"
  by (simp add: ret_def)

lemma dealloc_unmapped:
  "pd_ok s pd \<Longrightarrow> a < b \<Longrightarrow> \<not> mapped (mem s) pd a \<Longrightarrow>
   deallocuvm_loop (Suc n) pd a b s = deallocuvm_loop n pd (PGADDR (PDX a + 1) 0 0 - 4096 + 4096) b s"
  by (simp only: deallocuvm_loop.simps) (simp del: diff_add_cancel)

lemma dealloc_absent:
  "pd_ok s pd \<Longrightarrow> a < b \<Longrightarrow> mapped (mem s) pd a \<Longrightarrow> \<not> present (mem s) pd a \<Longrightarrow>
   deallocuvm_loop (Suc n) pd a b s = deallocuvm_loop n pd (a + 4096) b s"
  using slot_eq(3) [of s pd a] by (simp only: deallocuvm_loop.simps) (simp add: present_def)

definition forget_op :: "u32 \<Rightarrow> u32 \<Rightarrow> ('z vm_state_scheme, unit) kop" where
  "forget_op pd a = bnd select_NONE (\<lambda>none. whn (\<not> none) (bnd curproc (\<lambda>i. upd_proc i (ram_forget pd a))))"

lemma forget_op_ok:
  assumes "mach_ok (mach s)" "cur_of (mach s) = Some i"
  shows "\<exists>ps. forget_op pd a s = Inr ((), s\<lparr>procs := ps\<rparr>)"
proof (cases "policy s = NONE")
  case True
  then have "forget_op pd a s = Inr ((), s\<lparr>procs := procs s\<rparr>)"
    by (simp add: forget_op_def select_NONE_def whn_def ret_def)
  then show ?thesis by blast
next
  case False
  then have "forget_op pd a s = Inr ((), s\<lparr>procs := (procs s)(i := ram_forget pd a (procs s i))\<rparr>)"
    using assms by (simp add: forget_op_def select_NONE_def whn_def upd_proc_def upd_def)
  then show ?thesis by blast
qed

lemma dealloc_present:
  assumes "pd_ok s pd" "pool_ok s" "cur_of (mach s) = Some i" "a < b" "mapped (mem s) pd a"
    "present (mem s) pd a" "own s pd (page_of a)"
  shows "\<exists>t. released pd (page_of a) s t \<and> deallocuvm_loop (Suc n) pd a b s = deallocuvm_loop n pd (a + 4096) b t"
proof -
  let ?x = "ufr (mem s) pd a"
  have x: "frame (kend s) ?x" "?x \<notin> tables (mem s) pd" "?x \<notin> set (free_pages s)"
    using ownD [OF assms(7) _ assms(6)] by (auto simp: page_of_def)
  have nz: "PTE_ADDR (pte_of (mem s) pd a) \<noteq> 0"
    using frame_range(1) [OF x(1) pd_okD(3) [OF assms(1)]] by (auto simp: ufr_def P2V_def)
  note p = push_page_pd [OF assms(2,1) x(1,3,2)]
  have kf: "kfree ?x s = Inr ((), push_page ?x s)"
    using assms(2) x(1) by (intro kfree_ok) (auto simp: pool_ok_def)
  obtain ps where ps: "forget_op pd a (push_page ?x s) = Inr ((), (push_page ?x s)\<lparr>procs := ps\<rparr>)"
    using forget_op_ok [of "push_page ?x s" i pd a] assms(2,3) by (auto simp: pool_ok_def)
  let ?t = "(set_pte pd a 0 (push_page ?x s))\<lparr>procs := ps\<rparr>"
  have st: "stw (slot (mem s) pd a) 0 ((push_page ?x s)\<lparr>procs := ps\<rparr>) = Inr ((), ?t)"
    using slot_eq(3) [OF assms(1,5)] p(7) by (simp add: stw_def set_pte_def upd_def)
  have "deallocuvm_loop (Suc n) pd a b s = deallocuvm_loop n pd (a + 4096) b ?t"
    unfolding deallocuvm_loop.simps forget_op_def [symmetric]
    using assms(1,4-6) slot_eq(3) [OF assms(1,5)] nz kf ps st by (simp add: present_def ufr_def)
  then show ?thesis using released_page [OF assms(1,2,5,6,7)] by blast
qed

text \<open>Below the next page table boundary a missing table maps nothing.\<close>

lemma dealloc_gap:
  assumes "unat a < 0x80000000"
  defines "na \<equiv> PGADDR (PDX a + 1) 0 0 - 4096 + 4096"
  shows "pgno a < pgno na"
    and "pd_ok s pd \<Longrightarrow> pool_ok s \<Longrightarrow> \<not> mapped (mem s) pd a \<Longrightarrow>
      released pd {va \<in> urange (pgno a) b. pgno va < pgno na} s s"
proof -
  note nx = PGADDR_next [OF assms(1), folded na_def]
  show "pgno a < pgno na" unfolding nx(1) PDX_pgno
    using dividend_less_div_times [of 1024 "pgno a"] by simp
  assume s: "pd_ok s pd" "pool_ok s" and not: "\<not> mapped (mem s) pd a"
  have "\<not> present (mem s) pd va" if "va \<in> {va \<in> urange (pgno a) b. pgno va < pgno na}" for va
  proof -
    have "pgno va < (pgno a div 1024 + 1) * 1024" "pgno a \<le> pgno va"
      using that unfolding nx(1) unfolding PDX_pgno urange_def by simp_all
    then have "pgno va div 1024 < pgno a div 1024 + 1" "pgno a div 1024 \<le> pgno va div 1024"
      by (simp_all only: div_less_iff_less_mult zero_less_numeral div_le_mono)
    then have "unat (PDX va) = unat (PDX a)" unfolding PDX_pgno by linarith
    then show ?thesis using not by (simp add: present_def pte_of_def mapped_def)
  qed
  then show "released pd {va \<in> urange (pgno a) b. pgno va < pgno na} s s" by (rule released_nothing [OF s(2,1)])
qed

lemma deallocuvm_loop_ok:
  assumes "pd_ok s pd" "pool_ok s" "cur_of (mach s) = Some i" "4096 dvd unat a"
    "unat b \<le> 0x80000000" "unat b \<le> unat a + 4096 * f" "own s pd (urange (pgno a) (unat b))"
  shows "wp (deallocuvm_loop (Suc f) pd a b) (\<lambda>_ t. released pd (urange (pgno a) (unat b)) s t) s"
  using assms
proof (induction f arbitrary: s a)
  case 0
  then have "\<not> a < b" by (simp add: word_less_nat_alt)
  moreover have "urange (pgno a) (unat b) = {}" by (rule urange_empty) (use 0 in simp_all)
  ultimately show ?case using 0 released_nothing [of s pd "{}"] by (simp add: wp_simps)
next
  case (Suc f)
  show ?case
  proof (cases "a < b")
    case False
    then have "urange (pgno a) (unat b) = {}"
      by (intro urange_empty Suc.prems) (simp add: word_less_nat_alt)
    then show ?thesis using False Suc.prems released_nothing [of s pd "{}"] by (simp add: wp_simps)
  next
    case True
    then have ab: "unat a < unat b" by (simp add: word_less_nat_alt)
    then have a31: "unat a < 0x80000000" using Suc.prems(5) by simp
    have next_a: "unat (a + 4096) = unat a + 4096" using a31 by (simp add: unat_plus_if')
    have pn: "pgno (a + 4096) = Suc (pgno a)" by (simp add: pgno_def next_a)
    have un: "page_of a \<union> urange (Suc (pgno a)) (unat b) = urange (pgno a) (unat b)"
      using ab Suc.prems(4) by (auto simp: page_of_def urange_def pgno_def elim!: dvdE)
    show ?thesis
    proof (cases "mapped (mem s) pd a")
      case False
      let ?a = "PGADDR (PDX a + 1) 0 0 - 4096 + 4096"
      let ?R = "{va \<in> urange (pgno a) (unat b). pgno va < pgno ?a}"
      note nx = PGADDR_next [OF a31]
      note lt = dealloc_gap(1) [OF a31] and rel = dealloc_gap(2) [OF a31 Suc.prems(1,2) False]
      have u2: "?R \<union> urange (pgno ?a) (unat b) = urange (pgno a) (unat b)" using lt by (auto simp: urange_def)
      have "wp (deallocuvm_loop (Suc f) pd ?a b) (\<lambda>_ u. released pd (?R \<union> urange (pgno ?a) (unat b)) s u) s"
      proof (rule wp_released [OF rel])
        show "own s pd (?R \<union> urange (pgno ?a) (unat b))" unfolding u2 by (rule Suc.prems)
        show "own s pd (urange (pgno ?a) (unat b)) \<Longrightarrow> wp (deallocuvm_loop (Suc f) pd ?a b)
          (\<lambda>_ u. released pd (urange (pgno ?a) (unat b)) s u) s"
          by (rule Suc.IH) (use Suc.prems nx lt in \<open>auto simp: pgno_def elim!: dvdE\<close>)
      qed (auto simp: urange_def)
      then show ?thesis unfolding u2 wp_def dealloc_unmapped [OF Suc.prems(1) True False] .
    next
      case m: True
      have disj: "pgno va \<noteq> pgno va'" if "va \<in> page_of a" "va' \<in> urange (Suc (pgno a)) (unat b)" for va va'
        using that by (auto simp: page_of_def urange_def)
      have rec: "wp (deallocuvm_loop (Suc f) pd (a + 4096) b) (\<lambda>_ u. released pd (urange (pgno a) (unat b)) s u) t"
        if rel: "released pd (page_of a) s t" for t
        unfolding un [symmetric]
      proof (rule wp_released [OF rel _ disj])
        show "own s pd (page_of a \<union> urange (Suc (pgno a)) (unat b))" unfolding un by (rule Suc.prems)
        show "own t pd (urange (Suc (pgno a)) (unat b)) \<Longrightarrow> wp (deallocuvm_loop (Suc f) pd (a + 4096) b)
          (\<lambda>_ u. released pd (urange (Suc (pgno a)) (unat b)) t u) t"
          unfolding pn [symmetric]
          by (rule Suc.IH) (use Suc.prems rel next_a in \<open>auto simp: released_def\<close>)
      qed
      show ?thesis
      proof (cases "present (mem s) pd a")
        case False
        have "released pd (page_of a) s s"
          by (rule released_nothing [OF Suc.prems(2,1)])
            (use False present_pgno [of _ a] in \<open>unfold page_of_def, blast\<close>)
        from rec [OF this] show ?thesis unfolding wp_def dealloc_absent [OF Suc.prems(1) True m False] .
      next
        case pr: True
        have ow: "own s pd (page_of a)" by (rule own_mono [OF Suc.prems(7)]) (use un in blast)
        from dealloc_present [OF Suc.prems(1-3) True m pr ow, of "Suc f"] obtain t
          where t: "released pd (page_of a) s t"
            "deallocuvm_loop (Suc (Suc f)) pd a b s = deallocuvm_loop (Suc f) pd (a + 4096) b t" by blast
        from rec [OF t(1)] show ?thesis unfolding wp_def t(2) .
      qed
    qed
  qed
qed

lemma deallocuvm_ok:
  assumes "pd_ok s pd" "pool_ok s" "cur_of (mach s) = Some i" "newsz < oldsz" "unat oldsz \<le> 0x80000000"
    and "own s pd (urange ((unat newsz + 4095) div 4096) (unat oldsz))"
  shows "wp (deallocuvm pd oldsz newsz) (\<lambda>r t. r = newsz \<and>
    released pd (urange ((unat newsz + 4095) div 4096) (unat oldsz)) s t) s"
proof -
  have lt: "unat newsz < unat oldsz" using assms(4) by (simp add: word_less_nat_alt)
  then have up: "unat (PGROUNDUP newsz) = (unat newsz + 4095) div 4096 * 4096"
    using assms(5) by (intro unat_PGROUNDUP) simp
  then have pg: "pgno (PGROUNDUP newsz) = (unat newsz + 4095) div 4096" by (simp add: pgno_def)
  have "wp (deallocuvm_loop (Suc 0x100000) pd (PGROUNDUP newsz) oldsz)
      (\<lambda>_ t. released pd (urange (pgno (PGROUNDUP newsz)) (unat oldsz)) s t) s"
    by (rule deallocuvm_loop_ok [OF assms(1-3)]) (use assms(5,6) in \<open>simp_all add: up pg\<close>)
  then show ?thesis
    using leD [OF assms(4) [THEN less_imp_le]] assms(4)
    by (simp add: deallocuvm_def wp_simps pg not_le [symmetric] del: deallocuvm_loop.simps)
qed

definition tabs_freed :: "u32 \<Rightarrow> 'z kmem_state_scheme \<Rightarrow> nat \<Rightarrow> 'z kmem_state_scheme \<Rightarrow> bool" where
  "tabs_freed pd s k t \<longleftrightarrow> pool_ok t \<and> kend t = kend s \<and> mach t = mach s \<and> agree {pd} (mem s) (mem t) \<and>
     set (free_pages t) = set (free_pages s) \<union> {tab (mem s) pd i | i. i < k \<and> has_tab (mem s) pd i}"

lemma free_table_ok:
  assumes "pd_ok s pd" "k < 1024" "tabs_freed pd s k t"
  shows "wp (free_table pd k) (\<lambda>_. tabs_freed pd s (Suc k)) t"
proof -
  have f: "frame (kend s) pd" "4096 dvd unat pd" "0x80000000 < unat pd"
    using pd_okD(1) [OF assms(1)] frame_range(1) [OF pd_okD(1) [OF assms(1)] pd_okD(3) [OF assms(1)]]
    by (simp_all add: frame_def)
  have "unat (pd + 4 * of_nat k) = unat pd + 4 * unat (of_nat k :: u32)"
    by (rule slot_addr) (use f assms(2) in \<open>simp_all add: unat_of_nat\<close>)
  then have addr: "unat (pd + of_nat (4 * k)) = unat pd + 4 * k" using assms(2) by (simp add: unat_of_nat)
  then have nz: "pd + of_nat (4 * k) \<noteq> 0" using f(3) by (auto simp flip: unat_0_iff)
  have same: "pde_at (mem t) pd k = pde_at (mem s) pd k"
    using assms(3) pde_at_agree [of "{pd}" "mem s" "mem t" pd k] assms(2) by (simp add: tabs_freed_def)
  have ld: "ldw (pd + of_nat (4 * k)) t = Inr (pde_at (mem s) pd k, t)"
    using nz addr same by (simp add: ldw_def rd_def pde_at_def)
  have Suc_set: "{tab (mem s) pd i | i. i < Suc k \<and> has_tab (mem s) pd i} =
      (if has_tab (mem s) pd k then insert (tab (mem s) pd k) else id) {tab (mem s) pd i | i. i < k \<and> has_tab (mem s) pd i}"
    by (auto simp: less_Suc_eq)
  show ?thesis
  proof (cases "has_tab (mem s) pd k")
    case False
    then have "tabs_freed pd s (Suc k) t" using assms(3) by (simp add: tabs_freed_def Suc_set)
    then show ?thesis using False ld by (simp add: free_table_def wp_def whn_def ret_def has_tab_def)
  next
    case True
    let ?x = "tab (mem s) pd k"
    have x: "frame (kend t) ?x" "?x \<notin> set (free_pages t)" "?x \<noteq> pd"
    proof -
      have "?x \<in> tables (mem s) pd" using tab_in_tables [OF True assms(2)] .
      then show "frame (kend t) ?x" "?x \<noteq> pd"
        using pd_okD(2,5) [OF assms(1)] assms(2,3) True by (auto simp: tabs_freed_def)
      have "?x \<noteq> tab (mem s) pd i" if "i < k" "has_tab (mem s) pd i" for i
        using pd_okD(6) [OF assms(1), of k i] that True assms(2) by auto
      then show "?x \<notin> set (free_pages t)"
        using pd_okD(4) [OF assms(1) \<open>?x \<in> tables (mem s) pd\<close>] assms(3) by (auto simp: tabs_freed_def)
    qed
    have kf: "kfree ?x t = Inr ((), push_page ?x t)"
      using assms(3) x(1) by (intro kfree_ok) (auto simp: tabs_freed_def pool_ok_def)
    have ag: "agree {pd} (mem s) (mem (push_page ?x t))"
      using assms(3) x f by (intro agree_trans [OF _ push_page_agree [OF x(1)]]) (auto simp: tabs_freed_def)
    have "tabs_freed pd s (Suc k) (push_page ?x t)"
      using assms(3) True x ag push_page_ok [of t ?x] by (auto simp: tabs_freed_def Suc_set pool_ok_def)
    then show ?thesis using ld kf True
      by (simp add: free_table_def wp_def whn_def has_tab_def tab_def)
  qed
qed

lemma freevm_ok:
  assumes "pd_ok s pd" "pool_ok s" "cur_of (mach s) = Some i" "own s pd (urange 0 0x80000000)"
  shows "wp (freevm pd) (\<lambda>_ t. pool_ok t \<and> set (free_pages t) = set (free_pages s) \<union> tables (mem s) pd \<union>
    ufr (mem s) pd ` {va \<in> urange 0 0x80000000. present (mem s) pd va}) s"
proof -
  let ?U = "ufr (mem s) pd ` {va \<in> urange 0 0x80000000. present (mem s) pd va}"
  have nz: "pd \<noteq> 0" using frame_nonzero [OF pd_okD(1) [OF assms(1)] pd_okD(3) [OF assms(1)]] .
  have "wp (deallocuvm pd KERNBASE 0) (\<lambda>r t. r = 0 \<and> released pd (urange 0 0x80000000) s t) s"
    using deallocuvm_ok [OF assms(1-3), of 0 KERNBASE] assms(4) by simp
  then show ?thesis unfolding freevm_def if_not_P [OF nz] wp_thn
  proof (rule wp_mono, elim conjE)
    fix t assume r: "released pd (urange 0 0x80000000) s t"
    then have t: "pd_ok t pd" "pool_ok t" "tables (mem t) pd = tables (mem s) pd" "kend t = kend s"
      "set (free_pages t) = set (free_pages s) \<union> ?U" by (simp_all add: released_def)
    have "wp (each (free_table pd) [0..<1024]) (\<lambda>_. tabs_freed pd t 1024) t"
      by (rule wp_each_upto, erule free_table_ok [OF t(1)], assumption)
        (use t(2) in \<open>simp add: tabs_freed_def agree_def\<close>)
    then show "wp (each (free_table pd) [0..<1024]) (\<lambda>_. wp (kfree pd)
        (\<lambda>_ t. pool_ok t \<and> set (free_pages t) = set (free_pages s) \<union> tables (mem s) pd \<union> ?U)) t"
    proof (rule wp_mono)
      fix u assume u: "tabs_freed pd t 1024 u"
      have fr: "frame (kend u) pd" using pd_okD(1) [OF t(1)] u by (simp add: tabs_freed_def)
      have tb: "tables (mem t) pd = insert pd {tab (mem t) pd i | i. i < 1024 \<and> has_tab (mem t) pd i}"
        by (simp add: tables_def)
      have "pd \<notin> set (free_pages u)"
      proof
        assume "pd \<in> set (free_pages u)"
        then obtain i where "i < 1024" "has_tab (mem t) pd i" "tab (mem t) pd i = pd"
          using u pd_okD(4) [OF t(1), of pd] by (auto simp: tabs_freed_def)
        then show False using pd_okD(5) [OF t(1)] by blast
      qed
      with u fr have "pool_ok (push_page pd u)" "free_pages (push_page pd u) = pd # free_pages u"
        using push_page_ok [of u pd] by (auto simp: tabs_freed_def pool_ok_def)
      moreover have "set (free_pages u) = set (free_pages s) \<union> ?U \<union> {tab (mem t) pd i | i. i < 1024 \<and> has_tab (mem t) pd i}"
        using u t(5) by (simp add: tabs_freed_def)
      moreover have "kfree pd u = Inr ((), push_page pd u)"
        using u fr by (intro kfree_ok) (auto simp: tabs_freed_def pool_ok_def)
      ultimately show "wp (kfree pd) (\<lambda>_ t. pool_ok t \<and> set (free_pages t) =
          set (free_pages s) \<union> tables (mem s) pd \<union> ?U) u"
        unfolding t(3) [symmetric] tb by (simp add: wp_def) blast
    qed
  qed
qed

section \<open>Paging an entry out and in\<close>

definition out_entry :: "u32 \<Rightarrow> u32" where
  "out_entry e = ((e OR PTE_PG) AND NOT PTE_P) AND PTE_FLAGS ((e OR PTE_PG) AND NOT PTE_P)"

definition in_entry :: "u32 \<Rightarrow> u32 \<Rightarrow> u32" where
  "in_entry pa e = ((e OR PTE_P OR PTE_W OR PTE_U) AND NOT PTE_PG) OR pa"

lemma flag_powers: "PTE_P = 2 ^ 0" "PTE_W = 2 ^ 1" "PTE_U = 2 ^ 2" "PTE_A = 2 ^ 5" "PTE_PG = 2 ^ 9"
  by simp_all

lemma bit_power: "k < 32 \<Longrightarrow> bit (2 ^ k :: u32) n \<longleftrightarrow> n = k"
  by (auto simp: bit_exp_iff)

lemma flag_bits: "bit PTE_P n \<longleftrightarrow> n = 0" "bit PTE_W n \<longleftrightarrow> n = 1" "bit PTE_U n \<longleftrightarrow> n = 2"
  "bit PTE_A n \<longleftrightarrow> n = 5" "bit PTE_PG n \<longleftrightarrow> n = 9"
  using bit_power [of 0 n] bit_power [of 1 n] bit_power [of 2 n] bit_power [of 5 n] bit_power [of 9 n] by simp_all

lemma and_flag: "e AND PTE_P = 0 \<longleftrightarrow> \<not> bit e 0" "e AND PTE_A = 0 \<longleftrightarrow> \<not> bit e 5" "e AND PTE_PG = 0 \<longleftrightarrow> \<not> bit e 9"
  "e AND PTE_U = 0 \<longleftrightarrow> \<not> bit e 2"
  using and_exp_eq_0_iff_not_bit [of e 0] and_exp_eq_0_iff_not_bit [of e 5] and_exp_eq_0_iff_not_bit [of e 9]
    and_exp_eq_0_iff_not_bit [of e 2] by simp_all

lemma bit_out_entry: "bit (out_entry e) n \<longleftrightarrow> n < 12 \<and> n \<noteq> 0 \<and> (n = 9 \<or> bit e n)"
  unfolding out_entry_def
  by (auto simp only: bit_and_iff bit_or_iff bit_not_iff flag_bits bit_PTE_FLAGS possible_bit_word) auto

lemma bit_in_entry: "bit (in_entry pa e) n \<longleftrightarrow> bit pa n \<or> (n \<noteq> 9 \<and> (n < 3 \<or> bit e n))"
  unfolding in_entry_def
  by (auto simp only: bit_and_iff bit_or_iff bit_not_iff flag_bits possible_bit_word dest: bit_imp_le_length) auto

lemma page_out_ok:
  assumes "pd_ok s pd" "mapped (mem s) pd va" "mach_ok (mach s)" "cur_of (mach s) = Some i"
  shows "page_out va pd s = Inr ((), (set_pte pd va (out_entry (pte_of (mem s) pd va)) s)
    \<lparr>procs := (procs s)(i := (procs s i)\<lparr>p_protected := p_protected (procs s i) + 1\<rparr>),
      cr3 := V2P (p_pgdir (procs s i))\<rparr>)"
  using assms slot_eq(3) [OF assms(1,2)]
  by (simp add: page_out_def ldw_def stw_def upd_proc_def set_pte_def upd_def rd_def out_entry_def pte_of_def)

lemma page_in_ok:
  assumes "pd_ok s pd" "mapped (mem s) pd va" "mach_ok (mach s)" "cur_of (mach s) = Some i"
  shows "page_in va pa pd s = Inr ((), (set_pte pd va (in_entry pa (pte_of (mem s) pd va)) s)
    \<lparr>procs := (procs s)(i := (procs s i)\<lparr>p_protected := p_protected (procs s i) - 1\<rparr>),
      cr3 := V2P (p_pgdir (procs s i))\<rparr>)"
  using assms slot_eq(3) [OF assms(1,2)]
  by (simp add: page_in_def ldw_def stw_def upd_proc_def set_pte_def upd_def rd_def in_entry_def pte_of_def)

lemma cr3_upd [simp]: "pool_ok (s\<lparr>cr3 := c\<rparr>) = pool_ok s" "pd_ok (s\<lparr>cr3 := c\<rparr>) pd = pd_ok s pd"
  "free_pages (s\<lparr>cr3 := c\<rparr>) = free_pages s"
  by (simp_all add: pool_ok_def kmem_ok_def free_pages_def pd_ok_def)

text \<open>After a page is paged out and in again at physical page \<open>pa\<close>.\<close>

lemma in_out_entry:
  assumes "4096 dvd unat pa"
  shows "PTE_ADDR (in_entry pa (out_entry e)) = pa"
    and "PTE_FLAGS (in_entry pa (out_entry e)) = (PTE_FLAGS e OR PTE_P OR PTE_W OR PTE_U) AND NOT PTE_PG"
    and "in_entry pa (out_entry e) AND PTE_P \<noteq> 0" "in_entry pa (out_entry e) AND PTE_PG = 0"
proof -
  note a = aligned_bits [OF assms]
  show "PTE_ADDR (in_entry pa (out_entry e)) = pa"
    using a by (intro bit_word_eqI) (auto simp: bit_PTE_ADDR bit_in_entry bit_out_entry, meson not_less)
  show "PTE_FLAGS (in_entry pa (out_entry e)) = (PTE_FLAGS e OR PTE_P OR PTE_W OR PTE_U) AND NOT PTE_PG"
  proof (rule bit_word_eqI)
    fix n :: nat
    have "n < 3 \<longleftrightarrow> n = 0 \<or> n = 1 \<or> n = 2" by auto
    then show "bit (PTE_FLAGS (in_entry pa (out_entry e))) n =
        bit ((PTE_FLAGS e OR PTE_P OR PTE_W OR PTE_U) AND NOT PTE_PG) n"
      using a by (auto simp only: bit_and_iff bit_or_iff bit_not_iff flag_bits possible_bit_word bit_PTE_FLAGS
          bit_in_entry bit_out_entry) auto
  qed
  show "in_entry pa (out_entry e) AND PTE_P \<noteq> 0" "in_entry pa (out_entry e) AND PTE_PG = 0"
    using a [of 9] by (simp_all add: and_flag bit_in_entry bit_out_entry)
qed

section \<open>Choosing the page to evict\<close>

lemma scfifo_fold:
  "fold (scfifo_step ram) xs (r0, f0) = (r, f) \<Longrightarrow>
   f \<le> f0 \<and> (r = r0 \<and> f = f0 \<or> (\<exists>k\<in>set xs. r = Some k \<and> pm_used (ram k) \<and> f = pm_place (ram k))) \<and>
   (\<forall>j\<in>set xs. pm_used (ram j) \<longrightarrow> f \<le> pm_place (ram j))"
proof (induction xs arbitrary: r0 f0)
  case (Cons x xs)
  show ?case
  proof (cases "pm_place (ram x) \<le> f0 \<and> pm_used (ram x)")
    case True
    then have "scfifo_step ram x (r0, f0) = (Some x, pm_place (ram x))" by (simp add: scfifo_step_def)
    then have "fold (scfifo_step ram) xs (Some x, pm_place (ram x)) = (r, f)" using Cons.prems by simp
    from Cons.IH [OF this] True show ?thesis by auto
  next
    case False
    then have "scfifo_step ram x (r0, f0) = (r0, f0)" by (auto simp: scfifo_step_def)
    then have "fold (scfifo_step ram) xs (r0, f0) = (r, f)" using Cons.prems by simp
    from Cons.IH [OF this] False show ?thesis by auto
  qed
qed simp

lemma lifo_fold:
  "fold (lifo_step ram) xs (r0, f0) = (r, f) \<Longrightarrow>
   f0 \<le> f \<and> (r = r0 \<and> f = f0 \<or> (\<exists>k\<in>set xs. r = Some k \<and> pm_used (ram k) \<and> f = pm_place (ram k))) \<and>
   (\<forall>j\<in>set xs. pm_used (ram j) \<longrightarrow> pm_place (ram j) \<le> f)"
proof (induction xs arbitrary: r0 f0)
  case (Cons x xs)
  show ?case
  proof (cases "f0 < pm_place (ram x) \<and> pm_used (ram x)")
    case True
    then have "lifo_step ram x (r0, f0) = (Some x, pm_place (ram x))" by (simp add: lifo_step_def)
    then have "fold (lifo_step ram) xs (Some x, pm_place (ram x)) = (r, f)" using Cons.prems by simp
    from Cons.IH [OF this] True show ?thesis by auto
  next
    case False
    then have "lifo_step ram x (r0, f0) = (r0, f0)" by (auto simp: lifo_step_def)
    then have "fold (lifo_step ram) xs (r0, f0) = (r, f)" using Cons.prems by simp
    from Cons.IH [OF this] False show ?thesis by auto
  qed
qed simp

lemma scfifo_oldest_ok:
  assumes "k0 < MAX_PYSC_PAGES" "pm_used (ram k0)" "pm_place (ram k0) < 0x7FFFFFFF"
  shows "\<exists>k<MAX_PYSC_PAGES. scfifo_oldest ram = Some k \<and> pm_used (ram k) \<and>
    (\<forall>j<MAX_PYSC_PAGES. pm_used (ram j) \<longrightarrow> pm_place (ram k) \<le> pm_place (ram j))"
proof -
  obtain r f where rf: "fold (scfifo_step ram) [0..<MAX_PYSC_PAGES] (None, 0x7FFFFFFF) = (r, f)" by fastforce
  note sf = scfifo_fold [OF rf]
  then have "f < 0x7FFFFFFF" using assms by fastforce
  with sf obtain k where "k < MAX_PYSC_PAGES" "r = Some k" "pm_used (ram k)" "f = pm_place (ram k)" by auto
  moreover have "scfifo_oldest ram = r" by (simp add: scfifo_oldest_def rf)
  ultimately show ?thesis using sf by auto
qed

text \<open>The resident pages of process \<open>i\<close>, all in the page table \<open>pd\<close>, and those with a clear accessed bit.\<close>

definition used_ram :: "'z ptab_state_scheme \<Rightarrow> nat \<Rightarrow> nat set" where
  "used_ram s i = {k. k < MAX_PYSC_PAGES \<and> pm_used (p_ram (procs s i) k)}"

definition ram_va :: "'z ptab_state_scheme \<Rightarrow> nat \<Rightarrow> nat \<Rightarrow> u32" where
  "ram_va s i k = pm_va (p_ram (procs s i) k)"

definition ram_place :: "'z ptab_state_scheme \<Rightarrow> nat \<Rightarrow> nat \<Rightarrow> int" where
  "ram_place s i k = pm_place (p_ram (procs s i) k)"

definition accessed :: "'z kmem_state_scheme \<Rightarrow> u32 \<Rightarrow> nat \<Rightarrow> nat \<Rightarrow> bool" where
  "accessed s pd i k \<longleftrightarrow> pte_of (mem s) pd (ram_va s i k) AND PTE_A \<noteq> 0"

definition unaccessed :: "'z kmem_state_scheme \<Rightarrow> u32 \<Rightarrow> nat \<Rightarrow> nat set" where
  "unaccessed s pd i = {k \<in> used_ram s i. \<not> accessed s pd i k}"

definition ram_ok :: "'z kmem_state_scheme \<Rightarrow> u32 \<Rightarrow> nat \<Rightarrow> bool" where
  "ram_ok s pd i \<longleftrightarrow> (\<forall>k\<in>used_ram s i. pm_pgdir (p_ram (procs s i) k) = pd \<and> mapped (mem s) pd (ram_va s i k) \<and>
       ram_place s i k \<le> p_last_in_queue (procs s i)) \<and>
     (\<forall>k\<in>used_ram s i. \<forall>l\<in>used_ram s i. pgno (ram_va s i k) = pgno (ram_va s i l) \<longrightarrow> k = l)"

text \<open>The state after a second chance for resident page \<open>k\<close>.\<close>

definition second_chance :: "u32 \<Rightarrow> nat \<Rightarrow> nat \<Rightarrow> 'z kmem_state_scheme \<Rightarrow> 'z kmem_state_scheme" where
  "second_chance pd i k s = (set_pte pd (ram_va s i k) (pte_of (mem s) pd (ram_va s i k) AND NOT PTE_A) s)
     \<lparr>procs := (procs s)(i := (procs s i)\<lparr>p_last_in_queue := p_last_in_queue (procs s i) + 1,
        p_ram := (p_ram (procs s i))(k := (p_ram (procs s i) k)\<lparr>pm_place := p_last_in_queue (procs s i) + 1\<rparr>)\<rparr>)\<rparr>"

lemma flags_and_A: "PTE_FLAGS e AND PTE_A = 0 \<longleftrightarrow> e AND PTE_A = 0"
  by (simp add: and_flag bit_PTE_FLAGS)

lemma scfifo_round:
  assumes "pd_ok s pd" "ram_ok s pd i" "scfifo_oldest (p_ram (procs s i)) = Some k" "k \<in> used_ram s i"
  shows "scfifo_loop (Suc n) i s =
    (if accessed s pd i k then scfifo_loop n i (second_chance pd i k s) else Inr (k, s))"
proof -
  have m: "mapped (mem s) pd (ram_va s i k)" "pm_pgdir (p_ram (procs s i) k) = pd"
    using assms(2,4) by (auto simp: ram_ok_def)
  show ?thesis
    using assms(1,3) m slot_eq(3) [OF assms(1) m(1)]
    by (simp add: ram_va_def [symmetric] accessed_def flags_and_A second_chance_def upd_proc_def ret_def)
qed

lemma second_chance_ok:
  assumes "pd_ok s pd" "pool_ok s" "ram_ok s pd i" "k \<in> used_ram s i"
  defines "t \<equiv> second_chance pd i k s"
  shows "pd_ok t pd" "pool_ok t" "ram_ok t pd i" "used_ram t i = used_ram s i"
    "p_last_in_queue (procs t i) = p_last_in_queue (procs s i) + 1"
    "ram_place t i j = (if j = k then p_last_in_queue (procs s i) + 1 else ram_place s i j)"
    "j \<in> used_ram s i \<Longrightarrow> accessed t pd i j \<longleftrightarrow> j \<noteq> k \<and> accessed s pd i j"
proof -
  have m: "mapped (mem s) pd (ram_va s i k)" using assms(3,4) by (auto simp: ram_ok_def)
  let ?u = "set_pte pd (ram_va s i k) (pte_of (mem s) pd (ram_va s i k) AND NOT PTE_A) s"
  note u = set_pte_ok [OF assms(1) m assms(2), of "pte_of (mem s) pd (ram_va s i k) AND NOT PTE_A"]
  show "pd_ok t pd" "pool_ok t" using u(2,3) by (simp_all add: t_def second_chance_def)
  have va: "ram_va t i j = ram_va s i j" for j by (simp add: t_def second_chance_def ram_va_def)
  show us: "used_ram t i = used_ram s i" by (auto simp: t_def second_chance_def used_ram_def)
  show pl: "p_last_in_queue (procs t i) = p_last_in_queue (procs s i) + 1"
    "ram_place t i j = (if j = k then p_last_in_queue (procs s i) + 1 else ram_place s i j)" for j
    by (simp_all add: t_def second_chance_def ram_place_def)
  have mt: "mem t = mem ?u" by (simp add: t_def second_chance_def)
  have pg: "pm_pgdir (p_ram (procs t i) j) = pm_pgdir (p_ram (procs s i) j)" for j
    by (simp add: t_def second_chance_def)
  show "ram_ok t pd i" using assms(3) unfolding ram_ok_def us va pl pg mt u(5) by force
  show "accessed t pd i j \<longleftrightarrow> j \<noteq> k \<and> accessed s pd i j" if "j \<in> used_ram s i"
  proof (cases "j = k")
    case True
    then show ?thesis unfolding accessed_def va mt pte_of_set_pte [OF assms(1) m assms(2)]
      by (simp add: and_flag bit_simps)
  next
    case False
    then have "pgno (ram_va s i j) \<noteq> pgno (ram_va s i k)" using that assms(3,4) by (auto simp: ram_ok_def)
    then show ?thesis using False unfolding accessed_def va mt pte_of_set_pte [OF assms(1) m assms(2)] by simp
  qed
qed

definition scfifo_pick :: "u32 \<Rightarrow> nat \<Rightarrow> 'z kmem_state_scheme \<Rightarrow> nat \<Rightarrow> 'z kmem_state_scheme \<Rightarrow> bool" where
  "scfifo_pick pd i s k t \<longleftrightarrow> k \<in> used_ram s i \<and> used_ram t i = used_ram s i \<and> \<not> accessed t pd i k \<and>
     (unaccessed s pd i \<noteq> {} \<longrightarrow>
        k \<in> unaccessed s pd i \<and> (\<forall>j\<in>unaccessed s pd i. ram_place s i k \<le> ram_place s i j))"

lemma scfifo_loop_ok:
  assumes "pd_ok s pd" "pool_ok s" "ram_ok s pd i" "used_ram s i \<noteq> {}"
    "p_last_in_queue (procs s i) + int n \<le> 0x7FFFFFFF" "card (used_ram s i - unaccessed s pd i) < n"
  shows "wp (scfifo_loop n i) (scfifo_pick pd i s) s"
  using assms
proof (induction n arbitrary: s)
  case (Suc n)
  from Suc.prems(4) obtain k0 where "k0 \<in> used_ram s i" by auto
  then have "k0 < MAX_PYSC_PAGES" "pm_used (p_ram (procs s i) k0)" "pm_place (p_ram (procs s i) k0) < 0x7FFFFFFF"
    using Suc.prems(3,5) by (auto simp: used_ram_def ram_ok_def ram_place_def)
  from scfifo_oldest_ok [of k0 "p_ram (procs s i)", OF this] obtain k
    where k: "scfifo_oldest (p_ram (procs s i)) = Some k" "k \<in> used_ram s i"
      "\<And>j. j \<in> used_ram s i \<Longrightarrow> ram_place s i k \<le> ram_place s i j"
    by (auto simp: used_ram_def ram_place_def)
  note rnd = scfifo_round [OF Suc.prems(1,3) k(1,2), of n]
  show ?case
  proof (cases "accessed s pd i k")
    case False
    then show ?thesis using k unfolding wp_def rnd by (auto simp: scfifo_pick_def unaccessed_def)
  next
    case True
    let ?t = "second_chance pd i k s"
    note t = second_chance_ok [OF Suc.prems(1-3) k(2)]
    have un: "unaccessed ?t pd i = insert k (unaccessed s pd i)"
      using t(4,7) k(2) by (auto simp: unaccessed_def)
    have "k \<in> used_ram s i - unaccessed s pd i" using True k(2) by (auto simp: unaccessed_def)
    moreover have "finite (used_ram s i)" by (auto simp: used_ram_def)
    ultimately have "card (used_ram s i - unaccessed s pd i - {k}) < card (used_ram s i - unaccessed s pd i)"
      by (intro card_Diff1_less) auto
    moreover have "used_ram ?t i - unaccessed ?t pd i = used_ram s i - unaccessed s pd i - {k}"
      unfolding t(4) un by blast
    ultimately have "card (used_ram ?t i - unaccessed ?t pd i) < n" using Suc.prems(6) by simp
    then have IH: "wp (scfifo_loop n i) (scfifo_pick pd i ?t) ?t"
      using Suc.prems(4,5) t by (intro Suc.IH) auto
    have "scfifo_pick pd i s l u" if "scfifo_pick pd i ?t l u" for l u
    proof -
      have "l \<noteq> k \<and> (\<forall>j\<in>unaccessed s pd i. ram_place s i l \<le> ram_place s i j)" if ne: "unaccessed s pd i \<noteq> {}"
      proof -
        have le: "ram_place ?t i l \<le> ram_place ?t i j" if "j \<in> insert k (unaccessed s pd i)" for j
          using \<open>scfifo_pick pd i ?t l u\<close> that unfolding scfifo_pick_def un by auto
        from ne obtain c where c: "c \<in> unaccessed s pd i" by auto
        then have "c \<noteq> k" "ram_place s i c \<le> p_last_in_queue (procs s i)"
          using True Suc.prems(3) by (auto simp: unaccessed_def ram_ok_def)
        then have "l \<noteq> k" using le [of c] c t(6) by (auto split: if_splits)
        moreover have "ram_place s i l \<le> ram_place s i j" if "j \<in> unaccessed s pd i" for j
          using le [of j] that \<open>l \<noteq> k\<close> True t(6) by (auto simp: unaccessed_def split: if_splits)
        ultimately show ?thesis by blast
      qed
      then show ?thesis using that un unfolding scfifo_pick_def t(4) by auto
    qed
    then show ?thesis using IH True unfolding wp_def rnd by (auto split: sum.splits)
  qed
qed simp


section \<open>Properties of the page tables\<close>

lemma mappages_remap:
  assumes "pd_ok s pd" "mapped (mem s) pd a" "pte_of (mem s) pd a AND PTE_P \<noteq> 0"
  shows "mappages_loop (Suc n) pd a lst pa perm s = Inl (Panic ''remap'')"
  using assms slot_eq(3) [OF assms(1,2)] by (simp add: kerror_def)

text \<open>
  C7: \<open>mappages\<close> maps exactly the pages that the range touches. If none of them is mapped yet, it
  returns 0 with every page of the range mapped to consecutive physical pages with the given
  permissions and every other entry as before, or -1 with the free list empty; in both cases it only
  takes pages from the free list and writes to this page table. If the first page is already
  present it panics.
\<close>

theorem mappages_spec:
  assumes "pd_ok s pd" "pool_ok s" "0 < sz" "unat va + unat sz \<le> 2 ^ 32"
  shows "((\<forall>v. pgno va \<le> pgno v \<and> pgno v \<le> pgno (va + sz - 1) \<longrightarrow> \<not> present (mem s) pd v) \<longrightarrow>
      wp (mappages pd va sz pa perm) (\<lambda>r t. vm_ext pd s t \<and>
        (r = 0 \<and> (\<forall>v. pte_of (mem t) pd v =
            (if pgno va \<le> pgno v \<and> pgno v \<le> pgno (va + sz - 1)
             then (pa + of_nat (4096 * (pgno v - pgno va))) OR perm OR PTE_P else pte_of (mem s) pd v)) \<or>
         r = - 1 \<and> free_pages t = [])) s) \<and>
    (present (mem s) pd va \<longrightarrow> mappages pd va sz pa perm s = Inl (Panic ''remap''))"
proof (intro conjI impI)
  assume "\<forall>v. pgno va \<le> pgno v \<and> pgno v \<le> pgno (va + sz - 1) \<longrightarrow> \<not> present (mem s) pd v"
  then have "wp (mappages pd va sz pa perm)
      (map_done pd s (PGROUNDDOWN va) (pgno (va + sz - 1) - pgno va) pa perm) s"
    by (intro mappages_ok [OF assms]) (auto simp: present_def)
  moreover have "pgno va \<le> pgno (va + sz - 1)" by (rule pgno_span [OF assms(3,4)])
  ultimately show "wp (mappages pd va sz pa perm) (\<lambda>r t. vm_ext pd s t \<and>
        (r = 0 \<and> (\<forall>v. pte_of (mem t) pd v =
            (if pgno va \<le> pgno v \<and> pgno v \<le> pgno (va + sz - 1)
             then (pa + of_nat (4096 * (pgno v - pgno va))) OR perm OR PTE_P else pte_of (mem s) pd v)) \<or>
         r = - 1 \<and> free_pages t = [])) s"
    by (elim wp_mono) (auto simp: map_done_def map_range_def)
next
  assume p: "present (mem s) pd va"
  have same: "pgno (PGROUNDDOWN va) = pgno va" by simp
  from p have m: "mapped (mem s) pd (PGROUNDDOWN va)" "pte_of (mem s) pd (PGROUNDDOWN va) AND PTE_P \<noteq> 0"
    using present_pgno [OF same, of "mem s" pd] by (auto simp: present_def pte_of_def split: if_splits)
  have fuel: "(0x100000 :: nat) = Suc 0xFFFFF" by simp
  show "mappages pd va sz pa perm s = Inl (Panic ''remap'')"
    unfolding mappages_def fuel by (rule mappages_remap [OF assms(1) m])
qed

text \<open>Four free pages, and an address space without any mapping whose directory is the page \<open>pd0\<close>.\<close>

definition pd0 :: u32 where "pd0 = 0x80130000"

definition vm_base :: vm_state where
  "vm_base = kmem_state.extend boot_kmem \<lparr>policy = SCFIFO\<rparr>"

definition vm0 :: vm_state where
  "vm0 = fold push_page [0x80121000, 0x80122000, 0x80123000, 0x80124000] vm_base"

lemma vm_base_sel [simp]: "mach vm_base = boot_mach" "freelist vm_base = 0" "kend vm_base = 0x80120000"
  "mem vm_base = (\<lambda>_. 0)" "procs vm_base = procs boot_ptab"
  by (simp_all add: vm_base_def kmem_state.defs boot_kmem_def ptab_state.defs boot_ptab_def)

lemma free_frame [simp]: "frame 0x80120000 0x80121000" "frame 0x80120000 0x80122000"
  "frame 0x80120000 0x80123000" "frame 0x80120000 0x80124000" "frame 0x80120000 0x80130000"
  by (simp_all add: frame_def V2P_def)

lemma zero_dir:
  assumes "\<And>a. in_page pd a \<Longrightarrow> m a = 0"
  shows "i < 1024 \<Longrightarrow> \<not> has_tab m pd i" "tables m pd = {pd}" "\<not> mapped m pd va" "pte_of m pd va = 0"
proof -
  show h: "\<not> has_tab m pd i" if "i < 1024" for i
    using that by (simp add: has_tab_def pde_at_def ld32_def assms in_page_def)
  then show "tables m pd = {pd}" "\<not> mapped m pd va" "pte_of m pd va = 0" by (auto simp: tables_def mapped_def pte_of_def)
qed

lemma fold_push_page:
  assumes "pool_ok s" "pd_ok s pd" "distinct xs"
    "\<forall>x\<in>set xs. frame (kend s) x \<and> x \<notin> set (free_pages s) \<and> x \<notin> tables (mem s) pd"
  shows "pool_ok (fold push_page xs s) \<and> pd_ok (fold push_page xs s) pd \<and>
    free_pages (fold push_page xs s) = rev xs @ free_pages s \<and>
    pte_of (mem (fold push_page xs s)) pd = pte_of (mem s) pd \<and>
    mapped (mem (fold push_page xs s)) pd = mapped (mem s) pd \<and>
    mach (fold push_page xs s) = mach s \<and> procs (fold push_page xs s) = procs s"
  using assms
proof (induction xs arbitrary: s)
  case (Cons x xs)
  then have x: "frame (kend s) x" "x \<notin> set (free_pages s)" "x \<notin> tables (mem s) pd" by auto
  note p = push_page_pd [OF Cons.prems(1,2) x]
  show ?case using Cons.IH [OF p(1,3)] Cons.prems p(2,4,5,6) by auto
qed simp

lemma vm0_ok [simp]: "pool_ok vm0" "pd_ok vm0 pd0" "mach vm0 = boot_mach" "procs vm0 = procs boot_ptab"
  "free_pages vm0 = [0x80124000, 0x80123000, 0x80122000, 0x80121000]" "pte_of (mem vm0) pd0 va = 0" "\<not> mapped (mem vm0) pd0 va"
proof -
  have b: "kmem_ok vm_base" "free_pages vm_base = []" using kmem_okI [of vm_base "[]"] by simp_all
  have z: "tables (\<lambda>_. 0) pd0 = {pd0}" "\<And>i. i < 1024 \<Longrightarrow> \<not> has_tab (\<lambda>_. 0) pd0 i" "pte_of (\<lambda>_. 0) pd0 va = 0" "\<not> mapped (\<lambda>_. 0) pd0 va"
    by (rule zero_dir; simp)+
  have fr: "frame 0x80120000 pd0" by (simp add: pd0_def)
  have pd: "pd_ok vm_base pd0" by (simp add: pd_ok_def z b fr)
  have "pool_ok vm_base" by (simp add: pool_ok_def b)
  moreover have "pd0 \<notin> set [0x80121000, 0x80122000, 0x80123000, 0x80124000]" by (simp add: pd0_def)
  ultimately show "pool_ok vm0" "pd_ok vm0 pd0" "mach vm0 = boot_mach" "procs vm0 = procs boot_ptab"
    "free_pages vm0 = [0x80124000, 0x80123000, 0x80122000, 0x80121000]" "pte_of (mem vm0) pd0 va = 0" "\<not> mapped (mem vm0) pd0 va"
    using fold_push_page [OF _ pd, of "[0x80121000, 0x80122000, 0x80123000, 0x80124000]"]
    by (auto simp: vm0_def b z)
qed

theorem mappages_spec_witness:
  "wp (mappages pd0 0x1000 4096 0x500000 6) (\<lambda>r t. r = 0 \<and> pte_of (mem t) pd0 0x1000 = 0x500007 \<or>
      r = - 1 \<and> free_pages t = []) vm0"
proof -
  have "pgno 0x1000 = 1" "pgno (0x1000 + 4096 - 1) = 1" by (simp_all add: pgno_def)
  then show ?thesis
    using mappages_spec [of vm0 pd0 4096 "0x1000" "0x500000" 6] by (auto simp: present_def elim: wp_mono)
qed

text \<open>
  C6: \<open>freevm\<close> leaks nothing and frees nothing twice. For an address space whose user pages belong
  to it alone, the free list afterwards holds the pages it held before, every page of the page table
  itself and every user page, and is still a list of distinct pages.
\<close>

theorem freevm_returns_all:
  assumes "pd_ok s pd" "pool_ok s" "cur_of (mach s) = Some i" "own s pd (urange 0 0x80000000)"
  shows "wp (freevm pd) (\<lambda>_ t. pool_ok t \<and> set (free_pages t) = set (free_pages s) \<union> tables (mem s) pd \<union>
    ufr (mem s) pd ` {va \<in> urange 0 0x80000000. present (mem s) pd va}) s"
  using freevm_ok [OF assms] .

theorem freevm_returns_all_witness:
  "wp (freevm pd0) (\<lambda>_ t. pool_ok t \<and> set (free_pages t) = set (free_pages vm0) \<union> tables (mem vm0) pd0) vm0"
  using freevm_returns_all [of vm0 pd0 0] by (simp add: own_def present_def)


text \<open>The address space with page 1 mapped, its accessed bit clear, as resident page 0 of process 0.\<close>

definition vm1 :: vm_state where
  "vm1 = (set_pte pd0 0x1000 0x500007 (new_tab pd0 0x1000 0x80124000 vm0))\<lparr>procs := (procs boot_ptab)(0 :=
     run_proc\<lparr>p_ram := (\<lambda>_. zero_pm)(0 := \<lparr>pm_used = True, pm_pgdir = pd0, pm_va = 0x1000, pm_place = 1\<rparr>),
       p_last_in_queue := 1\<rparr>)\<rparr>"

lemma vm1_ok [simp]: "pd_ok vm1 pd0" "pool_ok vm1" "mapped (mem vm1) pd0 0x1000" "mach vm1 = boot_mach"
  "pte_of (mem vm1) pd0 0x1000 = 0x500007"
proof -
  note n = new_tab_ok [OF vm0_ok(2,7,1,5), of "0x1000"]
  note q = set_pte_ok [OF n(3,4,2), of "0x500007"]
  show "pd_ok vm1 pd0" "pool_ok vm1" "mapped (mem vm1) pd0 0x1000" using q(2,3,5) n(4) by (simp_all add: vm1_def)
  show "mach vm1 = boot_mach" by (simp add: vm1_def new_tab_def)
  show "pte_of (mem vm1) pd0 0x1000 = 0x500007"
    using pte_of_set_pte [OF n(3,4,2), of "0x500007" "0x1000"] by (simp add: vm1_def)
qed



section \<open>The table of resident pages\<close>

text \<open>What \<open>add2ram\<close> does to the table, and giving a slot back as \<open>swap\<close> and \<open>deallocuvm\<close> do.\<close>

definition ram_grab :: "u32 \<Rightarrow> u32 \<Rightarrow> int \<Rightarrow> (nat \<Rightarrow> p_monitor) \<Rightarrow> (nat \<times> (nat \<Rightarrow> p_monitor)) option" where
  "ram_grab pgdir va place ram = map_option
     (\<lambda>k. (k, ram(k := \<lparr>pm_used = True, pm_pgdir = pgdir, pm_va = va, pm_place = place\<rparr>)))
     (first_idx (\<lambda>k. \<not> pm_used (ram k)) MAX_PYSC_PAGES)"

definition ram_drop :: "(nat \<Rightarrow> p_monitor) \<Rightarrow> nat \<Rightarrow> nat \<Rightarrow> p_monitor" where
  "ram_drop ram k = ram(k := (ram k)\<lparr>pm_used := False\<rparr>)"

interpretation ramtab: slot_table "\<lambda>ram k. pm_used (ram k)" MAX_PYSC_PAGES "ram_grab pgdir va place" ram_drop
  by unfold_locales
    (auto simp: ram_grab_def ram_drop_def first_idx_None dest: first_idx_SomeD split: if_splits)

lemma used_ram_load: "card (used_ram s i) = ramtab.load (p_ram (procs s i))"
  by (simp add: ramtab.load_def used_ram_def)

lemma add2ram_grab:
  assumes "mach_ok (mach s)" "cur_of (mach s) = Some i"
  shows "add2ram pgdir va s = Inr ((), case ram_grab pgdir va (p_last_in_queue (procs s i) + 1) (p_ram (procs s i)) of
      None \<Rightarrow> s
    | Some (k, ram) \<Rightarrow> s\<lparr>procs := (procs s)(i := (procs s i)\<lparr>p_last_in_queue := p_last_in_queue (procs s i) + 1, p_ram := ram\<rparr>)\<rparr>)"
  using assms
  by (auto simp: add2ram_def get_free_ram_idx_def ram_grab_def upd_proc_def upd_def rd_def ret_def bnd_assoc split: option.splits)



end
