(* ===== verification/Bio.thy ===== *)
theory Bio
  imports Vm
begin

text \<open>
  The buffer cache (\<open>bio.c\<close>) over the in-memory disk (\<open>memide.c\<close>). A buffer is an index into
  \<open>bcache.buf\<close>; the doubly linked list through \<open>prev\<close> and \<open>next\<close> is the sequence \<open>lru\<close> of indices
  from \<open>head.next\<close> (most recently used) to \<open>head.prev\<close>. The bits B_VALID and B_DIRTY of \<open>flags\<close> are
  two booleans. The disk is a function from block numbers to contents; the field \<open>wlog\<close> is no
  variable of the kernel but the history of the device: the blocks written to it, in order.
\<close>

unbundle bit_operations_syntax

section \<open>Definitions\<close>

abbreviation "NBUF \<equiv> (30 :: nat)"
abbreviation "BSIZE \<equiv> (512 :: nat)"
abbreviation "ROOTDEV \<equiv> (1 :: u32)"

record buf =
  b_valid :: bool
  b_dirty :: bool
  b_dev :: u32
  b_blockno :: u32
  b_refcnt :: u32
  b_data :: bview

record bio_state = vm_state +
  bufs :: "nat \<Rightarrow> buf"
  lru :: "nat list"
  disk :: "nat \<Rightarrow> bview"
  disksize :: nat
  wlog :: "(nat \<times> bview) list"

definition upd_buf :: "nat \<Rightarrow> (buf \<Rightarrow> buf) \<Rightarrow> ('z bio_state_scheme, unit) kop" where
  "upd_buf i f = upd (\<lambda>s. s\<lparr>bufs := (bufs s)(i := f (bufs s i))\<rparr>)"

definition binit :: "('z bio_state_scheme, unit) kop" where
  "binit =
     thn (initlock LBcache) (
     thn (upd (\<lambda>s. s\<lparr>lru := []\<rparr>)) (
     each (\<lambda>i. thn (initsleeplock (SBuf i)) (upd (\<lambda>s. s\<lparr>lru := i # lru s\<rparr>))) [0..<NBUF]))"

text \<open>\<open>memide.c\<close>: the request is carried out at once.\<close>

definition iderw :: "nat \<Rightarrow> ('z bio_state_scheme, unit) kop" where
  "iderw i =
     bnd (holdingsleep (SBuf i)) (\<lambda>h.
     if \<not> h then panic ''iderw: buf not locked''
     else bnd (rd (\<lambda>s. bufs s i)) (\<lambda>b.
     if b_valid b \<and> \<not> b_dirty b then panic ''iderw: nothing to do''
     else if b_dev b \<noteq> 1 then panic ''iderw: request not for disk 1''
     else bnd (rd disksize) (\<lambda>n.
     if unat (b_blockno b) \<ge> n then panic ''iderw: block out of range''
     else
       thn (if b_dirty b
         then thn (upd_buf i (\<lambda>b. b\<lparr>b_dirty := False\<rparr>))
           (upd (\<lambda>s. s\<lparr>disk := (disk s)(unat (b_blockno b) := b_data b),
              wlog := wlog s @ [(unat (b_blockno b), b_data b)]\<rparr>))
         else bnd (rd (\<lambda>s. disk s (unat (b_blockno b)))) (\<lambda>d. upd_buf i (\<lambda>b. b\<lparr>b_data := d\<rparr>)))
       (upd_buf i (\<lambda>b. b\<lparr>b_valid := True\<rparr>)))))"

definition bget :: "u32 \<Rightarrow> u32 \<Rightarrow> ('z bio_state_scheme, nat) kop" where
  "bget dev blockno =
     thn (acquire LBcache) (
     bnd (rd (\<lambda>s. find (\<lambda>i. b_dev (bufs s i) = dev \<and> b_blockno (bufs s i) = blockno) (lru s))) (\<lambda>hit.
     case hit of Some i \<Rightarrow>
       thn (upd_buf i (\<lambda>b. b\<lparr>b_refcnt := b_refcnt b + 1\<rparr>)) (
       thn (release LBcache) (
       thn (acquiresleep (SBuf i))
       (ret i)))
     | None \<Rightarrow>
       bnd (rd (\<lambda>s. find (\<lambda>i. b_refcnt (bufs s i) = 0 \<and> \<not> b_dirty (bufs s i)) (rev (lru s)))) (\<lambda>fre.
       case fre of Some i \<Rightarrow>
         thn (upd_buf i (\<lambda>b. b\<lparr>b_valid := False, b_dirty := False, b_dev := dev, b_blockno := blockno, b_refcnt := 1\<rparr>)) (
         thn (release LBcache) (
         thn (acquiresleep (SBuf i))
         (ret i)))
       | None \<Rightarrow> panic ''bget: no buffers'')))"

definition bread :: "u32 \<Rightarrow> u32 \<Rightarrow> ('z bio_state_scheme, nat) kop" where
  "bread dev blockno =
     bnd (bget dev blockno) (\<lambda>i.
     bnd (rd (\<lambda>s. b_valid (bufs s i))) (\<lambda>v.
     thn (whn (\<not> v) (iderw i))
     (ret i)))"

definition bwrite :: "nat \<Rightarrow> ('z bio_state_scheme, unit) kop" where
  "bwrite i =
     bnd (holdingsleep (SBuf i)) (\<lambda>h.
     if \<not> h then panic ''bwrite''
     else thn (upd_buf i (\<lambda>b. b\<lparr>b_dirty := True\<rparr>)) (iderw i))"

definition brelse :: "nat \<Rightarrow> ('z bio_state_scheme, unit) kop" where
  "brelse i =
     bnd (holdingsleep (SBuf i)) (\<lambda>h.
     if \<not> h then panic ''brelse''
     else
       thn (releasesleep (SBuf i)) (
       thn (acquire LBcache) (
       thn (upd_buf i (\<lambda>b. b\<lparr>b_refcnt := b_refcnt b - 1\<rparr>)) (
       bnd (rd (\<lambda>s. b_refcnt (bufs s i))) (\<lambda>r.
       thn (whn (r = 0) (upd (\<lambda>s. s\<lparr>lru := i # removeAll i (lru s)\<rparr>)))
       (release LBcache))))))"

text \<open>Reading and writing the contents of a buffer.\<close>

definition bdata :: "nat \<Rightarrow> ('z bio_state_scheme, bview) kop" where
  "bdata i = rd (\<lambda>s. b_data (bufs s i))"

definition set_bdata :: "nat \<Rightarrow> bview \<Rightarrow> ('z bio_state_scheme, unit) kop" where
  "set_bdata i d = upd_buf i (\<lambda>b. b\<lparr>b_data := d\<rparr>)"

section \<open>Lemmas\<close>

subsection \<open>The cache invariant\<close>

text \<open>
  The buffers in use (\<open>held\<close>) are the locked ones, with one reference each. Cached blocks of the
  root device have one buffer each; a valid clean buffer nobody uses holds what the disk holds; a dirty
  buffer is valid.
\<close>

definition held :: "'z bio_state_scheme \<Rightarrow> nat set" where
  "held s = {i. i < NBUF \<and> sl_locked (slocks s (SBuf i))}"

definition bio_ok :: "'z bio_state_scheme \<Rightarrow> bool" where
  "bio_ok s \<longleftrightarrow> distinct (lru s) \<and> set (lru s) = {..<NBUF} \<and>
     inj_on (\<lambda>i. b_blockno (bufs s i)) {i. i < NBUF \<and> b_dev (bufs s i) = 1} \<and>
     (\<forall>i<NBUF. b_dirty (bufs s i) \<longrightarrow> b_valid (bufs s i) \<and> b_dev (bufs s i) = 1) \<and>
     (\<forall>i<NBUF. i \<notin> held s \<longrightarrow> b_refcnt (bufs s i) = 0 \<and> (b_valid (bufs s i) \<longrightarrow> \<not> b_dirty (bufs s i) \<longrightarrow>
        b_dev (bufs s i) = 1 \<and> b_data (bufs s i) = disk s (unat (b_blockno (bufs s i))))) \<and>
     (\<forall>i<NBUF. i \<in> held s \<longrightarrow> b_refcnt (bufs s i) = 1 \<and> b_valid (bufs s i) \<and> b_dev (bufs s i) = 1 \<and>
        unat (b_blockno (bufs s i)) < disksize s)"

definition slot_of :: "'z bio_state_scheme \<Rightarrow> u32 \<Rightarrow> nat option" where
  "slot_of s b = first_idx (\<lambda>i. b_dev (bufs s i) = 1 \<and> b_blockno (bufs s i) = b \<and> b_valid (bufs s i)) NBUF"

text \<open>The contents of a block as the kernel sees it: the cached copy, or the disk's.\<close>

definition blk :: "'z bio_state_scheme \<Rightarrow> u32 \<Rightarrow> bview" where
  "blk s b = (case slot_of s b of Some i \<Rightarrow> b_data (bufs s i) | None \<Rightarrow> disk s (unat b))"

lemma bio_okD:
  assumes "bio_ok s"
  shows "distinct (lru s)" "set (lru s) = {..<NBUF}"
    "\<And>i j. i < NBUF \<Longrightarrow> j < NBUF \<Longrightarrow> b_dev (bufs s i) = 1 \<Longrightarrow> b_dev (bufs s j) = 1 \<Longrightarrow>
        b_blockno (bufs s i) = b_blockno (bufs s j) \<Longrightarrow> i = j"
    "\<And>i. i < NBUF \<Longrightarrow> b_dirty (bufs s i) \<Longrightarrow> b_valid (bufs s i) \<and> b_dev (bufs s i) = 1"
    "\<And>i. i < NBUF \<Longrightarrow> i \<notin> held s \<Longrightarrow> b_refcnt (bufs s i) = 0"
    "\<And>i. i < NBUF \<Longrightarrow> i \<notin> held s \<Longrightarrow> b_valid (bufs s i) \<Longrightarrow> \<not> b_dirty (bufs s i) \<Longrightarrow>
        b_dev (bufs s i) = 1 \<and> b_data (bufs s i) = disk s (unat (b_blockno (bufs s i)))"
    "\<And>i. i \<in> held s \<Longrightarrow> i < NBUF \<and> b_refcnt (bufs s i) = 1 \<and> b_valid (bufs s i) \<and> b_dev (bufs s i) = 1 \<and>
        unat (b_blockno (bufs s i)) < disksize s"
proof -
  note A = assms [unfolded bio_ok_def]
  show "distinct (lru s)" "set (lru s) = {..<NBUF}" using A by simp_all
  show "\<And>i j. i < NBUF \<Longrightarrow> j < NBUF \<Longrightarrow> b_dev (bufs s i) = 1 \<Longrightarrow> b_dev (bufs s j) = 1 \<Longrightarrow>
      b_blockno (bufs s i) = b_blockno (bufs s j) \<Longrightarrow> i = j" using A by (elim conjE) (erule inj_onD, simp_all)
qed (use assms in \<open>auto simp: bio_ok_def held_def\<close>)

lemma find_key:
  assumes "set xs = {..<NBUF}"
  shows "find p xs = Some i \<Longrightarrow> i < NBUF \<and> p i" "find p xs = None \<longleftrightarrow> (\<forall>i<NBUF. \<not> p i)"
  using assms by (auto simp: find_Some_iff find_None_iff)

definition with_buf :: "nat \<Rightarrow> buf \<Rightarrow> 'z bio_state_scheme \<Rightarrow> 'z bio_state_scheme" where
  "with_buf i b s = s\<lparr>bufs := (bufs s)(i := b)\<rparr>"

definition lock_buf :: "nat \<Rightarrow> 'z bio_state_scheme \<Rightarrow> 'z bio_state_scheme" where
  "lock_buf i s = s\<lparr>slocks := (slocks s)(SBuf i := \<lparr>sl_locked = True, sl_pid = p_pid (procs s (the (cur_of (mach s))))\<rparr>)\<rparr>"

lemma with_buf_sel [simp]: "bufs (with_buf i b s) = (bufs s)(i := b)" "slocks (with_buf i b s) = slocks s"
  "mach (with_buf i b s) = mach s" "disk (with_buf i b s) = disk s" "disksize (with_buf i b s) = disksize s"
  "lru (with_buf i b s) = lru s" "procs (with_buf i b s) = procs s" "wlog (with_buf i b s) = wlog s"
  "held (with_buf i b s) = held s"
  by (simp_all add: with_buf_def held_def)

lemma lock_buf_sel [simp]: "bufs (lock_buf i s) = bufs s" "mach (lock_buf i s) = mach s"
  "disk (lock_buf i s) = disk s" "disksize (lock_buf i s) = disksize s" "lru (lock_buf i s) = lru s"
  "procs (lock_buf i s) = procs s" "wlog (lock_buf i s) = wlog s"
  "i < NBUF \<Longrightarrow> held (lock_buf i s) = insert i (held s)" "sl_locked (slocks (lock_buf i s) (SBuf i))"
  by (auto simp: lock_buf_def held_def)

lemma bget_hit:
  assumes "calm s" "cur_of (mach s) = Some p" "set (lru s) = {..<NBUF}"
    "find (\<lambda>i. b_dev (bufs s i) = d \<and> b_blockno (bufs s i) = b) (lru s) = Some i" "\<not> sl_locked (slocks s (SBuf i))"
  shows "bget d b s = Inr (i, lock_buf i (with_buf i ((bufs s i)\<lparr>b_refcnt := b_refcnt (bufs s i) + 1\<rparr>) s))"
  using assms by (simp add: bget_def upd_buf_def ret_def lock_buf_def with_buf_def)

lemma bget_miss:
  assumes "calm s" "cur_of (mach s) = Some p"
    "find (\<lambda>i. b_dev (bufs s i) = d \<and> b_blockno (bufs s i) = b) (lru s) = None"
    "find (\<lambda>i. b_refcnt (bufs s i) = 0 \<and> \<not> b_dirty (bufs s i)) (rev (lru s)) = Some i" "\<not> sl_locked (slocks s (SBuf i))"
  shows "bget d b s = Inr (i, lock_buf i (with_buf i ((bufs s i)\<lparr>b_valid := False, b_dirty := False, b_dev := d,
    b_blockno := b, b_refcnt := 1\<rparr>) s))"
  using assms by (simp add: bget_def upd_buf_def ret_def lock_buf_def with_buf_def)

lemma iderw_read:
  assumes "calm s" "sl_locked (slocks s (SBuf i))" "\<not> b_valid (bufs s i)" "\<not> b_dirty (bufs s i)" "b_dev (bufs s i) = 1"
    "unat (b_blockno (bufs s i)) < disksize s"
  shows "iderw i s = Inr ((), with_buf i ((bufs s i)\<lparr>b_data := disk s (unat (b_blockno (bufs s i))), b_valid := True\<rparr>) s)"
  using assms by (simp add: iderw_def upd_buf_def upd_def with_buf_def)

lemma iderw_write:
  assumes "calm s" "sl_locked (slocks s (SBuf i))" "b_dirty (bufs s i)" "b_dev (bufs s i) = 1"
    "unat (b_blockno (bufs s i)) < disksize s"
  shows "iderw i s = Inr ((), (with_buf i ((bufs s i)\<lparr>b_dirty := False, b_valid := True\<rparr>) s)
    \<lparr>disk := (disk s)(unat (b_blockno (bufs s i)) := b_data (bufs s i)),
     wlog := wlog s @ [(unat (b_blockno (bufs s i)), b_data (bufs s i))]\<rparr>)"
  using assms by (simp add: iderw_def upd_buf_def upd_def with_buf_def)

lemma calm_cong [simp]: "calm (with_buf i b s) = calm s" "calm (lock_buf i s) = calm s"
  unfolding calm_def with_buf_sel lock_buf_sel by (rule refl)+

text \<open>The buffer \<open>bread\<close> returns.\<close>

definition read_buf :: "'z bio_state_scheme \<Rightarrow> u32 \<Rightarrow> nat \<Rightarrow> buf \<Rightarrow> bool" where
  "read_buf s b i B \<longleftrightarrow> i < NBUF \<and> i \<notin> held s \<and> b_valid B \<and> b_dev B = 1 \<and> b_blockno B = b \<and> b_refcnt B = 1 \<and>
     b_data B = blk s b \<and> b_dirty B = b_dirty (bufs s i) \<and>
     (b_dirty (bufs s i) \<longrightarrow> b_blockno (bufs s i) = b) \<and>
     (\<forall>j<NBUF. j \<noteq> i \<longrightarrow> b_dev (bufs s j) = 1 \<longrightarrow> b_blockno (bufs s j) \<noteq> b)"

lemma slot_of_Some: "bio_ok s \<Longrightarrow> i < NBUF \<Longrightarrow> b_dev (bufs s i) = 1 \<Longrightarrow> b_valid (bufs s i) \<Longrightarrow>
  slot_of s (b_blockno (bufs s i)) = Some i"
  unfolding slot_of_def using bio_okD(3) [of s _ i] by (intro first_idx_SomeI) (auto, metis less_irrefl less_trans)

lemma blk_slot: "bio_ok s \<Longrightarrow> i < NBUF \<Longrightarrow> b_dev (bufs s i) = 1 \<Longrightarrow> b_valid (bufs s i) \<Longrightarrow>
  b_blockno (bufs s i) = b \<Longrightarrow> blk s b = b_data (bufs s i)"
  using slot_of_Some [of s i] by (simp add: blk_def)

lemma blk_disk: "(\<And>i. i < NBUF \<Longrightarrow> b_dev (bufs s i) = 1 \<Longrightarrow> b_blockno (bufs s i) = b \<Longrightarrow> \<not> b_valid (bufs s i)) \<Longrightarrow>
  blk s b = disk s (unat b)"
proof -
  assume "\<And>i. i < NBUF \<Longrightarrow> b_dev (bufs s i) = 1 \<Longrightarrow> b_blockno (bufs s i) = b \<Longrightarrow> \<not> b_valid (bufs s i)"
  then have "slot_of s b = None" by (auto simp: slot_of_def first_idx_None)
  then show ?thesis by (simp add: blk_def)
qed

lemma bread_run:
  assumes "calm s" "cur_of (mach s) = Some p" "bio_ok s" "unat b < disksize s"
    and "\<And>i. i \<in> held s \<Longrightarrow> b_blockno (bufs s i) \<noteq> b" and room: "(\<exists>i<NBUF. i \<notin> held s \<and> \<not> b_dirty (bufs s i)) \<or> (\<exists>i<NBUF. b_dirty (bufs s i) \<and> b_blockno (bufs s i) = b)"
  shows "\<exists>i B. bread 1 b s = Inr (i, lock_buf i (with_buf i B s)) \<and> read_buf s b i B"
proof (cases "find (\<lambda>i. b_dev (bufs s i) = 1 \<and> b_blockno (bufs s i) = b) (lru s)")
  case (Some i)
  note L = bio_okD(2) [OF assms(3)]
  from find_key(1) [OF L Some] have i: "i < NBUF" "b_dev (bufs s i) = 1" "b_blockno (bufs s i) = b" by auto
  then have nh: "i \<notin> held s" "\<not> sl_locked (slocks s (SBuf i))" using assms(5) by (auto simp: held_def)
  let ?B = "(bufs s i)\<lparr>b_refcnt := 1\<rparr>" and ?C = "(bufs s i)\<lparr>b_refcnt := 1, b_data := disk s (unat b), b_valid := True\<rparr>"
  have g: "bget 1 b s = Inr (i, lock_buf i (with_buf i ?B s))"
    using bget_hit [OF assms(1,2) L Some nh(2)] bio_okD(5) [OF assms(3) i(1) nh(1)] by simp
  have uniq: "\<forall>j<NBUF. j \<noteq> i \<longrightarrow> b_dev (bufs s j) = 1 \<longrightarrow> b_blockno (bufs s j) \<noteq> b"
    using bio_okD(3) [OF assms(3) _ i(1) _ i(2)] by (auto simp: i(3))
  show ?thesis
  proof (cases "b_valid (bufs s i)")
    case True
    then have "bread 1 b s = Inr (i, lock_buf i (with_buf i ?B s))"
      by (simp add: bread_def g whn_def ret_def)
    moreover have "read_buf s b i ?B" using i nh uniq True blk_slot [OF assms(3) i(1,2) True i(3)] by (simp add: read_buf_def)
    ultimately show ?thesis by blast
  next
    case False
    then have nd: "\<not> b_dirty (bufs s i)" using bio_okD(4) [OF assms(3) i(1)] by blast
    have "iderw i (lock_buf i (with_buf i ?B s)) = Inr ((), lock_buf i (with_buf i ?C s))"
      by (subst iderw_read) (simp_all add: False nd i assms(1,4), simp add: with_buf_def lock_buf_def)
    then have "bread 1 b s = Inr (i, lock_buf i (with_buf i ?C s))"
      by (simp add: bread_def g whn_def ret_def False)
    moreover have "blk s b = disk s (unat b)" by (rule blk_disk) (use uniq False in metis)
    then have "read_buf s b i ?C" using i nh uniq nd by (simp add: read_buf_def)
    ultimately show ?thesis by blast
  qed
next
  case None
  note L = bio_okD(2) [OF assms(3)]
  from None have no: "\<forall>j<NBUF. b_dev (bufs s j) = 1 \<longrightarrow> b_blockno (bufs s j) \<noteq> b" using find_key(2) [OF L] by auto
  have Lr: "set (rev (lru s)) = {..<NBUF}" using L by simp
  have "\<not> (\<exists>i<NBUF. b_dirty (bufs s i) \<and> b_blockno (bufs s i) = b)" using no bio_okD(4) [OF assms(3)] by blast
  with room have "\<exists>i<NBUF. i \<notin> held s \<and> \<not> b_dirty (bufs s i)" by blast
  then obtain i where i: "find (\<lambda>i. b_refcnt (bufs s i) = 0 \<and> \<not> b_dirty (bufs s i)) (rev (lru s)) = Some i"
    using find_key(2) [OF Lr, of "\<lambda>i. b_refcnt (bufs s i) = 0 \<and> \<not> b_dirty (bufs s i)"] bio_okD(5) [OF assms(3)] by blast
  from find_key(1) [OF Lr i] have i': "i < NBUF" "b_refcnt (bufs s i) = 0" "\<not> b_dirty (bufs s i)" by auto
  then have nh: "i \<notin> held s" "\<not> sl_locked (slocks s (SBuf i))" using bio_okD(7) [OF assms(3), of i] by (auto simp: held_def)
  let ?B = "(bufs s i)\<lparr>b_valid := False, b_dirty := False, b_dev := 1, b_blockno := b, b_refcnt := 1\<rparr>"
  let ?C = "?B\<lparr>b_data := disk s (unat b), b_valid := True\<rparr>"
  have g: "bget 1 b s = Inr (i, lock_buf i (with_buf i ?B s))" by (rule bget_miss [OF assms(1,2) None i nh(2)])
  have "with_buf i ?C (lock_buf i (with_buf i ?B s)) = lock_buf i (with_buf i ?C s)"
    by (simp add: with_buf_def lock_buf_def)
  then have "bread 1 b s = Inr (i, lock_buf i (with_buf i ?C s))"
    using assms(1,4) iderw_read [of "lock_buf i (with_buf i ?B s)" i] by (simp add: bread_def g whn_def ret_def)
  moreover have "blk s b = disk s (unat b)" by (rule blk_disk) (use no in metis)
  then have "read_buf s b i ?C" using i' nh no by (simp add: read_buf_def)
  ultimately show ?thesis by blast
qed

subsection \<open>Rules for the operations\<close>

definition dirties :: "'z bio_state_scheme \<Rightarrow> nat set" where
  "dirties s = {i. i < NBUF \<and> b_dirty (bufs s i)}"

definition dblocks :: "'z bio_state_scheme \<Rightarrow> u32 set" where
  "dblocks s = (\<lambda>i. b_blockno (bufs s i)) ` dirties s"

definition bio_inv :: "'z bio_state_scheme \<Rightarrow> bool" where
  "bio_inv s \<longleftrightarrow> calm s \<and> cur_of (mach s) \<noteq> None \<and> bio_ok s"

text \<open>
  \<open>io_frame\<close>: nothing but the cache and the disk differs between two states, except that processes
  may have been woken.
\<close>

definition woken :: "proc \<Rightarrow> proc \<Rightarrow> bool" where
  "woken p q \<longleftrightarrow> q = p \<or> p_state p = SLEEPING \<and> q = p\<lparr>p_state := RUNNABLE\<rparr>"

definition io_frame :: "'z bio_state_scheme \<Rightarrow> 'z bio_state_scheme \<Rightarrow> bool" where
  "io_frame s t \<longleftrightarrow> (\<exists>P B L S D W. t = s\<lparr>procs := P, bufs := B, lru := L, slocks := S, disk := D, wlog := W\<rparr> \<and>
     (\<forall>l. (\<forall>i. l \<noteq> SBuf i) \<longrightarrow> S l = slocks s l) \<and> (\<forall>j. woken (procs s j) (P j)))"

definition still :: "'z bio_state_scheme \<Rightarrow> 'z bio_state_scheme \<Rightarrow> bool" where
  "still s t \<longleftrightarrow> io_frame s t \<and> disk t = disk s \<and> wlog t = wlog s"

lemma woken_refl [simp]: "woken p p" by (simp add: woken_def)

lemma woken_trans: "woken p q \<Longrightarrow> woken q r \<Longrightarrow> woken p r" by (auto simp: woken_def)

lemma woken_wake [simp]: "woken (ps i) (wake_all ch ps i)" by (auto simp: woken_def wake_all_def wake_def)

lemma io_frameI: "t = s\<lparr>procs := procs t, bufs := bufs t, lru := lru t, slocks := slocks t, disk := disk t, wlog := wlog t\<rparr> \<Longrightarrow>
  (\<And>l. (\<And>i. l \<noteq> SBuf i) \<Longrightarrow> slocks t l = slocks s l) \<Longrightarrow> (\<And>j. woken (procs s j) (procs t j)) \<Longrightarrow> io_frame s t"
  unfolding io_frame_def by blast

lemma io_frame_refl [simp]: "io_frame s s"
  by (rule io_frameI) simp_all

lemma io_frame_trans [trans]: "io_frame s t \<Longrightarrow> io_frame t u \<Longrightarrow> io_frame s u"
  unfolding io_frame_def [of s t] io_frame_def [of t u]
  by (elim exE conjE, rule io_frameI) (simp_all, blast intro: woken_trans)

lemma still_refl [simp]: "still s s" by (simp add: still_def)

lemma still_trans [trans]: "still s t \<Longrightarrow> still t u \<Longrightarrow> still s u"
  by (auto simp: still_def intro: io_frame_trans)

lemma io_frameD:
  assumes "io_frame s t"
  shows "mach t = mach s" "mem t = mem s" "disksize t = disksize s" "woken (procs s j) (procs t j)"
    "(\<forall>i. l \<noteq> SBuf i) \<Longrightarrow> slocks t l = slocks s l" "calm t = calm s" "bio_state.more t = bio_state.more s"
  using assms unfolding io_frame_def calm_def by auto

lemma io_frame_parts:
  "io_frame s (with_buf i B s)" "io_frame s (lock_buf i s)"
  by (rule io_frameI; simp add: with_buf_def lock_buf_def)+

lemma blk_eqI:
  assumes "\<And>i. i < NBUF \<Longrightarrow> b_dev (bufs t i) = 1 \<Longrightarrow> b_valid (bufs t i) \<Longrightarrow> b_blockno (bufs t i) = c \<Longrightarrow> b_data (bufs t i) = X"
    "(\<And>i. i < NBUF \<Longrightarrow> b_dev (bufs t i) = 1 \<Longrightarrow> b_blockno (bufs t i) = c \<Longrightarrow> \<not> b_valid (bufs t i)) \<Longrightarrow> disk t (unat c) = X"
  shows "blk t c = X"
proof (cases "slot_of t c")
  case None
  then show ?thesis by (simp add: blk_def) (auto simp: slot_of_def first_idx_None intro: assms(2))
next
  case (Some i)
  from first_idx_SomeD [OF this [unfolded slot_of_def]] show ?thesis using assms(1) [of i] Some by (simp add: blk_def)
qed

lemma blk_unheld:
  "bio_ok s \<Longrightarrow> i < NBUF \<Longrightarrow> i \<notin> held s \<Longrightarrow> \<not> b_dirty (bufs s i) \<Longrightarrow> b_valid (bufs s i) \<Longrightarrow>
   blk s (b_blockno (bufs s i)) = disk s (unat (b_blockno (bufs s i)))"
  using bio_okD(6) [of s i] blk_slot [of s i] by simp

lemma bread_bio_ok:
  assumes ok: "bio_ok s" and rb: "read_buf s b i B" and "unat b < disksize s"
  shows "bio_ok (lock_buf i (with_buf i B s))" "blk (lock_buf i (with_buf i B s)) = blk s"
proof -
  let ?t = "lock_buf i (with_buf i B s)"
  have i: "i < NBUF" "i \<notin> held s" "b_valid B" "b_dev B = 1" "b_blockno B = b" "b_refcnt B = 1" "b_data B = blk s b"
    "b_dirty B = b_dirty (bufs s i)" and bd: "b_dirty (bufs s i) \<Longrightarrow> b_blockno (bufs s i) = b"
    and un: "\<And>j. j < NBUF \<Longrightarrow> j \<noteq> i \<Longrightarrow> b_dev (bufs s j) = 1 \<Longrightarrow> b_blockno (bufs s j) \<noteq> b"
    using rb by (auto simp: read_buf_def)
  have inj: "inj_on (\<lambda>j. b_blockno (bufs ?t j)) {j. j < NBUF \<and> b_dev (bufs ?t j) = 1}"
  proof (rule inj_onI)
    fix j k assume "j \<in> {j. j < NBUF \<and> b_dev (bufs ?t j) = 1}" "k \<in> {j. j < NBUF \<and> b_dev (bufs ?t j) = 1}"
      "b_blockno (bufs ?t j) = b_blockno (bufs ?t k)"
    then show "j = k" using un [of j] un [of k] bio_okD(3) [OF ok, of j k] by (auto simp: i split: if_splits)
  qed
  show ok': "bio_ok ?t"
    using bio_okD(1,2,4-7) [OF ok] inj i assms(3) unfolding bio_ok_def by simp
  show "blk ?t = blk s"
  proof
    fix c show "blk ?t c = blk s c"
    proof (cases "c = b")
      case True
      then show ?thesis using blk_slot [OF ok', of i] i by simp
    next
      case False
      show ?thesis
      proof (rule blk_eqI)
        fix j assume "j < NBUF" "b_dev (bufs ?t j) = 1" "b_valid (bufs ?t j)" "b_blockno (bufs ?t j) = c"
        then show "b_data (bufs ?t j) = blk s c" using False blk_slot [OF ok, of j c] i(5) by (auto split: if_splits)
      next
        assume n: "\<And>j. j < NBUF \<Longrightarrow> b_dev (bufs ?t j) = 1 \<Longrightarrow> b_blockno (bufs ?t j) = c \<Longrightarrow> \<not> b_valid (bufs ?t j)"
        have "blk s c = disk s (unat c)"
        proof (rule blk_eqI)
          fix j assume j: "j < NBUF" "b_dev (bufs s j) = 1" "b_valid (bufs s j)" "b_blockno (bufs s j) = c"
          then have "j = i" using n [of j] by (cases "j = i") simp_all
          then show "b_data (bufs s j) = disk s (unat c)" using j bio_okD(6) [OF ok i(1,2)] bd False by auto
        qed (rule refl)
        then show "disk ?t (unat c) = blk s c" by simp
      qed
    qed
  qed
qed

lemma held_lt: "i \<in> held s \<Longrightarrow> i < NBUF" by (simp add: held_def)

lemma finite_slots [simp]: "finite (held s)" "finite (dirties s)"
  by (auto simp: held_def dirties_def)

lemma room:
  assumes "card (held s \<union> dirties s) < NBUF"
  shows "\<exists>i<NBUF. i \<notin> held s \<and> \<not> b_dirty (bufs s i)"
proof -
  have "held s \<union> dirties s \<noteq> {..<NBUF}" using assms by (metis card_lessThan less_irrefl)
  moreover have "held s \<union> dirties s \<subseteq> {..<NBUF}" unfolding held_def dirties_def by blast
  ultimately obtain i where "i \<in> {..<NBUF}" "i \<notin> held s \<union> dirties s" by blast
  then show ?thesis by (intro exI [of _ i]) (simp add: dirties_def)
qed

lemma bread_wp:
  assumes "bio_inv s" "unat b < disksize s" "\<forall>i\<in>held s. b_blockno (bufs s i) \<noteq> b"
    "card (held s \<union> dirties s) < NBUF \<or> b \<in> dblocks s"
  shows "wp (bread 1 b) (\<lambda>i t. bio_inv t \<and> still s t \<and> i < NBUF \<and> i \<notin> held s \<and> held t = insert i (held s) \<and>
    (\<forall>j. j \<noteq> i \<longrightarrow> bufs t j = bufs s j) \<and> b_blockno (bufs t i) = b \<and> b_data (bufs t i) = blk s b \<and> blk t = blk s \<and>
    dirties t = dirties s \<and> dblocks t = dblocks s \<and> (b_dirty (bufs t i) \<or> blk s b = disk s (unat b))) s"
proof -
  have *: "calm s" "cur_of (mach s) \<noteq> None" "bio_ok s" using assms(1) by (simp_all add: bio_inv_def)
  then obtain p where "cur_of (mach s) = Some p" by blast
  moreover have "(\<exists>i<NBUF. i \<notin> held s \<and> \<not> b_dirty (bufs s i)) \<or> (\<exists>i<NBUF. b_dirty (bufs s i) \<and> b_blockno (bufs s i) = b)"
    using assms(4) room [of s] by (auto simp: dblocks_def dirties_def)
  ultimately obtain i B where
    r: "bread 1 b s = Inr (i, lock_buf i (with_buf i B s))" and B: "read_buf s b i B"
    using bread_run [OF *(1) _ *(3) assms(2) bspec [OF assms(3)]] by blast
  let ?t = "lock_buf i (with_buf i B s)"
  have i: "i < NBUF" "i \<notin> held s" "b_valid B" "b_dev B = 1" "b_blockno B = b" "b_refcnt B = 1" "b_data B = blk s b"
    "b_dirty B = b_dirty (bufs s i)" and bd: "b_dirty (bufs s i) \<Longrightarrow> b_blockno (bufs s i) = b"
    and un: "\<And>j. j < NBUF \<Longrightarrow> j \<noteq> i \<Longrightarrow> b_dev (bufs s j) = 1 \<Longrightarrow> b_blockno (bufs s j) \<noteq> b"
    using B by (auto simp: read_buf_def)
  note ok = bread_bio_ok [OF *(3) B assms(2)]
  have d: "dirties ?t = dirties s" using i by (auto simp: dirties_def)
  have db: "dblocks ?t = dblocks s" unfolding dblocks_def d using i bd
    by (intro image_cong) (auto simp: dirties_def)
  have st: "still s ?t" using io_frame_trans [OF io_frame_parts(1) io_frame_parts(2)] by (simp add: still_def)
  have cl: "b_dirty (bufs s i) \<or> blk s b = disk s (unat b)"
  proof (cases "b_dirty (bufs s i)")
    case False
    have "blk s b = disk s (unat b)"
    proof (rule blk_eqI)
      fix j assume j: "j < NBUF" "b_dev (bufs s j) = 1" "b_valid (bufs s j)" "b_blockno (bufs s j) = b"
      then have "j = i" using un by blast
      then show "b_data (bufs s j) = disk s (unat b)" using bio_okD(6) [OF *(3) i(1,2) _ False] j by blast
    qed (rule refl)
    then show ?thesis ..
  qed simp
  have "bio_inv ?t" using * ok(1) by (simp add: bio_inv_def)
  then show ?thesis using r i d db st cl ok(2) by (simp add: wp_def)
qed

definition unlock_buf :: "nat \<Rightarrow> 'z bio_state_scheme \<Rightarrow> 'z bio_state_scheme" where
  "unlock_buf i s = s\<lparr>slocks := (slocks s)(SBuf i := \<lparr>sl_locked = False, sl_pid = 0\<rparr>),
     procs := wake_all (Some (ChSleep (SBuf i))) (procs s),
     bufs := (bufs s)(i := (bufs s i)\<lparr>b_refcnt := 0\<rparr>), lru := i # removeAll i (lru s)\<rparr>"

lemma unlock_buf_sel [simp]: "bufs (unlock_buf i s) = (bufs s)(i := (bufs s i)\<lparr>b_refcnt := 0\<rparr>)"
  "mach (unlock_buf i s) = mach s" "disk (unlock_buf i s) = disk s" "disksize (unlock_buf i s) = disksize s"
  "lru (unlock_buf i s) = i # removeAll i (lru s)" "wlog (unlock_buf i s) = wlog s" "held (unlock_buf i s) = held s - {i}"
  by (auto simp: unlock_buf_def held_def)

lemma calm_unlock [simp]: "calm (unlock_buf i s) = calm s"
  unfolding calm_def unlock_buf_sel by (rule refl)

lemma brelse_run:
  assumes "calm s" "bio_ok s" "i \<in> held s"
  shows "brelse i s = Inr ((), unlock_buf i s)"
  using assms bio_okD(7) [OF assms(2,3)] by (simp add: brelse_def upd_buf_def whn_def held_def unlock_buf_def)

lemma blk_cong: "(\<And>i. i < NBUF \<Longrightarrow> b_dev (bufs t i) = b_dev (bufs s i) \<and> b_valid (bufs t i) = b_valid (bufs s i) \<and>
    b_blockno (bufs t i) = b_blockno (bufs s i) \<and> b_data (bufs t i) = b_data (bufs s i)) \<Longrightarrow> disk t = disk s \<Longrightarrow> blk t = blk s"
proof
  fix c assume *: "\<And>i. i < NBUF \<Longrightarrow> b_dev (bufs t i) = b_dev (bufs s i) \<and> b_valid (bufs t i) = b_valid (bufs s i) \<and>
    b_blockno (bufs t i) = b_blockno (bufs s i) \<and> b_data (bufs t i) = b_data (bufs s i)" "disk t = disk s"
  have "slot_of t c = slot_of s c" unfolding slot_of_def first_idx_def by (rule find_cong) (simp_all add: *(1))
  moreover have "slot_of s c = Some i \<Longrightarrow> i < NBUF" for i unfolding slot_of_def by (drule first_idx_SomeD) simp
  ultimately show "blk t c = blk s c" using * by (simp add: blk_def split: option.split)
qed

lemma bio_okI:
  assumes "distinct (lru s)" "set (lru s) = {..<NBUF}"
    "inj_on (\<lambda>i. b_blockno (bufs s i)) {i. i < NBUF \<and> b_dev (bufs s i) = 1}"
    "\<And>i. i < NBUF \<Longrightarrow> b_dirty (bufs s i) \<Longrightarrow> b_valid (bufs s i) \<and> b_dev (bufs s i) = 1"
    "\<And>i. i < NBUF \<Longrightarrow> i \<notin> held s \<Longrightarrow> b_refcnt (bufs s i) = 0"
    "\<And>i. i < NBUF \<Longrightarrow> i \<notin> held s \<Longrightarrow> b_valid (bufs s i) \<Longrightarrow> \<not> b_dirty (bufs s i) \<Longrightarrow>
        b_dev (bufs s i) = 1 \<and> b_data (bufs s i) = disk s (unat (b_blockno (bufs s i)))"
    "\<And>i. i < NBUF \<Longrightarrow> i \<in> held s \<Longrightarrow> b_refcnt (bufs s i) = 1 \<and> b_valid (bufs s i) \<and> b_dev (bufs s i) = 1 \<and>
        unat (b_blockno (bufs s i)) < disksize s"
  shows "bio_ok s"
  unfolding bio_ok_def by (intro conjI allI impI assms; assumption)

lemma brelse_wp:
  assumes "bio_inv s" "i \<in> held s" "b_dirty (bufs s i) \<or> b_data (bufs s i) = disk s (unat (b_blockno (bufs s i)))"
  shows "wp (brelse i) (\<lambda>_ t. bio_inv t \<and> still s t \<and> held t = held s - {i} \<and> blk t = blk s \<and>
    bufs t = (bufs s)(i := (bufs s i)\<lparr>b_refcnt := 0\<rparr>) \<and> dirties t = dirties s \<and> dblocks t = dblocks s) s"
proof -
  have *: "calm s" "cur_of (mach s) \<noteq> None" "bio_ok s" using assms(1) by (simp_all add: bio_inv_def)
  let ?t = "unlock_buf i s"
  have eq: "(\<lambda>j. b_blockno (bufs ?t j)) = (\<lambda>j. b_blockno (bufs s j))" "(\<lambda>j. b_dev (bufs ?t j)) = (\<lambda>j. b_dev (bufs s j))"
    by auto
  have inj: "inj_on (\<lambda>j. b_blockno (bufs ?t j)) {j. j < NBUF \<and> b_dev (bufs ?t j) = 1}"
    unfolding eq fun_cong [OF eq(2)] using *(3) unfolding bio_ok_def by blast
  have b: "bio_ok ?t"
  proof (rule bio_okI)
    show "distinct (lru ?t)" "set (lru ?t) = {..<NBUF}" using bio_okD(1,2) [OF *(3)] held_lt [OF assms(2)]
      by (simp_all add: insert_absorb distinct_removeAll)
  next
    fix j assume j: "j < NBUF"
    show "b_dirty (bufs ?t j) \<Longrightarrow> b_valid (bufs ?t j) \<and> b_dev (bufs ?t j) = 1"
      using bio_okD(4) [OF *(3) j] by (simp split: if_splits)
    show "j \<notin> held ?t \<Longrightarrow> b_refcnt (bufs ?t j) = 0" using bio_okD(5) [OF *(3) j] by (cases "j = i") simp_all
    show "j \<notin> held ?t \<Longrightarrow> b_valid (bufs ?t j) \<Longrightarrow> \<not> b_dirty (bufs ?t j) \<Longrightarrow>
        b_dev (bufs ?t j) = 1 \<and> b_data (bufs ?t j) = disk ?t (unat (b_blockno (bufs ?t j)))"
      using bio_okD(6) [OF *(3) j] bio_okD(7) [OF *(3) assms(2)] assms(3) by (cases "j = i") simp_all
    show "j \<in> held ?t \<Longrightarrow> b_refcnt (bufs ?t j) = 1 \<and> b_valid (bufs ?t j) \<and> b_dev (bufs ?t j) = 1 \<and>
        unat (b_blockno (bufs ?t j)) < disksize ?t" using bio_okD(7) [OF *(3), of j] by simp
  qed (rule inj)
  have d: "dirties ?t = dirties s" by (auto simp: dirties_def)
  have st: "still s ?t" unfolding still_def by (intro conjI io_frameI) (simp_all add: unlock_buf_def)
  have bl: "blk ?t = blk s" by (rule blk_cong) simp_all
  have db: "dblocks ?t = dblocks s" unfolding dblocks_def d by (rule image_cong) auto
  show ?thesis using brelse_run [OF *(1,3) assms(2)] * b d db bl st by (simp add: wp_def bio_inv_def)
qed

text \<open>Changing a buffer in use, and perhaps its block on the disk.\<close>

lemma held_upd:
  assumes ok: "bio_ok s" and i: "i \<in> held s"
    and B: "b_dev B = b_dev (bufs s i)" "b_blockno B = b_blockno (bufs s i)" "b_refcnt B = b_refcnt (bufs s i)" "b_valid B"
    and D: "\<And>c. c \<noteq> unat (b_blockno (bufs s i)) \<Longrightarrow> D c = disk s c"
    and t: "t = (with_buf i B s)\<lparr>disk := D, wlog := W\<rparr>"
  shows "bio_ok t" "blk t = (blk s)(b_blockno B := b_data B)"
proof -
  have [simp]: "bufs t = (bufs s)(i := B)" "held t = held s" "lru t = lru s" "disk t = D" "disksize t = disksize s"
    by (simp_all add: t held_def)
  note i' = bio_okD(7) [OF ok i]
  have eq: "(\<lambda>j. b_blockno (bufs t j)) = (\<lambda>j. b_blockno (bufs s j))" "(\<lambda>j. b_dev (bufs t j)) = (\<lambda>j. b_dev (bufs s j))"
    using B by auto
  have inj: "inj_on (\<lambda>j. b_blockno (bufs t j)) {j. j < NBUF \<and> b_dev (bufs t j) = 1}"
    unfolding eq fun_cong [OF eq(2)] using ok unfolding bio_ok_def by blast
  have oth: "b_blockno (bufs s j) \<noteq> b_blockno (bufs s i)" if "j < NBUF" "j \<noteq> i" "b_dev (bufs s j) = 1" for j
    using bio_okD(3) [OF ok that(1), of i] that i' by blast
  show ok': "bio_ok t"
  proof (rule bio_okI)
    show "distinct (lru t)" "set (lru t) = {..<NBUF}" using bio_okD(1,2) [OF ok] by simp_all
  next
    fix j assume j: "j < NBUF"
    show "b_dirty (bufs t j) \<Longrightarrow> b_valid (bufs t j) \<and> b_dev (bufs t j) = 1"
      using bio_okD(4) [OF ok j] B i' by (cases "j = i") simp_all
    show "j \<notin> held t \<Longrightarrow> b_refcnt (bufs t j) = 0" using bio_okD(5) [OF ok j] i by (cases "j = i") simp_all
    show "j \<notin> held t \<Longrightarrow> b_valid (bufs t j) \<Longrightarrow> \<not> b_dirty (bufs t j) \<Longrightarrow>
        b_dev (bufs t j) = 1 \<and> b_data (bufs t j) = disk t (unat (b_blockno (bufs t j)))"
      using bio_okD(6) [OF ok j] oth [OF j] i D [of "unat (b_blockno (bufs s j))"]
      by (cases "j = i") (simp_all add: unat_inj)
    show "j \<in> held t \<Longrightarrow> b_refcnt (bufs t j) = 1 \<and> b_valid (bufs t j) \<and> b_dev (bufs t j) = 1 \<and>
        unat (b_blockno (bufs t j)) < disksize t" using bio_okD(7) [OF ok, of j] i' B by (cases "j = i") simp_all
  qed (rule inj)
  show "blk t = (blk s)(b_blockno B := b_data B)"
  proof
    fix c
    show "blk t c = ((blk s)(b_blockno B := b_data B)) c"
    proof (rule blk_eqI)
      fix j assume j: "j < NBUF" "b_dev (bufs t j) = 1" "b_valid (bufs t j)" "b_blockno (bufs t j) = c"
      then show "b_data (bufs t j) = ((blk s)(b_blockno B := b_data B)) c"
        using oth [OF j(1)] blk_slot [OF ok j(1)] B(2) by (cases "j = i") auto
    next
      assume n: "\<And>j. j < NBUF \<Longrightarrow> b_dev (bufs t j) = 1 \<Longrightarrow> b_blockno (bufs t j) = c \<Longrightarrow> \<not> b_valid (bufs t j)"
      have c: "c \<noteq> b_blockno B" using n [of i] i' B by auto
      have "blk s c = disk s (unat c)"
      proof (rule blk_disk)
        fix j assume "j < NBUF" "b_dev (bufs s j) = 1" "b_blockno (bufs s j) = c"
        then show "\<not> b_valid (bufs s j)" using n [of j] c B(2) by (cases "j = i") simp_all
      qed
      then show "disk t (unat c) = ((blk s)(b_blockno B := b_data B)) c" using c D [of "unat c"] B(2) by (simp add: unat_inj)
    qed
  qed
qed

lemma set_bdata_wp:
  assumes "bio_inv s" "i \<in> held s"
  shows "wp (set_bdata i d) (\<lambda>_ t. bio_inv t \<and> still s t \<and> held t = held s \<and> blk t = (blk s)(b_blockno (bufs s i) := d) \<and>
    bufs t = (bufs s)(i := (bufs s i)\<lparr>b_data := d\<rparr>) \<and> dirties t = dirties s \<and> dblocks t = dblocks s) s"
proof -
  let ?B = "(bufs s i)\<lparr>b_data := d\<rparr>" let ?t = "with_buf i ?B s"
  have *: "calm s" "cur_of (mach s) \<noteq> None" "bio_ok s" using assms(1) by (simp_all add: bio_inv_def)
  have t: "?t = (with_buf i ?B s)\<lparr>disk := disk s, wlog := wlog s\<rparr>" by (simp add: with_buf_def)
  note u = held_upd [OF *(3) assms(2) _ _ _ _ _ t]
  have "bio_ok ?t" using bio_okD(7) [OF *(3) assms(2)] by (intro u(1)) simp_all
  moreover have "blk ?t = (blk s)(b_blockno (bufs s i) := d)" using bio_okD(7) [OF *(3) assms(2)] by (subst u(2)) simp_all
  moreover have d: "dirties ?t = dirties s" by (auto simp: dirties_def)
  moreover have "dblocks ?t = dblocks s" unfolding dblocks_def d by (rule image_cong) auto
  moreover have "still s ?t" unfolding still_def using io_frame_parts(1) by simp
  ultimately show ?thesis using * by (simp add: wp_def set_bdata_def upd_buf_def upd_def bio_inv_def with_buf_def [symmetric])
qed

lemma bwrite_wp:
  assumes "bio_inv s" "i \<in> held s"
  shows "wp (bwrite i) (\<lambda>_ t. bio_inv t \<and> io_frame s t \<and> held t = held s \<and> blk t = blk s \<and>
    bufs t = (bufs s)(i := (bufs s i)\<lparr>b_dirty := False\<rparr>) \<and> disk t = (disk s)(unat (b_blockno (bufs s i)) := b_data (bufs s i)) \<and>
    wlog t = wlog s @ [(unat (b_blockno (bufs s i)), b_data (bufs s i))] \<and> dirties t = dirties s - {i}) s"
proof -
  have *: "calm s" "cur_of (mach s) \<noteq> None" "bio_ok s" using assms(1) by (simp_all add: bio_inv_def)
  note i = bio_okD(7) [OF *(3) assms(2)]
  let ?B = "(bufs s i)\<lparr>b_dirty := False\<rparr>" let ?D = "(disk s)(unat (b_blockno (bufs s i)) := b_data (bufs s i))"
  let ?W = "wlog s @ [(unat (b_blockno (bufs s i)), b_data (bufs s i))]"
  let ?t = "(with_buf i ?B s)\<lparr>disk := ?D, wlog := ?W\<rparr>"
  have l: "sl_locked (slocks s (SBuf i))" using assms(2) by (simp add: held_def)
  have "iderw i (with_buf i ((bufs s i)\<lparr>b_dirty := True\<rparr>) s) = Inr ((), ?t)"
    using i l * by (subst iderw_write) (simp_all, simp add: with_buf_def, cases "bufs s i", simp)
  then have run: "bwrite i s = Inr ((), ?t)"
    using l * by (simp add: bwrite_def upd_buf_def upd_def with_buf_def [symmetric])
  note u = held_upd [OF *(3) assms(2) _ _ _ _ _ refl, of ?B ?D ?W]
  have "bio_ok ?t" using i by (intro u(1)) simp_all
  moreover have "blk ?t = blk s" using i blk_slot [OF *(3), of i] by (subst u(2)) auto
  moreover have "dirties ?t = dirties s - {i}" by (auto simp: dirties_def)
  moreover have "held ?t = held s" by (simp add: held_def)
  moreover have f: "io_frame s ?t" by (rule io_frameI) (simp_all add: with_buf_def)
  moreover have "calm ?t" using *(1) io_frameD(6) [OF f] by simp
  ultimately show ?thesis using *(2) by (simp add: wp_def run bio_inv_def)
qed

subsection \<open>The contract of the cache\<close>

definition zero_buf :: buf where
  "zero_buf = \<lparr>b_valid = False, b_dirty = False, b_dev = 0, b_blockno = 0, b_refcnt = 0, b_data = (\<lambda>_. 0)\<rparr>"

definition boot_bio :: bio_state where
  "boot_bio = vm_state.extend (kmem_state.extend boot_kmem \<lparr>policy = SCFIFO\<rparr>)
     \<lparr>bufs = (\<lambda>_. zero_buf), lru = rev [0..<NBUF], disk = (\<lambda>b _. of_nat b), disksize = 1000, wlog = []\<rparr>"

lemma boot_bio_sel [simp]: "mach boot_bio = boot_mach" "bufs boot_bio = (\<lambda>_. zero_buf)" "disksize boot_bio = 1000"
  "disk boot_bio = (\<lambda>b _. of_nat b)" "wlog boot_bio = []" "lru boot_bio = rev [0..<NBUF]" "held boot_bio = {}"
  by (simp_all add: boot_bio_def vm_state.defs kmem_state.defs boot_kmem_def ptab_state.defs boot_ptab_def held_def)

lemma empty_cache_ok: "distinct (lru s) \<Longrightarrow> set (lru s) = {..<NBUF} \<Longrightarrow> bufs s = (\<lambda>_. zero_buf) \<Longrightarrow> held s = {} \<Longrightarrow>
  bio_ok s \<and> dirties s = {} \<and> blk s = (\<lambda>b. disk s (unat b))"
  by (auto simp: bio_ok_def zero_buf_def dirties_def blk_disk)

lemma boot_bio_ok [simp]: "bio_ok boot_bio" "bio_inv boot_bio" "dirties boot_bio = {}" "blk boot_bio = (\<lambda>b _. of_nat (unat b))"
proof -
  have "bio_ok boot_bio \<and> dirties boot_bio = {} \<and> blk boot_bio = (\<lambda>b. disk boot_bio (unat b))"
    by (rule empty_cache_ok) (simp_all add: lessThan_atLeast0)
  then show "bio_ok boot_bio" "dirties boot_bio = {}" "blk boot_bio = (\<lambda>b _. of_nat (unat b))" by simp_all
  then show "bio_inv boot_bio" by (simp add: bio_inv_def)
qed

text \<open>
  C5: reading a block that no one else uses locks one buffer and hands out the block's current
  contents, whether they were cached or had to come from the disk by recycling a buffer; releasing it
  leaves every block's contents as they were. No block is written to the disk, no dirty buffer is
  recycled, and the cache invariant (one buffer per block, clean idle buffers agree with the disk) is
  kept.
\<close>

theorem bread_brelse_spec:
  assumes "bio_inv s" "unat b < disksize s" "\<forall>i\<in>held s. b_blockno (bufs s i) \<noteq> b" "card (held s \<union> dirties s) < NBUF"
  shows "\<exists>i t u. bread 1 b s = Inr (i, t) \<and> i \<notin> held s \<and> held t = insert i (held s) \<and> b_blockno (bufs t i) = b \<and>
    b_data (bufs t i) = blk s b \<and> brelse i t = Inr ((), u) \<and> held u = held s \<and> blk u = blk s \<and> disk u = disk s \<and>
    wlog u = wlog s \<and> dblocks u = dblocks s \<and> bio_inv u"
proof -
  from bread_wp [OF assms(1-3) disjI1 [OF assms(4)]] obtain i t where r: "bread 1 b s = Inr (i, t)" "bio_inv t"
    "still s t" "i < NBUF" "i \<notin> held s" "held t = insert i (held s)" "b_blockno (bufs t i) = b" "b_data (bufs t i) = blk s b"
    "blk t = blk s" "dblocks t = dblocks s" "b_dirty (bufs t i) \<or> blk s b = disk s (unat b)"
    by (elim wp_E conjE) (rule that)
  have "wp (brelse i) (\<lambda>_ u. bio_inv u \<and> still t u \<and> held u = held t - {i} \<and> blk u = blk t \<and>
    bufs u = (bufs t)(i := (bufs t i)\<lparr>b_refcnt := 0\<rparr>) \<and> dirties u = dirties t \<and> dblocks u = dblocks t) t"
    by (rule brelse_wp) (use r in \<open>auto simp: still_def\<close>)
  then obtain u where "brelse i t = Inr ((), u)" "bio_inv u" "still t u" "held u = held t - {i}" "blk u = blk t"
    "dblocks u = dblocks t" by (elim wp_E conjE) (simp add: that)
  with r show ?thesis by (intro exI [of _ i] exI [of _ t] exI [of _ u]) (simp add: still_def)
qed

theorem bread_brelse_spec_witness:
  "\<exists>i t u. bread 1 7 boot_bio = Inr (i, t) \<and> b_data (bufs t i) = (\<lambda>_. 7) \<and> brelse i t = Inr ((), u) \<and> wlog u = []"
  using bread_brelse_spec [of boot_bio 7] by fastforce

subsection \<open>The rules as runs\<close>

lemma wp_unitE: "wp m Q s \<Longrightarrow> (\<And>t. m s = Inr ((), t) \<Longrightarrow> Q () t \<Longrightarrow> R) \<Longrightarrow> R"
  by (erule wp_E) simp

lemma bread_run_ok:
  assumes "bio_inv s" "unat b < disksize s" "\<forall>i\<in>held s. b_blockno (bufs s i) \<noteq> b"
    "card (held s \<union> dirties s) < NBUF \<or> b \<in> dblocks s"
  obtains i t where "bread 1 b s = Inr (i, t)" "bio_inv t" "io_frame s t" "disk t = disk s" "wlog t = wlog s"
    "i < NBUF" "i \<notin> held s" "held t = insert i (held s)" "\<forall>j. j \<noteq> i \<longrightarrow> bufs t j = bufs s j" "b_blockno (bufs t i) = b"
    "b_data (bufs t i) = blk s b" "blk t = blk s" "dirties t = dirties s" "dblocks t = dblocks s"
    "b_dirty (bufs t i) \<or> blk s b = disk s (unat b)"
  using bread_wp [OF assms] unfolding still_def by (elim wp_E conjE) (rule that)

lemma brelse_run_ok:
  assumes "bio_inv s" "i \<in> held s" "b_dirty (bufs s i) \<or> b_data (bufs s i) = disk s (unat (b_blockno (bufs s i)))"
  obtains t where "brelse i s = Inr ((), t)" "bio_inv t" "io_frame s t" "disk t = disk s" "wlog t = wlog s" "held t = held s - {i}"
    "blk t = blk s" "bufs t = (bufs s)(i := (bufs s i)\<lparr>b_refcnt := 0\<rparr>)" "dirties t = dirties s" "dblocks t = dblocks s"
  using brelse_wp [OF assms] unfolding still_def by (elim wp_unitE conjE) (rule that)

lemma set_bdata_run_ok:
  assumes "bio_inv s" "i \<in> held s"
  obtains t where "set_bdata i d s = Inr ((), t)" "bio_inv t" "io_frame s t" "disk t = disk s" "wlog t = wlog s" "held t = held s"
    "blk t = (blk s)(b_blockno (bufs s i) := d)" "bufs t = (bufs s)(i := (bufs s i)\<lparr>b_data := d\<rparr>)" "dirties t = dirties s"
    "dblocks t = dblocks s"
  using set_bdata_wp [OF assms, of d] unfolding still_def by (elim wp_unitE conjE) (rule that)

lemma bwrite_run_ok:
  assumes "bio_inv s" "i \<in> held s"
  obtains t where "bwrite i s = Inr ((), t)" "bio_inv t" "io_frame s t" "held t = held s" "blk t = blk s"
    "bufs t = (bufs s)(i := (bufs s i)\<lparr>b_dirty := False\<rparr>)" "disk t = (disk s)(unat (b_blockno (bufs s i)) := b_data (bufs s i))"
    "wlog t = wlog s @ [(unat (b_blockno (bufs s i)), b_data (bufs s i))]" "dirties t = dirties s - {i}"
    "dblocks t = dblocks s - {b_blockno (bufs s i)}"
proof -
  from bwrite_wp [OF assms] obtain t where t: "bwrite i s = Inr ((), t)" "bio_inv t" "io_frame s t" "held t = held s" "blk t = blk s"
    "bufs t = (bufs s)(i := (bufs s i)\<lparr>b_dirty := False\<rparr>)" "disk t = (disk s)(unat (b_blockno (bufs s i)) := b_data (bufs s i))"
    "wlog t = wlog s @ [(unat (b_blockno (bufs s i)), b_data (bufs s i))]" "dirties t = dirties s - {i}"
    by (elim wp_unitE conjE) (rule that)
  have ok: "bio_ok s" using assms(1) by (simp add: bio_inv_def)
  have inj: "b_blockno (bufs s j) \<noteq> b_blockno (bufs s i)" if "j \<in> dirties s" "j \<noteq> i" for j
    using bio_okD(3) [OF ok, of j i] bio_okD(4) [OF ok, of j] bio_okD(7) [OF ok assms(2)] that by (auto simp: dirties_def)
  have "dblocks t = (\<lambda>j. b_blockno (bufs s j)) ` (dirties s - {i})"
    unfolding dblocks_def t(9) by (rule image_cong) (simp_all add: t(6))
  also have "\<dots> = dblocks s - {b_blockno (bufs s i)}" unfolding dblocks_def using inj by auto
  finally show thesis using t by (intro that)
qed

end
