(* ===== verification/Log.thy ===== *)
theory Log
  imports Bio
begin

text \<open>
  The write-ahead log (\<open>log.c\<close>) and the reading of the super block (\<open>readsb\<close> of \<open>fs.c\<close>). The fields of
  \<open>struct log\<close> extend the kernel's state; the on-disk header is the bytes of its block. Waiting in
  \<open>begin_op\<close> is the outcome \<open>Waits\<close>; the interleavings of several system calls are the relation
  \<open>op_step\<close>. The theorems: what \<open>commit\<close> writes and in which order, that recovery after a crash at any
  point of it yields the state before the transaction or the state after it, and how much log space
  \<open>begin_op\<close> reserves.
\<close>

unbundle bit_operations_syntax

section \<open>Definitions\<close>

abbreviation "MAXOPBLOCKS \<equiv> (10 :: int)"
abbreviation "LOGSIZE \<equiv> (30 :: int)"

record superblock =
  sb_size :: u32
  sb_nblocks :: u32
  sb_ninodes :: u32
  sb_nlog :: u32
  sb_logstart :: u32
  sb_inodestart :: u32
  sb_bmapstart :: u32

record log_state = bio_state +
  lg_start :: u32
  lg_size :: int
  lg_outstanding :: int
  lg_committing :: bool
  lg_dev :: u32
  lh_n :: int
  lh_block :: "nat \<Rightarrow> u32"

definition sb_of :: "bview \<Rightarrow> superblock" where
  "sb_of d = \<lparr>sb_size = ld32 d 0, sb_nblocks = ld32 d 4, sb_ninodes = ld32 d 8, sb_nlog = ld32 d 12,
     sb_logstart = ld32 d 16, sb_inodestart = ld32 d 20, sb_bmapstart = ld32 d 24\<rparr>"

definition readsb :: "u32 \<Rightarrow> ('z bio_state_scheme, superblock) kop" where
  "readsb dev =
     bnd (bread dev 1) (\<lambda>bp.
     bnd (bdata bp) (\<lambda>d.
     thn (brelse bp)
     (ret (sb_of d))))"

definition log_blockno :: "nat \<Rightarrow> ('z log_state_scheme, u32) kop" where
  "log_blockno tail = rd (\<lambda>s. lg_start s + of_nat tail + 1)"

definition install_one :: "nat \<Rightarrow> ('z log_state_scheme, unit) kop" where
  "install_one tail =
     bnd (rd lg_dev) (\<lambda>dev.
     bnd (log_blockno tail) (\<lambda>l.
     bnd (bread dev l) (\<lambda>lbuf.
     bnd (rd (\<lambda>s. lh_block s tail)) (\<lambda>h.
     bnd (bread dev h) (\<lambda>dbuf.
     bnd (bdata lbuf) (\<lambda>d.
     thn (set_bdata dbuf d) (
     thn (bwrite dbuf) (
     thn (brelse lbuf)
     (brelse dbuf)))))))))"

definition install_trans :: "('z log_state_scheme, unit) kop" where
  "install_trans = bnd (rd lh_n) (\<lambda>n. each install_one [0..<nat n])"

definition read_head :: "('z log_state_scheme, unit) kop" where
  "read_head =
     bnd (rd lg_dev) (\<lambda>dev.
     bnd (rd lg_start) (\<lambda>start.
     bnd (bread dev start) (\<lambda>b.
     bnd (bdata b) (\<lambda>lh.
     thn (upd (\<lambda>s. s\<lparr>lh_n := sint (ld32 lh 0)\<rparr>)) (
     thn (each (\<lambda>i. if int i < LOGSIZE then upd (\<lambda>s. s\<lparr>lh_block := (lh_block s)(i := ld32 lh (4 + 4 * i))\<rparr>)
                    else kerror (Fault ''log.lh.block''))
            [0..<nat (sint (ld32 lh 0))])
     (brelse b))))))"

definition put_head :: "int \<Rightarrow> (nat \<Rightarrow> u32) \<Rightarrow> bview \<Rightarrow> bview" where
  "put_head n bs hb = fold (\<lambda>i d. st32 d (4 + 4 * i) (bs i)) [0..<nat n] (st32 hb 0 (of_int n))"

definition write_head :: "('z log_state_scheme, unit) kop" where
  "write_head =
     bnd (rd lg_dev) (\<lambda>dev.
     bnd (rd lg_start) (\<lambda>start.
     bnd (bread dev start) (\<lambda>b.
     bnd (bdata b) (\<lambda>hb.
     bnd (rd (\<lambda>s. put_head (lh_n s) (lh_block s) hb)) (\<lambda>hb'.
     thn (set_bdata b hb') (
     thn (bwrite b)
     (brelse b)))))))"

definition recover_from_log :: "('z log_state_scheme, unit) kop" where
  "recover_from_log =
     thn read_head (
     thn install_trans (
     thn (upd (\<lambda>s. s\<lparr>lh_n := 0\<rparr>))
     write_head))"

text \<open>\<open>sizeof(struct logheader)\<close> is 4 + 4 * LOGSIZE, less than BSIZE, so \<open>initlog\<close>'s panic is dead code.\<close>

definition initlog :: "u32 \<Rightarrow> ('z log_state_scheme, unit) kop" where
  "initlog dev =
     (if 4 + 4 * nat LOGSIZE \<ge> BSIZE then panic ''initlog: too big logheader''
      else
        thn (initlock LLog) (
        bnd (readsb dev) (\<lambda>sb.
        thn (upd (\<lambda>s. s\<lparr>lg_start := sb_logstart sb, lg_size := sint (sb_nlog sb), lg_dev := dev\<rparr>))
        recover_from_log)))"

definition begin_op :: "('z log_state_scheme, unit) kop" where
  "begin_op =
     thn (acquire LLog) (
     bnd (rd (\<lambda>s. (lg_committing s, lh_n s, lg_outstanding s))) (\<lambda>(committing, n, out).
     if committing then kerror (Waits ''begin_op'')
     else if n + (out + 1) * MAXOPBLOCKS > LOGSIZE then kerror (Waits ''begin_op'')
     else
       thn (upd (\<lambda>s. s\<lparr>lg_outstanding := out + 1\<rparr>))
       (release LLog)))"

definition write_log_one :: "nat \<Rightarrow> ('z log_state_scheme, unit) kop" where
  "write_log_one tail =
     bnd (rd lg_dev) (\<lambda>dev.
     bnd (log_blockno tail) (\<lambda>l.
     bnd (bread dev l) (\<lambda>to.
     bnd (rd (\<lambda>s. lh_block s tail)) (\<lambda>h.
     bnd (bread dev h) (\<lambda>from.
     bnd (bdata from) (\<lambda>d.
     thn (set_bdata to d) (
     thn (bwrite to) (
     thn (brelse from)
     (brelse to)))))))))"

definition write_log :: "('z log_state_scheme, unit) kop" where
  "write_log = bnd (rd lh_n) (\<lambda>n. each write_log_one [0..<nat n])"

definition commit :: "('z log_state_scheme, unit) kop" where
  "commit =
     bnd (rd lh_n) (\<lambda>n.
     whn (n > 0) (
       thn write_log (
       thn write_head (
       thn install_trans (
       thn (upd (\<lambda>s. s\<lparr>lh_n := 0\<rparr>))
       write_head)))))"

definition end_op :: "('z log_state_scheme, unit) kop" where
  "end_op =
     thn (acquire LLog) (
     thn (upd (\<lambda>s. s\<lparr>lg_outstanding := lg_outstanding s - 1\<rparr>)) (
     bnd (rd (\<lambda>s. (lg_committing s, lg_outstanding s))) (\<lambda>(committing, out).
     if committing then panic ''log.committing''
     else
       thn (if out = 0 then upd (\<lambda>s. s\<lparr>lg_committing := True\<rparr>) else wakeup ChLog) (
       thn (release LLog)
       (whn (out = 0) (
         thn commit (
         thn (acquire LLog) (
         thn (upd (\<lambda>s. s\<lparr>lg_committing := False\<rparr>)) (
         thn (wakeup ChLog)
         (release LLog))))))))))"

definition log_write :: "nat \<Rightarrow> ('z log_state_scheme, unit) kop" where
  "log_write b =
     bnd (rd (\<lambda>s. (lh_n s, lg_size s, lg_outstanding s))) (\<lambda>(n, size, out).
     if n \<ge> LOGSIZE \<or> n \<ge> size - 1 then panic ''too big a transaction''
     else if out < 1 then panic ''log_write outside of trans''
     else
       thn (acquire LLog) (
       bnd (rd (\<lambda>s. b_blockno (bufs s b))) (\<lambda>no.
       bnd (rd (\<lambda>s. case first_idx (\<lambda>i. lh_block s i = no) (nat n) of Some i \<Rightarrow> i | None \<Rightarrow> nat n)) (\<lambda>i.
       thn (upd (\<lambda>s. s\<lparr>lh_block := (lh_block s)(i := no)\<rparr>)) (
       thn (whn (int i = n) (upd (\<lambda>s. s\<lparr>lh_n := n + 1\<rparr>))) (
       thn (upd_buf b (\<lambda>b. b\<lparr>b_dirty := True\<rparr>))
       (release LLog)))))))"

text \<open>
  Several system calls at once: each operation calls \<open>begin_op\<close>, writes some blocks through
  \<open>log_write\<close>, calls \<open>end_op\<close>; the last one out commits. A step is one critical section under
  \<open>log.lock\<close>; \<open>opn\<close> counts, for each operation that has begun, the blocks it has added to the log.
\<close>

record op_sys =
  o_n :: int
  o_out :: int
  o_committing :: bool
  o_size :: int
  opn :: "nat \<Rightarrow> int option"

inductive op_step :: "op_sys \<Rightarrow> op_sys \<Rightarrow> bool" where
  op_begin: "opn s p = None \<Longrightarrow> \<not> o_committing s \<Longrightarrow> \<not> o_n s + (o_out s + 1) * MAXOPBLOCKS > LOGSIZE \<Longrightarrow>
    op_step s (s\<lparr>o_out := o_out s + 1, opn := (opn s)(p := Some 0)\<rparr>)"
| op_absorb: "opn s p = Some k \<Longrightarrow> \<not> (o_n s \<ge> LOGSIZE \<or> o_n s \<ge> o_size s - 1) \<Longrightarrow> op_step s s"
| op_log: "opn s p = Some k \<Longrightarrow> \<not> (o_n s \<ge> LOGSIZE \<or> o_n s \<ge> o_size s - 1) \<Longrightarrow> k < MAXOPBLOCKS \<Longrightarrow>
    op_step s (s\<lparr>o_n := o_n s + 1, opn := (opn s)(p := Some (k + 1))\<rparr>)"
| op_end: "opn s p = Some k \<Longrightarrow> o_out s > 1 \<Longrightarrow>
    op_step s (s\<lparr>o_out := o_out s - 1, opn := (opn s)(p := None)\<rparr>)"
| op_last: "opn s p = Some k \<Longrightarrow> o_out s = 1 \<Longrightarrow>
    op_step s (s\<lparr>o_out := 0, o_committing := True, opn := (opn s)(p := None)\<rparr>)"
| op_commit: "o_committing s \<Longrightarrow> op_step s (s\<lparr>o_n := 0, o_committing := False\<rparr>)"

section \<open>Lemmas\<close>

subsection \<open>The log and the cache\<close>

definition lbs :: "'z log_state_scheme \<Rightarrow> u32 list" where
  "lbs s = map (lh_block s) [0..<nat (lh_n s)]"

definition lpos :: "'z log_state_scheme \<Rightarrow> nat \<Rightarrow> u32" where
  "lpos s k = lg_start s + of_nat k + 1"

definition larea :: "'z log_state_scheme \<Rightarrow> nat set" where
  "larea s = {unat (lg_start s)..unat (lg_start s) + 30}"

text \<open>
  \<open>log_geo\<close>: the logged blocks are distinct, on the disk and outside the log. \<open>log_inv\<close>: besides, the
  dirty buffers are exactly those of the logged blocks.
\<close>

definition log_geo :: "'z log_state_scheme \<Rightarrow> bool" where
  "log_geo s \<longleftrightarrow> lg_dev s = 1 \<and> 0 \<le> lh_n s \<and> lh_n s \<le> 29 \<and> unat (lg_start s) + 30 < disksize s \<and>
     disksize s < 2 ^ 32 \<and> distinct (lbs s) \<and> (\<forall>b\<in>set (lbs s). unat b < disksize s \<and> unat b \<notin> larea s)"

definition log_inv :: "'z log_state_scheme \<Rightarrow> bool" where
  "log_inv s \<longleftrightarrow> bio_inv s \<and> log_geo s \<and> dblocks s = set (lbs s)"

lemma io_frame_log:
  assumes "io_frame s t"
  shows "lg_start t = lg_start s" "lg_size t = lg_size s" "lg_outstanding t = lg_outstanding s"
    "lg_committing t = lg_committing s" "lg_dev t = lg_dev s" "lh_n t = lh_n s" "lh_block t = lh_block s"
    "lbs t = lbs s" "lpos t = lpos s" "larea t = larea s"
  using assms unfolding io_frame_def by (auto simp: lbs_def lpos_def larea_def fun_eq_iff)

lemma still_log: "still s t \<Longrightarrow> io_frame s t" by (simp add: still_def)

lemma unat_lpos:
  assumes "unat (lg_start s) + 30 < disksize s" "disksize s < 2 ^ 32" "k < 30"
  shows "unat (lpos s k) = unat (lg_start s) + k + 1"
proof -
  have "unat (of_nat k :: u32) = k" using assms(3) by (simp add: unat_of_nat)
  moreover have "lpos s k = lg_start s + (of_nat k + 1)" by (simp add: lpos_def)
  moreover have "unat (of_nat k + 1 :: u32) = k + 1" using assms(3) calculation(1) by (simp add: unat_word_ariths)
  ultimately show ?thesis using assms by (simp add: unat_word_ariths)
qed

lemma card_dirties: "bio_ok s \<Longrightarrow> card (dirties s) = card (dblocks s)"
  unfolding dblocks_def
proof (rule card_image [symmetric], rule inj_onI)
  fix i j assume "bio_ok s" "i \<in> dirties s" "j \<in> dirties s" "b_blockno (bufs s i) = b_blockno (bufs s j)"
  then show "i = j" using bio_okD(3,4) [of s] unfolding dirties_def by blast
qed

lemma log_invD:
  assumes "log_inv s"
  shows "bio_inv s" "bio_ok s" "lg_dev s = 1" "0 \<le> lh_n s" "lh_n s \<le> 29" "card (dirties s) = nat (lh_n s)"
    "k < 30 \<Longrightarrow> unat (lpos s k) = unat (lg_start s) + k + 1" "k < 30 \<Longrightarrow> unat (lpos s k) < disksize s"
    "k < 30 \<Longrightarrow> lpos s k \<notin> dblocks s" "unat (lg_start s) < disksize s" "lg_start s \<notin> dblocks s" "distinct (lbs s)"
    "dblocks s = set (lbs s)" "k < nat (lh_n s) \<Longrightarrow> lh_block s k \<in> dblocks s"
    "b \<in> dblocks s \<Longrightarrow> unat b < disksize s \<and> unat b \<notin> larea s"
proof -
  note A = assms [unfolded log_inv_def log_geo_def]
  show "bio_inv s" "lg_dev s = 1" "0 \<le> lh_n s" "lh_n s \<le> 29" "unat (lg_start s) < disksize s" "distinct (lbs s)"
    "dblocks s = set (lbs s)" using A by auto
  show ok: "bio_ok s" using A by (simp add: bio_inv_def)
  have "card (set (lbs s)) = nat (lh_n s)" using A distinct_card [of "lbs s"] by (simp add: lbs_def)
  then show "card (dirties s) = nat (lh_n s)" using A card_dirties [OF ok] by simp
  show *: "k < 30 \<Longrightarrow> unat (lpos s k) = unat (lg_start s) + k + 1" using A unat_lpos by blast
  then show "k < 30 \<Longrightarrow> unat (lpos s k) < disksize s" using A by auto
  show "k < 30 \<Longrightarrow> lpos s k \<notin> dblocks s"
  proof
    assume "k < 30" "lpos s k \<in> dblocks s"
    moreover from this have "unat (lpos s k) \<notin> larea s" using A by auto
    ultimately show False using * by (simp add: larea_def)
  qed
  show "lg_start s \<notin> dblocks s"
  proof
    assume "lg_start s \<in> dblocks s"
    then have "unat (lg_start s) \<notin> larea s" using A by auto
    then show False by (simp add: larea_def)
  qed
  show "k < nat (lh_n s) \<Longrightarrow> lh_block s k \<in> dblocks s" using A by (auto simp: lbs_def)
  show "b \<in> dblocks s \<Longrightarrow> unat b < disksize s \<and> unat b \<notin> larea s" using A by auto
qed

lemma not_dirty: "i < NBUF \<Longrightarrow> b_blockno (bufs s i) \<notin> dblocks s \<Longrightarrow> \<not> b_dirty (bufs s i)"
  by (auto simp: dblocks_def dirties_def)

text \<open>Copying a cached block to another block, through two buffers: what both loops of the commit do.\<close>

definition copy_blk :: "u32 \<Rightarrow> ('z bio_state_scheme \<Rightarrow> u32) \<Rightarrow> ('z bio_state_scheme, unit) kop" where
  "copy_blk to from =
     bnd (bread 1 to) (\<lambda>i. bnd (rd from) (\<lambda>b. bnd (bread 1 b) (\<lambda>j. bnd (bdata j) (\<lambda>d.
     thn (set_bdata i d) (thn (bwrite i) (thn (brelse j) (brelse i)))))))"

definition fetch_blk :: "u32 \<Rightarrow> ('z bio_state_scheme \<Rightarrow> u32) \<Rightarrow> ('z bio_state_scheme, unit) kop" where
  "fetch_blk from to =
     bnd (bread 1 from) (\<lambda>i. bnd (rd to) (\<lambda>b. bnd (bread 1 b) (\<lambda>j. bnd (bdata i) (\<lambda>d.
     thn (set_bdata j d) (thn (bwrite j) (thn (brelse i) (brelse j)))))))"

lemma copy_blk_wp:
  assumes "bio_inv s" "held s = {}" "unat l < disksize s" "unat b < disksize s" "l \<noteq> b" "card (dirties s) < NBUF"
    "card (dirties s) < NBUF - 1 \<or> b \<in> dblocks s" "l \<notin> dblocks s"
    "\<And>t. io_frame s t \<Longrightarrow> h t = b"
  shows "wp (copy_blk l h) (\<lambda>_ t. bio_inv t \<and> io_frame s t \<and> held t = {} \<and> blk t = (blk s)(l := blk s b) \<and>
    disk t = (disk s)(unat l := blk s b) \<and> wlog t = wlog s @ [(unat l, blk s b)] \<and> dblocks t = dblocks s) s"
proof -
  have d: "dblocks s - {l} = dblocks s" using assms(8) by blast
  obtain i t1 where 1: "bread 1 l s = Inr (i, t1)" "bio_inv t1" "io_frame s t1" "disk t1 = disk s" "wlog t1 = wlog s"
    "held t1 = {i}" "b_blockno (bufs t1 i) = l" "blk t1 = blk s" "dirties t1 = dirties s" "dblocks t1 = dblocks s"
    using assms by (auto intro: bread_run_ok [of s l])
  have c: "card ({i} \<union> dirties s) < NBUF \<or> b \<in> dblocks s"
    using assms(7) by (cases "b \<in> dblocks s") (simp_all add: card_insert_if)
  obtain j t2 where 2: "bread 1 b t1 = Inr (j, t2)" "bio_inv t2" "io_frame t1 t2" "disk t2 = disk s" "wlog t2 = wlog s"
    "j \<noteq> i" "held t2 = {j, i}" "b_blockno (bufs t2 i) = l" "b_blockno (bufs t2 j) = b" "b_data (bufs t2 j) = blk s b"
    "blk t2 = blk s" "dblocks t2 = dblocks s" "b_dirty (bufs t2 j) \<or> blk s b = disk s (unat b)"
    by (rule bread_run_ok [of t1 b]) (use 1 c assms(4,5) io_frameD(3) [OF 1(3)] in auto)
  obtain t3 where 3: "set_bdata i (blk s b) t2 = Inr ((), t3)" "bio_inv t3" "io_frame t2 t3" "disk t3 = disk s" "wlog t3 = wlog s"
    "held t3 = {j, i}" "blk t3 = (blk s)(l := blk s b)" "bufs t3 = (bufs t2)(i := (bufs t2 i)\<lparr>b_data := blk s b\<rparr>)"
    "dblocks t3 = dblocks s"
    by (rule set_bdata_run_ok [of t2 i "blk s b"]) (use 2 in auto)
  obtain t4 where 4: "bwrite i t3 = Inr ((), t4)" "bio_inv t4" "io_frame t3 t4" "held t4 = {j, i}" "blk t4 = (blk s)(l := blk s b)"
    "bufs t4 = (bufs t3)(i := (bufs t3 i)\<lparr>b_dirty := False\<rparr>)" "disk t4 = (disk s)(unat l := blk s b)"
    "wlog t4 = wlog s @ [(unat l, blk s b)]" "dblocks t4 = dblocks s"
    by (rule bwrite_run_ok [of t3 i]) (use 2 3 d in auto)
  obtain t5 where 5: "brelse j t4 = Inr ((), t5)" "bio_inv t5" "io_frame t4 t5" "disk t5 = disk t4" "wlog t5 = wlog t4"
    "held t5 = {i}" "blk t5 = blk t4" "bufs t5 = (bufs t4)(j := (bufs t4 j)\<lparr>b_refcnt := 0\<rparr>)" "dblocks t5 = dblocks t4"
    by (rule brelse_run_ok [of t4 j]) (use 2 3 4 assms(5) in \<open>auto simp: unat_inj\<close>)
  obtain t6 where 6: "brelse i t5 = Inr ((), t6)" "bio_inv t6" "io_frame t5 t6" "disk t6 = disk t5" "wlog t6 = wlog t5"
    "held t6 = {}" "blk t6 = blk t5" "dblocks t6 = dblocks t5"
    by (rule brelse_run_ok [of t5 i]) (use 2 3 4 5 in auto)
  have "io_frame s t6" using 1(3) 2(3) 3(3) 4(3) 5(3) 6(3) by (blast intro: io_frame_trans)
  moreover have "copy_blk l h s = Inr ((), t6)"
    by (simp add: copy_blk_def bdata_def rd_bnd assms(9) [OF 1(3)] 1(1) 2(1,10) 3(1) 4(1) 5(1) 6(1))
  ultimately show ?thesis using 4 5 6 by (simp add: wp_def)
qed

lemma fetch_blk_wp:
  assumes "bio_inv s" "held s = {}" "unat l < disksize s" "unat b < disksize s" "l \<noteq> b" "card (dirties s) < NBUF"
    "card (dirties s) < NBUF - 1 \<or> b \<in> dblocks s" "l \<notin> dblocks s"
    "\<And>t. io_frame s t \<Longrightarrow> h t = b"
  shows "wp (fetch_blk l h) (\<lambda>_ t. bio_inv t \<and> io_frame s t \<and> held t = {} \<and> blk t = (blk s)(b := blk s l) \<and>
    disk t = (disk s)(unat b := blk s l) \<and> wlog t = wlog s @ [(unat b, blk s l)] \<and> dblocks t = dblocks s - {b}) s"
proof -
  obtain i t1 where 1: "bread 1 l s = Inr (i, t1)" "bio_inv t1" "io_frame s t1" "disk t1 = disk s" "wlog t1 = wlog s"
    "i < NBUF" "held t1 = {i}" "b_blockno (bufs t1 i) = l" "b_data (bufs t1 i) = blk s l" "blk t1 = blk s" "dirties t1 = dirties s" "dblocks t1 = dblocks s"
    "b_dirty (bufs t1 i) \<or> blk s l = disk s (unat l)"
    using assms by (auto intro: bread_run_ok [of s l])
  have nd: "blk s l = disk s (unat l)" using 1(6,8,12,13) assms(8) not_dirty [of i t1] by simp
  have c: "card ({i} \<union> dirties s) < NBUF \<or> b \<in> dblocks s"
    using assms(7) by (cases "b \<in> dblocks s") (simp_all add: card_insert_if)
  obtain j t2 where 2: "bread 1 b t1 = Inr (j, t2)" "bio_inv t2" "io_frame t1 t2" "disk t2 = disk s" "wlog t2 = wlog s"
    "j \<noteq> i" "held t2 = {j, i}" "b_blockno (bufs t2 i) = l" "b_blockno (bufs t2 j) = b" "b_data (bufs t2 i) = blk s l"
    "blk t2 = blk s" "dblocks t2 = dblocks s"
    by (rule bread_run_ok [of t1 b]) (use 1 c assms(4,5) io_frameD(3) [OF 1(3)] in auto)
  obtain t3 where 3: "set_bdata j (blk s l) t2 = Inr ((), t3)" "bio_inv t3" "io_frame t2 t3" "disk t3 = disk s" "wlog t3 = wlog s"
    "held t3 = {j, i}" "blk t3 = (blk s)(b := blk s l)" "bufs t3 = (bufs t2)(j := (bufs t2 j)\<lparr>b_data := blk s l\<rparr>)"
    "dblocks t3 = dblocks s"
    by (rule set_bdata_run_ok [of t2 j "blk s l"]) (use 2 in auto)
  obtain t4 where 4: "bwrite j t3 = Inr ((), t4)" "bio_inv t4" "io_frame t3 t4" "held t4 = {j, i}" "blk t4 = (blk s)(b := blk s l)"
    "bufs t4 = (bufs t3)(j := (bufs t3 j)\<lparr>b_dirty := False\<rparr>)" "disk t4 = (disk s)(unat b := blk s l)"
    "wlog t4 = wlog s @ [(unat b, blk s l)]" "dblocks t4 = dblocks s - {b}"
    by (rule bwrite_run_ok [of t3 j]) (use 2 3 in auto)
  obtain t5 where 5: "brelse i t4 = Inr ((), t5)" "bio_inv t5" "io_frame t4 t5" "disk t5 = disk t4" "wlog t5 = wlog t4"
    "held t5 = {j}" "blk t5 = blk t4" "bufs t5 = (bufs t4)(i := (bufs t4 i)\<lparr>b_refcnt := 0\<rparr>)" "dblocks t5 = dblocks t4"
    by (rule brelse_run_ok [of t4 i]) (use 2 3 4 nd assms(5) in \<open>auto simp: unat_inj\<close>)
  obtain t6 where 6: "brelse j t5 = Inr ((), t6)" "bio_inv t6" "io_frame t5 t6" "disk t6 = disk t5" "wlog t6 = wlog t5"
    "held t6 = {}" "blk t6 = blk t5" "dblocks t6 = dblocks t5"
    by (rule brelse_run_ok [of t5 j]) (use 2 3 4 5 in auto)
  have "io_frame s t6" using 1(3) 2(3) 3(3) 4(3) 5(3) 6(3) by (blast intro: io_frame_trans)
  moreover have "fetch_blk l h s = Inr ((), t6)"
    by (simp add: fetch_blk_def bdata_def rd_bnd assms(9) [OF 1(3)] 1(1) 2(1,10) 3(1) 4(1) 5(1) 6(1))
  ultimately show ?thesis using 4 5 6 by (simp add: wp_def)
qed

lemma write_log_one_copy: "lg_dev s = 1 \<Longrightarrow> write_log_one k s = copy_blk (lpos s k) (\<lambda>s. lh_block s k) s"
  by (simp add: write_log_one_def copy_blk_def log_blockno_def lpos_def)

lemma install_one_fetch: "lg_dev s = 1 \<Longrightarrow> install_one k s = fetch_blk (lpos s k) (\<lambda>s. lh_block s k) s"
  by (simp add: install_one_def fetch_blk_def log_blockno_def lpos_def)

subsection \<open>The loops of a commit\<close>

definition upds :: "('a \<Rightarrow> 'b) \<Rightarrow> ('a \<times> 'b) list \<Rightarrow> 'a \<Rightarrow> 'b" where
  "upds f ws = fold (\<lambda>(a, v) g. g(a := v)) ws f"

lemma upds_simps [simp]: "upds f [] = f" "upds f (ws @ vs) = upds (upds f ws) vs" "upds f ((a, v) # ws) = upds (f(a := v)) ws"
  by (simp_all add: upds_def)

lemma upds_other: "a \<notin> fst ` set ws \<Longrightarrow> upds f ws a = f a"
  by (induction ws rule: rev_induct) (auto simp: split: prod.splits)

lemma upds_map: "inj_on p {..<n} \<Longrightarrow> j < n \<Longrightarrow> upds f (map (\<lambda>k. (p k, v k)) [0..<n]) (p j) = v j"
proof (induction n)
  case (Suc n)
  have "inj_on p {..<n}" by (rule inj_on_subset [OF Suc.prems(1)]) auto
  moreover have "j < n \<Longrightarrow> p j \<noteq> p n" using inj_onD [OF Suc.prems(1), of j n] by auto
  ultimately show ?case using Suc by (cases "j = n") auto
qed simp

lemma upds_map_at: "(\<And>j. j < n \<Longrightarrow> p j \<noteq> a) \<Longrightarrow> upds f (map (\<lambda>k. (p k, v k)) [0..<n]) a = f a"
  by (rule upds_other) force

lemma log_inv_frame:
  "log_inv s \<Longrightarrow> io_frame s t \<Longrightarrow> bio_inv t \<Longrightarrow> dblocks t = dblocks s \<Longrightarrow> log_inv t"
  using io_frame_log [of s t] io_frameD(3) [of s t] by (simp add: log_inv_def log_geo_def)

lemma log_block_apart:
  assumes "log_inv s" "k < 30" "b \<in> dblocks s"
  shows "b \<noteq> lpos s k" "b \<noteq> lg_start s"
  using assms log_invD(9,11) [OF assms(1)] by metis+

definition loggy :: "'z log_state_scheme \<Rightarrow> nat \<Rightarrow> (nat \<times> bview) list" where
  "loggy s n = map (\<lambda>k. (unat (lpos s k), blk s (lh_block s k))) [0..<n]"

lemma write_log_wp:
  assumes "log_inv s" "held s = {}"
  shows "wp write_log (\<lambda>_ t. bio_inv t \<and> io_frame s t \<and> held t = {} \<and> dblocks t = dblocks s \<and>
    blk t = upds (blk s) (map (\<lambda>k. (lpos s k, blk s (lh_block s k))) [0..<nat (lh_n s)]) \<and>
    disk t = upds (disk s) (loggy s (nat (lh_n s))) \<and> wlog t = wlog s @ loggy s (nat (lh_n s))) s"
proof -
  let ?I = "\<lambda>k t. bio_inv t \<and> io_frame s t \<and> held t = {} \<and> dblocks t = dblocks s \<and>
    blk t = upds (blk s) (map (\<lambda>k. (lpos s k, blk s (lh_block s k))) [0..<k]) \<and>
    disk t = upds (disk s) (loggy s k) \<and> wlog t = wlog s @ loggy s k"
  have "wp (each write_log_one [0..<nat (lh_n s)]) (\<lambda>_. ?I (nat (lh_n s))) s"
  proof (rule wp_each_upto)
    fix k t assume k: "k < nat (lh_n s)" and I: "?I k t"
    have L: "log_inv t" using log_inv_frame [OF assms(1)] I by blast
    have f: "lpos t = lpos s" "lh_block t = lh_block s" "lh_n t = lh_n s" "lg_dev t = 1" "disksize t = disksize s"
      using io_frame_log [of s t] io_frameD(3) [of s t] I log_invD(3) [OF assms(1)] by simp_all
    have k30: "k < 30" using k log_invD(5) [OF assms(1)] by simp
    have b: "lh_block s k \<in> dblocks s" using log_invD(14) [OF assms(1) k] .
    have "lpos s j \<noteq> lh_block s k" if "j < k" for j using log_block_apart(1) [OF assms(1) _ b, of j] that k30 by auto
    then have same: "blk t (lh_block s k) = blk s (lh_block s k)" using I by (simp add: upds_map_at)
    have "wp (copy_blk (lpos s k) (\<lambda>s. lh_block s k)) (\<lambda>_ u. bio_inv u \<and> io_frame t u \<and> held u = {} \<and>
      blk u = (blk t)(lpos s k := blk t (lh_block s k)) \<and> disk u = (disk t)(unat (lpos s k) := blk t (lh_block s k)) \<and>
      wlog u = wlog t @ [(unat (lpos s k), blk t (lh_block s k))] \<and> dblocks u = dblocks t) t"
    proof (rule copy_blk_wp)
      show "unat (lpos s k) < disksize t" using log_invD(8) [OF assms(1) k30] f by simp
      show "unat (lh_block s k) < disksize t" using log_invD(15) [OF assms(1) b] f by simp
      show "lpos s k \<noteq> lh_block s k" using log_block_apart(1) [OF assms(1) k30 b] by simp
      show "card (dirties t) < NBUF" using log_invD(5,6) [OF L] by simp
      show "card (dirties t) < NBUF - 1 \<or> lh_block s k \<in> dblocks t" using b I by simp
      show "lpos s k \<notin> dblocks t" using log_invD(9) [OF L k30] f by simp
      show "lh_block u k = lh_block s k" if "io_frame t u" for u using io_frame_log(7) [OF that] f by simp
    qed (use I in auto)
    then have "wp (write_log_one k) (\<lambda>_ u. bio_inv u \<and> io_frame t u \<and> held u = {} \<and>
      blk u = (blk t)(lpos s k := blk t (lh_block s k)) \<and> disk u = (disk t)(unat (lpos s k) := blk t (lh_block s k)) \<and>
      wlog u = wlog t @ [(unat (lpos s k), blk t (lh_block s k))] \<and> dblocks u = dblocks t) t"
      using f by (simp add: wp_def write_log_one_copy)
    then show "wp (write_log_one k) (\<lambda>_. ?I (Suc k)) t"
      by (rule wp_mono) (use I same in \<open>auto simp: loggy_def intro: io_frame_trans\<close>)
  qed (use assms log_invD(1) [OF assms(1)] in \<open>simp add: loggy_def\<close>)
  then show ?thesis by (simp add: write_log_def wp_bnd wp_rd)
qed

text \<open>Writing the header.\<close>

lemma write_head_wp:
  assumes "bio_inv s" "held s = {}" "lg_dev s = 1" "unat (lg_start s) < disksize s" "lg_start s \<notin> dblocks s"
    "card (dirties s) < NBUF"
  shows "wp write_head (\<lambda>_ t. bio_inv t \<and> io_frame s t \<and> held t = {} \<and> dblocks t = dblocks s \<and>
    (let h = put_head (lh_n s) (lh_block s) (blk s (lg_start s)) in
     blk t = (blk s)(lg_start s := h) \<and> disk t = (disk s)(unat (lg_start s) := h) \<and>
     wlog t = wlog s @ [(unat (lg_start s), h)])) s"
proof -
  let ?l = "lg_start s" let ?h = "put_head (lh_n s) (lh_block s) (blk s (lg_start s))"
  have d: "dblocks s - {?l} = dblocks s" using assms(5) by blast
  obtain i t1 where 1: "bread 1 ?l s = Inr (i, t1)" "bio_inv t1" "io_frame s t1" "disk t1 = disk s" "wlog t1 = wlog s"
    "held t1 = {i}" "b_blockno (bufs t1 i) = ?l" "blk t1 = blk s" "dblocks t1 = dblocks s" "b_data (bufs t1 i) = blk s ?l"
    using assms by (auto intro: bread_run_ok [of s ?l])
  obtain t3 where 3: "set_bdata i ?h t1 = Inr ((), t3)" "bio_inv t3" "io_frame t1 t3" "disk t3 = disk s" "wlog t3 = wlog s"
    "held t3 = {i}" "blk t3 = (blk s)(?l := ?h)" "bufs t3 = (bufs t1)(i := (bufs t1 i)\<lparr>b_data := ?h\<rparr>)" "dblocks t3 = dblocks s"
    by (rule set_bdata_run_ok [of t1 i ?h]) (use 1 in auto)
  obtain t4 where 4: "bwrite i t3 = Inr ((), t4)" "bio_inv t4" "io_frame t3 t4" "held t4 = {i}" "blk t4 = (blk s)(?l := ?h)"
    "bufs t4 = (bufs t3)(i := (bufs t3 i)\<lparr>b_dirty := False\<rparr>)" "disk t4 = (disk s)(unat ?l := ?h)"
    "wlog t4 = wlog s @ [(unat ?l, ?h)]" "dblocks t4 = dblocks s"
    by (rule bwrite_run_ok [of t3 i]) (use 1 3 d in auto)
  obtain t6 where 6: "brelse i t4 = Inr ((), t6)" "bio_inv t6" "io_frame t4 t6" "disk t6 = disk t4" "wlog t6 = wlog t4"
    "held t6 = {}" "blk t6 = blk t4" "dblocks t6 = dblocks t4"
    by (rule brelse_run_ok [of t4 i]) (use 1 3 4 in auto)
  have "io_frame s t6" using 1(3) 3(3) 4(3) 6(3) by (blast intro: io_frame_trans)
  moreover have "write_head s = Inr ((), t6)"
    using io_frame_log(6,7) [OF 1(3)] by (simp add: write_head_def bdata_def assms(3) 1(1,10) 3(1) 4(1) 6(1))
  ultimately show ?thesis using 4 6 by (simp add: wp_def Let_def)
qed

lemma log_geo_apart:
  assumes "log_geo s" "b \<in> set (lbs s)" "k < 30"
  shows "lpos s k \<noteq> b" "lg_start s \<noteq> b" "unat (lpos s k) = unat (lg_start s) + k + 1" "unat (lpos s k) < disksize s"
proof -
  have u: "unat (lpos s k) = unat (lg_start s) + k + 1" using assms unat_lpos [of s k] by (simp add: log_geo_def)
  then show "unat (lpos s k) = unat (lg_start s) + k + 1" "unat (lpos s k) < disksize s"
    using assms by (simp_all add: log_geo_def)
  have "unat b \<notin> larea s" using assms by (simp add: log_geo_def)
  then show "lpos s k \<noteq> b" "lg_start s \<noteq> b" using u assms(3) by (auto simp: larea_def)
qed

lemma install_trans_wp:
  assumes "bio_inv s" "held s = {}" "log_geo s" "dblocks s = set (lbs s) \<or> dblocks s = {}"
  shows "wp install_trans (\<lambda>_ t. bio_inv t \<and> io_frame s t \<and> held t = {} \<and> dblocks t = {} \<and>
    blk t = upds (blk s) (map (\<lambda>k. (lh_block s k, blk s (lpos s k))) [0..<nat (lh_n s)]) \<and>
    disk t = upds (disk s) (map (\<lambda>k. (unat (lh_block s k), blk s (lpos s k))) [0..<nat (lh_n s)]) \<and>
    wlog t = wlog s @ map (\<lambda>k. (unat (lh_block s k), blk s (lpos s k))) [0..<nat (lh_n s)]) s"
proof -
  let ?n = "nat (lh_n s)"
  let ?I = "\<lambda>k t. bio_inv t \<and> io_frame s t \<and> held t = {} \<and> dblocks t = dblocks s - lh_block s ` {..<k} \<and>
    blk t = upds (blk s) (map (\<lambda>k. (lh_block s k, blk s (lpos s k))) [0..<k]) \<and>
    disk t = upds (disk s) (map (\<lambda>k. (unat (lh_block s k), blk s (lpos s k))) [0..<k]) \<and>
    wlog t = wlog s @ map (\<lambda>k. (unat (lh_block s k), blk s (lpos s k))) [0..<k]"
  have lb: "set (lbs s) = lh_block s ` {..<?n}" by (auto simp: lbs_def)
  have inj: "inj_on (lh_block s) {..<?n}" using assms(3) by (simp add: log_geo_def lbs_def distinct_map lessThan_atLeast0)
  have n29: "?n \<le> 29" using assms(3) unfolding log_geo_def by linarith
  have dv: "lg_dev s = 1" using assms(3) unfolding log_geo_def by blast
  have "wp (each install_one [0..<?n]) (\<lambda>_. ?I ?n) s"
  proof (rule wp_each_upto [where I = ?I])
    fix k t assume k: "k < ?n" and I: "?I k t"
    have f: "lpos t = lpos s" "lh_block t = lh_block s" "lg_dev t = 1" "disksize t = disksize s"
      using io_frame_log [of s t] io_frameD(3) [of s t] I dv by simp_all
    have b: "lh_block s k \<in> set (lbs s)" and k30: "k < 30" using k n29 by (auto simp: lb)
    note ap = log_geo_apart [OF assms(3) b k30]
    have "lh_block s j \<noteq> lpos s k" if "j < k" for j
      using log_geo_apart(1) [OF assms(3) _ k30, of "lh_block s j"] that k by (auto simp: lb)
    then have same: "blk t (lpos s k) = blk s (lpos s k)" using I by (simp add: upds_map_at)
    have cd: "card (dirties t) \<le> 29" "dblocks s = {} \<Longrightarrow> card (dirties t) = 0"
    proof -
      have "dblocks t \<subseteq> set (lbs s)" using I assms(4) by auto
      from card_mono [OF _ this] have "card (dblocks t) \<le> length (lbs s)" using card_length [of "lbs s"] by simp
      then show "card (dirties t) \<le> 29" "dblocks s = {} \<Longrightarrow> card (dirties t) = 0"
        using I n29 card_dirties [of t] by (auto simp: bio_inv_def lbs_def)
    qed
    have nin: "lh_block s k \<notin> lh_block s ` {..<k}"
    proof
      assume "lh_block s k \<in> lh_block s ` {..<k}"
      then obtain j where "j < k" "lh_block s j = lh_block s k" by auto
      then show False using inj_onD [OF inj, of j k] k by simp
    qed
    have "wp (fetch_blk (lpos s k) (\<lambda>s. lh_block s k)) (\<lambda>_ u. bio_inv u \<and> io_frame t u \<and> held u = {} \<and>
      blk u = (blk t)(lh_block s k := blk t (lpos s k)) \<and> disk u = (disk t)(unat (lh_block s k) := blk t (lpos s k)) \<and>
      wlog u = wlog t @ [(unat (lh_block s k), blk t (lpos s k))] \<and> dblocks u = dblocks t - {lh_block s k}) t"
    proof (rule fetch_blk_wp)
      show "unat (lpos s k) < disksize t" "lpos s k \<noteq> lh_block s k" using ap f by simp_all
      show "unat (lh_block s k) < disksize t" using b assms(3) f by (simp add: log_geo_def)
      show "card (dirties t) < NBUF" using cd by simp
      show "card (dirties t) < NBUF - 1 \<or> lh_block s k \<in> dblocks t" using b I nin cd(2) assms(4) by auto
      show "lpos s k \<notin> dblocks t" using I assms(4) log_geo_apart(1) [OF assms(3) _ k30, of "lpos s k"] by blast
      show "lh_block u k = lh_block s k" if "io_frame t u" for u using io_frame_log(7) [OF that] f by simp
    qed (use I in auto)
    then have "wp (install_one k) (\<lambda>_ u. bio_inv u \<and> io_frame t u \<and> held u = {} \<and>
      blk u = (blk t)(lh_block s k := blk t (lpos s k)) \<and> disk u = (disk t)(unat (lh_block s k) := blk t (lpos s k)) \<and>
      wlog u = wlog t @ [(unat (lh_block s k), blk t (lpos s k))] \<and> dblocks u = dblocks t - {lh_block s k}) t"
      using f by (simp add: wp_def install_one_fetch)
    then show "wp (install_one k) (\<lambda>_. ?I (Suc k)) t"
      by (rule wp_mono) (use I same in \<open>auto simp: lessThan_Suc intro: io_frame_trans\<close>)
  qed (use assms in simp)
  moreover have "dblocks s - lh_block s ` {..<?n} = {}" using assms(4) lb by auto
  ultimately show ?thesis by (simp add: install_trans_def wp_bnd wp_rd)
qed

text \<open>What the header block holds.\<close>

lemma put_head_n: "ld32 (put_head n bs hb) 0 = of_int n"
proof -
  have "ld32 (fold (\<lambda>i d. st32 d (4 + 4 * i) (bs i)) [0..<k] (st32 hb 0 (of_int n))) 0 = of_int n" for k
    by (induction k) (simp_all add: ld32_st32_other)
  then show ?thesis by (simp add: put_head_def)
qed

lemma put_head_block: "i < nat n \<Longrightarrow> ld32 (put_head n bs hb) (4 + 4 * i) = bs i"
proof -
  have "i < k \<Longrightarrow> ld32 (fold (\<lambda>i d. st32 d (4 + 4 * i) (bs i)) [0..<k] (st32 hb 0 (of_int n))) (4 + 4 * i) = bs i" for k
  proof (induction k)
    case (Suc k)
    then show ?case by (cases "i = k") (simp_all add: ld32_st32_other)
  qed simp
  then show "i < nat n \<Longrightarrow> ?thesis" by (simp add: put_head_def)
qed

subsection \<open>Commit and recovery\<close>

lemma bio_same:
  assumes "mach t = mach s" "bufs t = bufs s" "lru t = lru s" "slocks t = slocks s" "disk t = disk s" "disksize t = disksize s"
  shows "held t = held s" "bio_inv t = bio_inv s" "blk t = blk s" "dirties t = dirties s" "dblocks t = dblocks s"
proof -
  show h: "held t = held s" "dirties t = dirties s" using assms by (simp_all add: held_def dirties_def)
  then show "dblocks t = dblocks s" using assms by (simp add: dblocks_def)
  show "blk t = blk s" by (rule blk_cong) (simp_all add: assms)
  have "calm t = calm s" using assms(1) unfolding calm_def by simp
  then show "bio_inv t = bio_inv s" using assms h by (simp add: bio_inv_def bio_ok_def)
qed

lemma lh_upd_bio [simp]:
  "held (s\<lparr>lh_n := n\<rparr>) = held s" "bio_inv (s\<lparr>lh_n := n\<rparr>) = bio_inv s" "blk (s\<lparr>lh_n := n\<rparr>) = blk s"
  "dirties (s\<lparr>lh_n := n\<rparr>) = dirties s" "dblocks (s\<lparr>lh_n := n\<rparr>) = dblocks s"
  "held (s\<lparr>lh_block := b\<rparr>) = held s" "bio_inv (s\<lparr>lh_block := b\<rparr>) = bio_inv s" "blk (s\<lparr>lh_block := b\<rparr>) = blk s"
  "dirties (s\<lparr>lh_block := b\<rparr>) = dirties s" "dblocks (s\<lparr>lh_block := b\<rparr>) = dblocks s"
  by (rule bio_same; simp)+

definition head_n :: "bview \<Rightarrow> int" where
  "head_n h = sint (ld32 h 0)"

definition head_b :: "bview \<Rightarrow> nat \<Rightarrow> u32" where
  "head_b h i = ld32 h (4 + 4 * i)"

lemma read_head_wp:
  assumes "bio_inv s" "held s = {}" "lg_dev s = 1" "unat (lg_start s) < disksize s" "lg_start s \<notin> dblocks s"
    "card (dirties s) < NBUF" "head_n (blk s (lg_start s)) \<le> 30"
  shows "wp read_head (\<lambda>_ t. \<exists>u. t = u\<lparr>lh_n := head_n (blk s (lg_start s)),
      lh_block := (\<lambda>i. if i < nat (head_n (blk s (lg_start s))) then head_b (blk s (lg_start s)) i else lh_block s i)\<rparr> \<and>
    bio_inv u \<and> io_frame s u \<and> held u = {} \<and> blk u = blk s \<and> disk u = disk s \<and> wlog u = wlog s \<and> dblocks u = dblocks s) s"
proof -
  let ?l = "lg_start s" let ?h = "blk s ?l"
  obtain i t1 where 1: "bread 1 ?l s = Inr (i, t1)" "bio_inv t1" "io_frame s t1" "disk t1 = disk s" "wlog t1 = wlog s"
    "held t1 = {i}" "b_blockno (bufs t1 i) = ?l" "blk t1 = blk s" "dblocks t1 = dblocks s" "b_data (bufs t1 i) = ?h" "i < NBUF"
    "b_dirty (bufs t1 i) \<or> ?h = disk s (unat ?l)"
    using assms by (auto intro: bread_run_ok [of s ?l])
  let ?t2 = "t1\<lparr>lh_n := head_n ?h\<rparr>"
  let ?bs = "\<lambda>k i. if i < k then head_b ?h i else lh_block s i"
  have "wp (each (\<lambda>i. if int i < LOGSIZE then upd (\<lambda>s. s\<lparr>lh_block := (lh_block s)(i := head_b ?h i)\<rparr>)
      else kerror (Fault ''log.lh.block'')) [0..<nat (head_n ?h)]) (\<lambda>_ t. t = ?t2\<lparr>lh_block := ?bs (nat (head_n ?h))\<rparr>) ?t2"
  proof (rule wp_each_upto [where I = "\<lambda>k t. t = ?t2\<lparr>lh_block := ?bs k\<rparr>"])
    show "?t2 = ?t2\<lparr>lh_block := ?bs 0\<rparr>" using io_frame_log(7) [OF 1(3)] by simp
  next
    fix k t assume "k < nat (head_n ?h)" "t = ?t2\<lparr>lh_block := ?bs k\<rparr>"
    moreover have "(?bs k)(k := head_b ?h k) = ?bs (Suc k)" by (auto simp: fun_eq_iff less_Suc_eq)
    moreover have "int k < LOGSIZE" using calculation(1) assms(7) by linarith
    ultimately show "wp (if int k < LOGSIZE then upd (\<lambda>s. s\<lparr>lh_block := (lh_block s)(k := head_b ?h k)\<rparr>)
      else kerror (Fault ''log.lh.block'')) (\<lambda>_ t. t = ?t2\<lparr>lh_block := ?bs (Suc k)\<rparr>) t" by (simp add: wp_upd)
  qed
  then have e: "each (\<lambda>i. if int i < LOGSIZE then upd (\<lambda>s. s\<lparr>lh_block := (lh_block s)(i := ld32 ?h (4 + 4 * i))\<rparr>)
      else kerror (Fault ''log.lh.block'')) [0..<nat (sint (ld32 ?h 0))] (t1\<lparr>lh_n := sint (ld32 ?h 0)\<rparr>) =
      Inr ((), ?t2\<lparr>lh_block := ?bs (nat (head_n ?h))\<rparr>)"
    unfolding head_b_def head_n_def by (elim wp_unitE) simp
  let ?t3 = "?t2\<lparr>lh_block := ?bs (nat (head_n ?h))\<rparr>"
  have 3: "bio_inv ?t3" "i \<in> held ?t3" using 1 by simp_all
  have "\<not> b_dirty (bufs t1 i)" using 1 assms(5) not_dirty [of i t1] by simp
  then have cl: "b_dirty (bufs ?t3 i) \<or> b_data (bufs ?t3 i) = disk ?t3 (unat (b_blockno (bufs ?t3 i)))"
    using 1 by simp
  obtain t4 where 4: "brelse i ?t3 = Inr ((), t4)" "bio_inv t4" "io_frame ?t3 t4" "disk t4 = disk s" "wlog t4 = wlog s"
    "held t4 = {}" "blk t4 = blk s" "dblocks t4 = dblocks s"
    by (rule brelse_run_ok [OF 3 cl]) (use 1 in auto)
  let ?u = "t4\<lparr>lh_n := lh_n s, lh_block := lh_block s\<rparr>"
  have fr: "io_frame s ?u" using 1(3) 4(3) io_frame_log(6,7) [OF 1(3)]
    unfolding io_frame_def [of s t1] io_frame_def [of ?t3 t4]
    by (elim exE conjE, intro io_frameI) (simp_all, blast intro: woken_trans)
  have "lh_n t4 = head_n ?h" "lh_block t4 = ?bs (nat (head_n ?h))" using io_frame_log(6,7) [OF 4(3)] by simp_all
  then have "t4 = ?u\<lparr>lh_n := head_n ?h, lh_block := ?bs (nat (head_n ?h))\<rparr>" by simp
  moreover have "read_head s = Inr ((), t4)"
    by (simp add: read_head_def bdata_def assms(3) 1(1,10) 4(1) e [simplified] cong: if_cong)
  ultimately show ?thesis using 4 fr by (simp add: wp_def) (intro exI [of _ ?u], simp)
qed

text \<open>The blocks a commit writes to the disk, in order.\<close>

definition homes :: "'z log_state_scheme \<Rightarrow> nat \<Rightarrow> (nat \<times> bview) list" where
  "homes s n = map (\<lambda>k. (unat (lh_block s k), blk s (lh_block s k))) [0..<n]"

definition head1 :: "'z log_state_scheme \<Rightarrow> bview" where
  "head1 s = put_head (lh_n s) (lh_block s) (blk s (lg_start s))"

definition trace :: "'z log_state_scheme \<Rightarrow> (nat \<times> bview) list" where
  "trace s = (let n = nat (lh_n s) in loggy s n @ [(unat (lg_start s), head1 s)] @ homes s n @
     [(unat (lg_start s), put_head 0 (lh_block s) (head1 s))])"

lemma log_inv_parts: "log_inv s \<Longrightarrow> log_geo s" "log_inv s \<Longrightarrow> bio_inv s"
  by (simp_all add: log_inv_def)

lemma log_geoD:
  assumes "log_geo s"
  shows "lg_dev s = 1" "0 \<le> lh_n s" "lh_n s \<le> 29" "unat (lg_start s) + 30 < disksize s" "disksize s < 2 ^ 32"
    "distinct (lbs s)" "b \<in> set (lbs s) \<Longrightarrow> unat b < disksize s \<and> unat b \<notin> larea s"
  using assms unfolding log_geo_def by blast+

lemma geo_lpos: "log_geo s \<Longrightarrow> k < 30 \<Longrightarrow> unat (lpos s k) = unat (lg_start s) + k + 1"
  by (rule unat_lpos) (auto dest: log_geoD(4,5))

lemma lpos_inj: "log_geo s \<Longrightarrow> inj_on (lpos s) {..<30}"
  by (rule inj_onI) (metis add_right_cancel add_left_cancel geo_lpos lessThan_iff)

lemma start_not_lpos: "log_geo s \<Longrightarrow> k < 30 \<Longrightarrow> lpos s k \<noteq> lg_start s"
  using geo_lpos [of s k] by force

lemma commit_wp:
  assumes "log_inv s" "held s = {}" "0 < lh_n s"
  shows "wp commit (\<lambda>_ t. bio_inv t \<and> held t = {} \<and> dblocks t = {} \<and> lh_n t = 0 \<and>
    (\<exists>u. io_frame s u \<and> t = u\<lparr>lh_n := 0\<rparr>) \<and>
    wlog t = wlog s @ trace s \<and> disk t = upds (disk s) (trace s)) s"
proof -
  let ?n = "nat (lh_n s)" let ?l = "lg_start s"
  note geo = log_inv_parts(1) [OF assms(1)]
  have n29: "?n < 30" using log_invD(5) [OF assms(1)] by linarith
  obtain t1 where 1: "write_log s = Inr ((), t1)" "bio_inv t1" "io_frame s t1" "held t1 = {}" "dblocks t1 = dblocks s"
    "blk t1 = upds (blk s) (map (\<lambda>k. (lpos s k, blk s (lh_block s k))) [0..<?n])"
    "disk t1 = upds (disk s) (loggy s ?n)" "wlog t1 = wlog s @ loggy s ?n"
    using write_log_wp [OF assms(1,2)] by (elim wp_unitE conjE) (rule that)
  have L1: "log_inv t1" using log_inv_frame [OF assms(1) 1(3,2,5)] .
  note f1 = io_frame_log [OF 1(3)]
  have pos1: "blk t1 (lpos s k) = blk s (lh_block s k)" if "k < ?n" for k
    unfolding 1(6) by (rule upds_map) (use that n29 inj_on_subset [OF lpos_inj [OF geo], of "{..<?n}"] in auto)
  have st1: "blk t1 ?l = blk s ?l" unfolding 1(6) by (rule upds_map_at) (use start_not_lpos [OF geo] n29 in auto)
  have pre2: "lg_dev t1 = 1" "unat (lg_start t1) < disksize t1" "lg_start t1 \<notin> dblocks t1" "card (dirties t1) < NBUF"
    using log_invD(3,5,6,10,11) [OF L1] by simp_all
  obtain t2 where 2: "write_head t1 = Inr ((), t2)" "bio_inv t2" "io_frame t1 t2" "held t2 = {}" "dblocks t2 = dblocks s"
    "blk t2 = (blk t1)(?l := head1 s)" "disk t2 = (disk t1)(unat ?l := head1 s)" "wlog t2 = wlog t1 @ [(unat ?l, head1 s)]"
    using write_head_wp [OF 1(2,4) pre2] by (elim wp_unitE) (simp add: Let_def f1 st1 1(5) head1_def that)
  have F2: "io_frame s t2" using 1(3) 2(3) by (rule io_frame_trans)
  note f2 = io_frame_log [OF F2]
  have L2: "log_inv t2" using log_inv_frame [OF assms(1) F2 2(2,5)] .
  obtain t3 where 3: "install_trans t2 = Inr ((), t3)" "bio_inv t3" "io_frame t2 t3" "held t3 = {}" "dblocks t3 = {}"
    "blk t3 = upds (blk t2) (map (\<lambda>k. (lh_block s k, blk t2 (lpos s k))) [0..<?n])"
    "disk t3 = upds (disk t2) (map (\<lambda>k. (unat (lh_block s k), blk t2 (lpos s k))) [0..<?n])"
    "wlog t3 = wlog t2 @ map (\<lambda>k. (unat (lh_block s k), blk t2 (lpos s k))) [0..<?n]"
    using install_trans_wp [OF 2(2,4) log_inv_parts(1) [OF L2]] log_invD(13) [OF L2] f2 by (auto elim: wp_unitE)
  have pos2: "blk t2 (lpos s k) = blk s (lh_block s k)" if "k < ?n" for k
    using that pos1 start_not_lpos [OF geo, of k] n29 by (simp add: 2(6))
  then have h: "map (\<lambda>k. (unat (lh_block s k), blk t2 (lpos s k))) [0..<?n] = homes s ?n" by (simp add: homes_def)
  have "lh_block s k \<noteq> ?l" if "k < ?n" for k using log_invD(11) [OF assms(1)] log_invD(14) [OF assms(1) that] by metis
  then have st3: "blk t3 ?l = head1 s" unfolding 3(6) by (subst upds_map_at) (auto simp: 2(6))
  have F3: "io_frame s t3" using F2 3(3) by (rule io_frame_trans)
  note f3 = io_frame_log [OF F3]
  let ?t = "t3\<lparr>lh_n := 0\<rparr>"
  have "bio_ok t3" using 3(2) unfolding bio_inv_def by blast
  then have pre4: "bio_inv ?t" "held ?t = {}" "lg_dev ?t = 1" "unat (lg_start ?t) < disksize ?t" "lg_start ?t \<notin> dblocks ?t" "card (dirties ?t) < NBUF"
    using 3 f3 io_frameD(3) [OF F3] log_invD(3,10) [OF assms(1)] card_dirties [of t3] by simp_all
  obtain t4 where 4: "write_head ?t = Inr ((), t4)" "bio_inv t4" "io_frame ?t t4" "held t4 = {}" "dblocks t4 = {}"
    "disk t4 = (disk t3)(unat ?l := put_head 0 (lh_block s) (head1 s))"
    "wlog t4 = wlog t3 @ [(unat ?l, put_head 0 (lh_block s) (head1 s))]"
    using write_head_wp [OF pre4] by (elim wp_unitE) (simp add: Let_def f3 st3 3(5) that)
  have c: "commit s = Inr ((), t4)" using assms(3) by (simp add: commit_def whn_def 1(1) 2(1) 3(1) 4(1))
  have n0: "lh_n t4 = 0" using io_frame_log(6) [OF 4(3)] by simp
  have fr: "io_frame s (t4\<lparr>lh_n := lh_n s\<rparr>)" using F3 4(3) io_frame_log(6) [OF F3]
    unfolding io_frame_def [of s t3] io_frame_def [of ?t t4]
    by (elim exE conjE, intro io_frameI) (simp_all, blast intro: woken_trans)
  have "t4 = t4\<lparr>lh_n := lh_n s\<rparr>\<lparr>lh_n := 0\<rparr>" using n0 by simp
  then have "\<exists>u. io_frame s u \<and> t4 = u\<lparr>lh_n := 0\<rparr>" using fr by blast
  moreover have "wlog t4 = wlog s @ trace s" using 1(8) 2(8) 3(8) 4(7) h by (simp add: trace_def Let_def)
  moreover have "disk t4 = upds (disk s) (trace s)" using 1(7) 2(7) 3(7) 4(6) h by (simp add: trace_def Let_def)
  ultimately show ?thesis using 4 c n0 by (simp add: wp_def)
qed

lemma blk_clean:
  assumes "bio_ok s" "held s = {}" "b \<notin> dblocks s"
  shows "blk s b = disk s (unat b)"
proof (rule blk_eqI)
  fix i assume i: "i < NBUF" "b_dev (bufs s i) = 1" "b_valid (bufs s i)" "b_blockno (bufs s i) = b"
  then show "b_data (bufs s i) = disk s (unat b)"
    using bio_okD(6) [OF assms(1), of i] not_dirty [of i s] assms(2,3) by simp
qed (rule refl)

text \<open>
  The machine after a crash: the disk as the crash left it, an empty cache, and the log's position read
  again from the super block.
\<close>

definition rebooted :: "'z log_state_scheme \<Rightarrow> (nat \<Rightarrow> bview) \<Rightarrow> 'z log_state_scheme \<Rightarrow> bool" where
  "rebooted s D r \<longleftrightarrow> bio_inv r \<and> held r = {} \<and> dblocks r = {} \<and> disk r = D \<and> lg_start r = lg_start s \<and> lg_dev r = 1 \<and>
     disksize r = disksize s"

definition head_ok :: "'z log_state_scheme \<Rightarrow> bview \<Rightarrow> bool" where
  "head_ok s h \<longleftrightarrow> 0 \<le> head_n h \<and> head_n h \<le> 29 \<and> inj_on (head_b h) {..<nat (head_n h)} \<and>
     (\<forall>i<nat (head_n h). unat (head_b h i) < disksize s \<and> unat (head_b h i) \<notin> larea s)"

lemma recover_wp:
  assumes "rebooted s D r" "log_geo s" "head_ok s (D (unat (lg_start s)))"
  shows "wp recover_from_log (\<lambda>_ t. \<exists>h'. disk t = (upds D (map (\<lambda>k. (unat (head_b (D (unat (lg_start s))) k),
      D (unat (lg_start s) + k + 1))) [0..<nat (head_n (D (unat (lg_start s))))]))(unat (lg_start s) := h')) r"
proof -
  let ?l = "lg_start s" let ?h = "D (unat ?l)" let ?n = "nat (head_n ?h)"
  have r: "bio_inv r" "held r = {}" "dblocks r = {}" "disk r = D" "lg_start r = ?l" "lg_dev r = 1" "disksize r = disksize s" "bio_ok r"
    using assms(1) unfolding rebooted_def bio_inv_def by blast+
  have blk: "blk r b = D (unat b)" for b using blk_clean [OF r(8,2)] r(3,4) by simp
  have n29: "?n < 30" "head_n ?h \<le> 30" using assms(3) unfolding head_ok_def by linarith+
  have rl: "blk r (lg_start r) = ?h" using blk r(5) by simp
  have p: "unat (lg_start r) < disksize r" "lg_start r \<notin> dblocks r" "card (dirties r) < NBUF" "head_n (blk r (lg_start r)) \<le> 30"
    using card_dirties [OF r(8)] r log_geoD(4) [OF assms(2)] n29(2) rl by simp_all
  obtain u where u: "read_head r = Inr ((), u\<lparr>lh_n := head_n ?h,
      lh_block := (\<lambda>i. if i < ?n then head_b ?h i else lh_block r i)\<rparr>)"
    "bio_inv u" "io_frame r u" "held u = {}" "blk u = blk r" "disk u = D" "dblocks u = {}"
    using read_head_wp [OF r(1,2,6) p] unfolding rl r(3,4) by (elim wp_unitE) blast
  let ?t1 = "u\<lparr>lh_n := head_n ?h, lh_block := (\<lambda>i. if i < ?n then head_b ?h i else lh_block r i)\<rparr>"
  have f: "lg_start u = ?l" "lg_dev u = 1" "disksize u = disksize s" using io_frame_log [OF u(3)] io_frameD(3) [OF u(3)] r by simp_all
  have lb: "lbs ?t1 = map (head_b ?h) [0..<?n]" by (simp add: lbs_def)
  have la: "larea ?t1 = larea s" "lpos ?t1 = lpos s" using f by (simp_all add: larea_def lpos_def fun_eq_iff)
  have geo1: "log_geo ?t1" unfolding log_geo_def lb la using assms(3) log_geoD(4,5) [OF assms(2)] f
    by (auto simp: head_ok_def distinct_map lessThan_atLeast0)
  obtain t3 where 3: "install_trans ?t1 = Inr ((), t3)" "bio_inv t3" "io_frame ?t1 t3" "held t3 = {}" "dblocks t3 = {}"
    "disk t3 = upds D (map (\<lambda>k. (unat (lh_block ?t1 k), blk u (lpos s k))) [0..<?n])"
    using install_trans_wp [of ?t1] geo1 u la by (auto elim: wp_unitE)
  have eq: "map (\<lambda>k. (unat (lh_block ?t1 k), blk u (lpos s k))) [0..<?n] =
      map (\<lambda>k. (unat (head_b ?h k), D (unat ?l + k + 1))) [0..<?n]"
    using n29 geo_lpos [OF assms(2)] by (simp add: u(5) blk)
  have d3: "disk t3 = upds D (map (\<lambda>k. (unat (head_b ?h k), D (unat ?l + k + 1))) [0..<?n])"
    using 3(6) unfolding eq .
  let ?t = "t3\<lparr>lh_n := 0\<rparr>"
  have "bio_ok t3" using 3(2) unfolding bio_inv_def by blast
  then have pre: "bio_inv ?t" "held ?t = {}" "lg_dev ?t = 1" "unat (lg_start ?t) < disksize ?t" "lg_start ?t \<notin> dblocks ?t"
    "card (dirties ?t) < NBUF" and lt: "lg_start ?t = ?l"
    using 3 io_frame_log [OF 3(3)] io_frameD(3) [OF 3(3)] f log_geoD(4) [OF assms(2)] card_dirties [of t3] by simp_all
  obtain t4 h' where 4: "write_head ?t = Inr ((), t4)" "disk t4 = (disk t3)(unat ?l := h')"
    using write_head_wp [OF pre] lt by (auto simp: Let_def elim!: wp_unitE)
  have "recover_from_log r = Inr ((), t4)" by (simp add: recover_from_log_def u(1) 3(1) 4(1))
  then show ?thesis using 4(2) d3 by (auto simp: wp_def)
qed

lemma sint_small: "0 \<le> n \<Longrightarrow> n < 1000 \<Longrightarrow> sint (of_int n :: u32) = n"
  by (simp add: signed_of_int signed_take_bit_int_eq_self)

lemma trace_take:
  assumes "0 \<le> lh_n s"
  shows "k \<le> nat (lh_n s) \<Longrightarrow> take k (trace s) = loggy s k"
    "nat (lh_n s) < k \<Longrightarrow> k \<le> 2 * nat (lh_n s) + 1 \<Longrightarrow>
     take k (trace s) = loggy s (nat (lh_n s)) @ (unat (lg_start s), head1 s) # homes s (k - nat (lh_n s) - 1)"
    "2 * nat (lh_n s) + 1 < k \<Longrightarrow> take k (trace s) = trace s"
proof -
  have ll: "length (loggy s m) = m" "length (homes s m) = m" for m by (simp_all add: loggy_def homes_def)
  have tk: "j \<le> m \<Longrightarrow> take j (loggy s m) = loggy s j" "j \<le> m \<Longrightarrow> take j (homes s m) = homes s j" for j m
    by (simp_all add: loggy_def homes_def take_map)
  let ?n = "nat (lh_n s)"
  show "k \<le> ?n \<Longrightarrow> take k (trace s) = loggy s k" by (simp add: trace_def Let_def ll tk)
  show "2 * ?n + 1 < k \<Longrightarrow> take k (trace s) = trace s" by (rule take_all) (simp add: trace_def Let_def ll)
  assume k: "?n < k" "k \<le> 2 * ?n + 1"
  define j where "j = k - ?n - 1"
  have "k = ?n + 1 + j" "j \<le> ?n" unfolding j_def using k by linarith+
  then show "take k (trace s) = loggy s ?n @ (unat (lg_start s), head1 s) # homes s (k - ?n - 1)"
    by (simp add: trace_def Let_def ll tk)
qed

lemma loggy_area:
  assumes "log_geo s" "m \<le> nat (lh_n s)"
  shows "a \<notin> larea s \<Longrightarrow> upds D (loggy s m) a = D a" "upds D (loggy s m) (unat (lg_start s)) = D (unat (lg_start s))"
    "j < m \<Longrightarrow> upds D (loggy s m) (unat (lg_start s) + j + 1) = blk s (lh_block s j)"
proof -
  have m30: "m < 30" using assms log_geoD(3) [OF assms(1)] by linarith
  have p: "unat (lpos s k) = unat (lg_start s) + k + 1" if "k < m" for k using geo_lpos [OF assms(1)] that m30 by simp
  show "a \<notin> larea s \<Longrightarrow> upds D (loggy s m) a = D a" unfolding loggy_def
    by (rule upds_map_at) (use p m30 in \<open>auto simp: larea_def\<close>)
  show "upds D (loggy s m) (unat (lg_start s)) = D (unat (lg_start s))" unfolding loggy_def
    by (rule upds_map_at) (use p in auto)
  have "inj_on (\<lambda>k. unat (lpos s k)) {..<m}" by (rule inj_onI) (simp add: p)
  from upds_map [OF this, of j D] show "j < m \<Longrightarrow> upds D (loggy s m) (unat (lg_start s) + j + 1) = blk s (lh_block s j)"
    using p by (simp add: loggy_def)
qed

lemma homes_area:
  assumes "log_geo s" "m \<le> nat (lh_n s)"
  shows "a \<in> larea s \<Longrightarrow> upds D (homes s m) a = D a" "j < m \<Longrightarrow> upds D (homes s m) (unat (lh_block s j)) = blk s (lh_block s j)"
    "a \<notin> (\<lambda>b. unat b) ` set (lbs s) \<Longrightarrow> upds D (homes s m) a = D a"
proof -
  have lb: "lh_block s k \<in> set (lbs s)" if "k < m" for k using that assms(2) by (auto simp: lbs_def)
  show "a \<in> larea s \<Longrightarrow> upds D (homes s m) a = D a" unfolding homes_def
    by (rule upds_map_at) (use log_geoD(7) [OF assms(1) lb] in auto)
  show "a \<notin> (\<lambda>b. unat b) ` set (lbs s) \<Longrightarrow> upds D (homes s m) a = D a" unfolding homes_def
    by (rule upds_map_at) (use lb in auto)
  have "inj_on (lh_block s) {..<nat (lh_n s)}" using log_geoD(6) [OF assms(1)] by (simp add: lbs_def distinct_map lessThan_atLeast0)
  then have "inj_on (\<lambda>k. unat (lh_block s k)) {..<m}"
    by (rule inj_onI [OF inj_onD]) (use assms(2) in \<open>auto simp: unat_inj\<close>)
  from upds_map [OF this, of j D] show "j < m \<Longrightarrow> upds D (homes s m) (unat (lh_block s j)) = blk s (lh_block s j)"
    by (simp add: homes_def)
qed

lemma start_area: "unat (lg_start s) \<in> larea s" by (simp add: larea_def)

lemma blk_settled:
  assumes "log_inv s" "held s = {}" "unat b \<notin> (\<lambda>b. unat b) ` set (lbs s)"
  shows "blk s b = disk s (unat b)"
  using blk_clean [OF log_invD(2) [OF assms(1)] assms(2), of b] assms(3) log_invD(13) [OF assms(1)] by auto

lemma homes_new:
  assumes "log_inv s" "held s = {}" "unat b \<notin> larea s" "\<And>a. a \<notin> larea s \<Longrightarrow> D a = disk s a"
  shows "upds D (homes s (nat (lh_n s))) (unat b) = blk s b"
proof (cases "unat b \<in> (\<lambda>b. unat b) ` set (lbs s)")
  case True
  then obtain j where "j < nat (lh_n s)" "b = lh_block s j" by (auto simp: unat_inj lbs_def)
  then show ?thesis using homes_area(2) [OF log_inv_parts(1) [OF assms(1)] le_refl] by simp
next
  case False
  then show ?thesis using homes_area(3) [OF log_inv_parts(1) [OF assms(1)] le_refl False] blk_settled [OF assms(1,2) False] assms(3,4)
    by simp
qed

lemma trace_new:
  assumes "log_inv s" "held s = {}" "unat b \<notin> larea s"
  shows "upds (disk s) (trace s) (unat b) = blk s b"
proof -
  note g = log_inv_parts(1) [OF assms(1)]
  have ne: "unat b \<noteq> unat (lg_start s)" using assms(3) start_area by metis
  have "upds ((upds (disk s) (loggy s (nat (lh_n s))))(unat (lg_start s) := head1 s)) (homes s (nat (lh_n s))) (unat b) = blk s b"
    by (rule homes_new [OF assms]) (use loggy_area(1) [OF g le_refl] start_area [of s] in auto)
  then show ?thesis using ne by (simp add: trace_def Let_def)
qed

lemma recover_zero:
  assumes "rebooted s D r" "log_geo s" "head_n (D (unat (lg_start s))) = 0"
  shows "\<exists>u. recover_from_log r = Inr ((), u) \<and> (\<forall>a. a \<notin> larea s \<longrightarrow> disk u a = D a)"
proof -
  have "head_ok s (D (unat (lg_start s)))" using assms(3) by (simp add: head_ok_def)
  from recover_wp [OF assms(1,2) this] obtain u h' where "recover_from_log r = Inr ((), u)" "disk u = D(unat (lg_start s) := h')"
    using assms(3) by (auto elim!: wp_unitE)
  then show ?thesis using start_area [of s] by auto
qed

lemma head1_sel:
  assumes "log_geo s"
  shows "head_n (head1 s) = lh_n s" "i < nat (lh_n s) \<Longrightarrow> head_b (head1 s) i = lh_block s i" "head_ok s (head1 s)"
proof -
  show n: "head_n (head1 s) = lh_n s"
    using log_geoD(2,3) [OF assms] by (simp add: head_n_def head1_def put_head_n sint_small)
  show b: "i < nat (lh_n s) \<Longrightarrow> head_b (head1 s) i = lh_block s i" for i by (simp add: head_b_def head1_def put_head_block)
  have "inj_on (lh_block s) {..<nat (lh_n s)}" using log_geoD(6) [OF assms] by (simp add: lbs_def distinct_map lessThan_atLeast0)
  then have "inj_on (head_b (head1 s)) {..<nat (lh_n s)}" by (subst inj_on_cong [where g = "lh_block s"]) (simp_all add: b)
  moreover have "unat (lh_block s i) < disksize s \<and> unat (lh_block s i) \<notin> larea s" if "i < nat (lh_n s)" for i
    by (rule log_geoD(7) [OF assms]) (use that in \<open>auto simp: lbs_def\<close>)
  ultimately show "head_ok s (head1 s)" using log_geoD(2,3) [OF assms] by (simp add: head_ok_def n b)
qed

text \<open>After the header is written, recovery redoes the whole transaction, however far the installation got.\<close>

lemma recover_redo:
  assumes "log_inv s" "held s = {}" "m \<le> nat (lh_n s)"
    "rebooted s (upds (disk s) (loggy s (nat (lh_n s)) @ (unat (lg_start s), head1 s) # homes s m)) r"
  shows "\<exists>u. recover_from_log r = Inr ((), u) \<and> (\<forall>b. unat b \<notin> larea s \<longrightarrow> disk u (unat b) = blk s b)"
proof -
  let ?n = "nat (lh_n s)" let ?l = "unat (lg_start s)"
  note g = log_inv_parts(1) [OF assms(1)]
  define D1 where "D1 = (upds (disk s) (loggy s ?n))(?l := head1 s)"
  define D where "D = upds D1 (homes s m)"
  have r: "rebooted s D r" using assms(4) by (simp add: D_def D1_def)
  have n30: "?n < 30" using log_geoD(3) [OF g] by linarith
  have Dl: "D ?l = head1 s" using homes_area(1) [OF g assms(3) start_area] by (simp add: D_def D1_def)
  have Dp: "D (?l + k + 1) = blk s (lh_block s k)" if "k < ?n" for k
    using homes_area(1) [OF g assms(3), of "?l + k + 1"] loggy_area(3) [OF g le_refl that] that n30
    by (simp add: D_def D1_def larea_def)
  have Da: "a \<notin> larea s \<Longrightarrow> a \<notin> (\<lambda>b. unat b) ` set (lbs s) \<Longrightarrow> D a = disk s a" for a
    using homes_area(3) [OF g assms(3)] loggy_area(1) [OF g le_refl] start_area [of s] by (auto simp: D_def D1_def)
  have "map (\<lambda>k. (unat (head_b (head1 s) k), D (?l + k + 1))) [0..<?n] = homes s ?n"
    using Dp by (simp add: homes_def head1_sel [OF g])
  with recover_wp [OF r g] head1_sel(1,3) [OF g] obtain u h' where u: "recover_from_log r = Inr ((), u)"
    "disk u = (upds D (homes s ?n))(?l := h')" unfolding Dl by (auto elim!: wp_unitE)
  have "disk u (unat b) = blk s b" if "unat b \<notin> larea s" for b
  proof (cases "unat b \<in> (\<lambda>b. unat b) ` set (lbs s)")
    case True
    then obtain j where "j < ?n" "b = lh_block s j" by (auto simp: unat_inj lbs_def)
    then show ?thesis using homes_area(2) [OF g le_refl] that start_area [of s] u(2) by auto
  next
    case False
    then show ?thesis using homes_area(3) [OF g le_refl False] blk_settled [OF assms(1,2) False] Da [OF that False] that start_area [of s] u(2)
      by auto
  qed
  then show ?thesis using u(1) by blast
qed

lemma crash_recover:
  assumes "log_inv s" "held s = {}" "head_n (disk s (unat (lg_start s))) = 0" "rebooted s (upds (disk s) (take k (trace s))) r"
  shows "\<exists>u. recover_from_log r = Inr ((), u) \<and>
    ((\<forall>a. a \<notin> larea s \<longrightarrow> disk u a = disk s a) \<or> (\<forall>b. unat b \<notin> larea s \<longrightarrow> disk u (unat b) = blk s b))"
proof -
  let ?n = "nat (lh_n s)" let ?l = "unat (lg_start s)"
  note g = log_inv_parts(1) [OF assms(1)]
  note tk = trace_take [OF log_geoD(2) [OF g], of k]
  consider "k \<le> ?n" | "?n < k" "k \<le> 2 * ?n + 1" | "2 * ?n + 1 < k" by linarith
  then show ?thesis
  proof cases
    case 1
    have r: "rebooted s (upds (disk s) (loggy s k)) r" using assms(4) tk(1) [OF 1] by simp
    have "head_n (upds (disk s) (loggy s k) ?l) = 0" using loggy_area(2) [OF g 1] assms(3) by simp
    from recover_zero [OF r g this] loggy_area(1) [OF g 1] show ?thesis by metis
  next
    case 2
    have "k - ?n - 1 \<le> ?n" using 2 by linarith
    from recover_redo [OF assms(1,2) this, of r] assms(4) show ?thesis unfolding tk(2) [OF 2] by blast
  next
    case 3
    have r: "rebooted s (upds (disk s) (trace s)) r" using assms(4) tk(3) [OF 3] by simp
    have "head_n (upds (disk s) (trace s) ?l) = 0"
      by (simp add: trace_def Let_def head_n_def put_head_n)
    from recover_zero [OF r g this] trace_new [OF assms(1,2)] show ?thesis by metis
  qed
qed

subsection \<open>Adding a block to the log\<close>

lemma dirty_held:
  assumes "bio_inv s" "i \<in> held s" "u = with_buf i ((bufs s i)\<lparr>b_dirty := True\<rparr>) s"
  shows "bio_inv u" "held u = held s" "blk u = blk s" "dblocks u = insert (b_blockno (bufs s i)) (dblocks s)"
proof -
  let ?B = "(bufs s i)\<lparr>b_dirty := True\<rparr>"
  have *: "calm s" "cur_of (mach s) \<noteq> None" "bio_ok s" using assms(1) by (simp_all add: bio_inv_def)
  note i = bio_okD(7) [OF *(3) assms(2)]
  have u: "u = (with_buf i ?B s)\<lparr>disk := disk s, wlog := wlog s\<rparr>" by (simp add: assms(3) with_buf_def)
  note h = held_upd [OF *(3) assms(2) _ _ _ _ _ u]
  have ok: "bio_ok u" using i by (intro h(1)) simp_all
  show "blk u = blk s" using i blk_slot [OF *(3), of i] by (subst h(2)) auto
  show "held u = held s" by (simp add: assms(3))
  show "bio_inv u" using * ok by (simp add: bio_inv_def assms(3))
  have d: "dirties u = insert i (dirties s)" using i by (auto simp: dirties_def assms(3))
  show "dblocks u = insert (b_blockno (bufs s i)) (dblocks s)" unfolding dblocks_def d by (auto simp: assms(3))
qed

lemma log_write_run_ok:
  assumes "log_inv s" "i \<in> held s" "lh_n s < 29" "lh_n s < lg_size s - 1" "1 \<le> lg_outstanding s" "unat (b_blockno (bufs s i)) \<notin> larea s"
  obtains t where "log_write i s = Inr ((), t)" "log_inv t" "held t = held s" "blk t = blk s"
    "bufs t = (bufs s)(i := (bufs s i)\<lparr>b_dirty := True\<rparr>)"
    "lbs t = (if b_blockno (bufs s i) \<in> set (lbs s) then lbs s else lbs s @ [b_blockno (bufs s i)])"
    "t = s\<lparr>bufs := bufs t, lh_n := lh_n t, lh_block := lh_block t\<rparr>"
proof -
  let ?no = "b_blockno (bufs s i)" let ?n = "nat (lh_n s)"
  define u where "u = with_buf i ((bufs s i)\<lparr>b_dirty := True\<rparr>) s"
  note d = dirty_held [OF log_inv_parts(2) [OF assms(1)] assms(2) u_def]
  note g = log_geoD [OF log_inv_parts(1) [OF assms(1)]]
  have cs: "calm s" "bio_ok s" using assms(1) by (simp_all add: log_inv_def bio_inv_def)
  have sz: "unat ?no < disksize s" using bio_okD(7) [OF cs(2) assms(2)] by simp
  have pass: "\<not> (lh_n s \<ge> LOGSIZE \<or> lh_n s \<ge> lg_size s - 1)" "\<not> lg_outstanding s < 1" using assms(3-5) by linarith+
  have us: "lg_start u = lg_start s" "lg_dev u = lg_dev s" "disksize u = disksize s" "larea u = larea s" "lh_n u = lh_n s" "lh_block u = lh_block s"
    by (simp_all add: u_def larea_def with_buf_def)
  show thesis
  proof (cases "?no \<in> set (lbs s)")
    case True
    then have "first_idx (\<lambda>k. lh_block s k = ?no) ?n \<noteq> None" by (auto simp: first_idx_None lbs_def)
    then obtain j where j: "first_idx (\<lambda>k. lh_block s k = ?no) ?n = Some j" by blast
    from first_idx_SomeD [OF j] have j': "lh_block s j = ?no" "j < ?n" by simp_all
    then have "(lh_block s)(j := ?no) = lh_block s" "int j \<noteq> lh_n s" by auto
    then have run: "log_write i s = Inr ((), u)"
      using pass cs(1) j by (simp add: log_write_def upd_buf_def whn_def u_def with_buf_def)
    have lb: "lbs u = lbs s" by (simp add: lbs_def us)
    have "log_inv u" using d g True log_invD(13) [OF assms(1)] us lb unfolding log_inv_def log_geo_def by auto
    then show ?thesis using that [OF run] d True lb by (simp add: u_def with_buf_def)
  next
    case False
    then have j: "first_idx (\<lambda>k. lh_block s k = ?no) ?n = None" by (force simp: first_idx_None lbs_def)
    define t where "t = u\<lparr>lh_n := lh_n s + 1, lh_block := (lh_block s)(?n := ?no)\<rparr>"
    have run: "log_write i s = Inr ((), t)"
      using pass cs(1) j g(2) by (simp add: log_write_def upd_buf_def whn_def t_def u_def with_buf_def)
    have "nat (lh_n s + 1) = Suc ?n" using g(2) by simp
    then have lb: "lbs t = lbs s @ [?no]" by (simp add: lbs_def t_def)
    have ts: "lg_start t = lg_start s" "lg_dev t = lg_dev s" "disksize t = disksize s" "larea t = larea s" "lh_n t = lh_n s + 1"
      by (simp_all add: t_def us larea_def)
    have "log_inv t" using d g False log_invD(13) [OF assms(1)] ts lb sz assms(3,6) unfolding log_inv_def log_geo_def by (auto simp: t_def)
    then show ?thesis using that [OF run] d False lb by (simp add: t_def u_def with_buf_def)
  qed
qed

subsection \<open>Reserving log space\<close>

definition op_init :: "op_sys \<Rightarrow> bool" where
  "op_init s \<longleftrightarrow> o_n s = 0 \<and> o_out s = 0 \<and> \<not> o_committing s \<and> o_size s = 30 \<and> opn s = (\<lambda>_. None)"

definition op_inv :: "op_sys \<Rightarrow> bool" where
  "op_inv s \<longleftrightarrow> finite (dom (opn s)) \<and> o_out s = int (card (dom (opn s))) \<and>
     (\<forall>p k. opn s p = Some k \<longrightarrow> 0 \<le> k \<and> k \<le> 10) \<and> o_size s = 30 \<and> 0 \<le> o_n s \<and>
     o_n s + (\<Sum>p\<in>dom (opn s). 10 - the (opn s p)) \<le> 30"

lemma sum_upd:
  fixes f :: "nat \<Rightarrow> int option"
  assumes "finite (dom f)"
  shows "f p = None \<Longrightarrow> (\<Sum>q\<in>dom (f(p := Some k)). 10 - the ((f(p := Some k)) q)) = (\<Sum>q\<in>dom f. 10 - the (f q)) + (10 - k)"
    "f p = Some j \<Longrightarrow> (\<Sum>q\<in>dom f. 10 - the ((f(p := Some k)) q)) = (\<Sum>q\<in>dom f. 10 - the (f q)) + (j - k)"
    "f p = Some j \<Longrightarrow> (\<Sum>q\<in>dom f - {p}. 10 - the ((f(p := None)) q)) = (\<Sum>q\<in>dom f. 10 - the (f q)) - (10 - j)"
proof -
  show "f p = None \<Longrightarrow> (\<Sum>q\<in>dom (f(p := Some k)). 10 - the ((f(p := Some k)) q)) = (\<Sum>q\<in>dom f. 10 - the (f q)) + (10 - k)"
  proof -
    assume "f p = None"
    then have p: "p \<notin> dom f" by auto
    have "(\<Sum>q\<in>dom f. 10 - the ((f(p := Some k)) q)) = (\<Sum>q\<in>dom f. 10 - the (f q))"
      by (rule sum.cong) (use p in auto)
    then show ?thesis using assms p by (simp add: sum.insert)
  qed
  assume fp: "f p = Some j"
  then have p: "p \<in> dom f" by auto
  have c: "(\<Sum>q\<in>dom f - {p}. 10 - the ((f(p := x)) q)) = (\<Sum>q\<in>dom f - {p}. 10 - the (f q))" for x
    by (rule sum.cong) auto
  from c [of "Some k"] show "(\<Sum>q\<in>dom f. 10 - the ((f(p := Some k)) q)) = (\<Sum>q\<in>dom f. 10 - the (f q)) + (j - k)"
    using sum.remove [OF assms p, of "\<lambda>q. 10 - the ((f(p := Some k)) q)"] sum.remove [OF assms p, of "\<lambda>q. 10 - the (f q)"] fp by simp
  from c [of None] show "(\<Sum>q\<in>dom f - {p}. 10 - the ((f(p := None)) q)) = (\<Sum>q\<in>dom f. 10 - the (f q)) - (10 - j)"
    using sum.remove [OF assms p, of "\<lambda>q. 10 - the (f q)"] fp by simp
qed

lemma resv_nonneg: "op_inv s \<Longrightarrow> 0 \<le> (\<Sum>q\<in>dom (opn s). 10 - the (opn s q))"
  by (rule sum_nonneg) (auto simp: op_inv_def)

lemma resv_one: "op_inv s \<Longrightarrow> opn s p = Some k \<Longrightarrow> 10 - k \<le> (\<Sum>q\<in>dom (opn s). 10 - the (opn s q))"
proof -
  assume "op_inv s" and k: "opn s p = Some k"
  then have "10 - the (opn s p) \<le> (\<Sum>q\<in>dom (opn s). 10 - the (opn s q))"
    by (intro member_le_sum) (auto simp: op_inv_def)
  then show ?thesis using k by simp
qed

lemma resv_all: "op_inv s \<Longrightarrow> (\<Sum>q\<in>dom (opn s). 10 - the (opn s q)) \<le> o_out s * 10"
  using sum_bounded_above [of "dom (opn s)" "\<lambda>q. 10 - the (opn s q)" 10] by (force simp: op_inv_def)

interpretation ops: inductive_invariant op_init op_step op_inv
proof
  show "op_init s \<Longrightarrow> op_inv s" for s by (auto simp: op_init_def op_inv_def)
  fix s t assume I: "op_inv s" and st: "op_step s t"
  have F: "finite (dom (opn s))" using I by (simp add: op_inv_def)
  from st show "op_inv t"
  proof cases
    case (op_begin p)
    then show ?thesis using I sum_upd(1) [OF F op_begin(2), of 0] resv_all [OF I] by (auto simp: op_inv_def card_insert_if)
  next
    case (op_absorb p k)
    then show ?thesis using I by simp
  next
    case (op_log p k)
    then have "dom ((opn s)(p := Some (k + 1))) = dom (opn s)" by auto
    then show ?thesis using I op_log sum_upd(2) [OF F op_log(2), of "k + 1"] by (auto simp: op_inv_def)
  next
    case (op_end p k)
    then have k: "0 \<le> k" "k \<le> 10" "p \<in> dom (opn s)" using I by (auto simp: op_inv_def)
    then show ?thesis using I op_end sum_upd(3) [OF F op_end(2)] card_Suc_Diff1 [OF F k(3)]
      by (auto simp: op_inv_def) (use k(2) in linarith)
  next
    case (op_last p k)
    then have k: "0 \<le> k" "k \<le> 10" "p \<in> dom (opn s)" using I by (auto simp: op_inv_def)
    then show ?thesis using I op_last sum_upd(3) [OF F op_last(2)] card_Suc_Diff1 [OF F k(3)]
      by (auto simp: op_inv_def) (use k(2) in linarith)
  next
    case op_commit
    then show ?thesis using I by (auto simp: op_inv_def)
  qed
qed

subsection \<open>Properties\<close>

text \<open>
  A log with one block in it: block 100, cached and dirty, every byte 7 where the disk has 0.
\<close>

definition log1 :: log_state where
  "log1 = bio_state.extend (boot_bio\<lparr>bufs := (\<lambda>_. zero_buf)(0 := \<lparr>b_valid = True, b_dirty = True, b_dev = 1,
       b_blockno = 100, b_refcnt = 0, b_data = (\<lambda>_. 7)\<rparr>), disk := (\<lambda>_ _. 0)\<rparr>)
     \<lparr>lg_start = 2, lg_size = 30, lg_outstanding = 0, lg_committing = True, lg_dev = 1, lh_n = 1, lh_block = (\<lambda>_. 100)\<rparr>"

lemma log1_sel [simp]: "mach log1 = boot_mach" "disksize log1 = 1000" "disk log1 = (\<lambda>_ _. 0)" "wlog log1 = []"
  "lru log1 = rev [0..<NBUF]" "held log1 = {}" "lg_start log1 = 2" "lg_dev log1 = 1" "lh_n log1 = 1" "lh_block log1 = (\<lambda>_. 100)"
  "bufs log1 = (\<lambda>_. zero_buf)(0 := \<lparr>b_valid = True, b_dirty = True, b_dev = 1, b_blockno = 100, b_refcnt = 0, b_data = (\<lambda>_. 7)\<rparr>)"
  by (simp_all add: log1_def bio_state.defs boot_bio_def vm_state.defs kmem_state.defs boot_kmem_def ptab_state.defs boot_ptab_def held_def)

lemma log1_bio: "bio_inv log1" "dirties log1 = {0}" "dblocks log1 = {100}"
proof -
  have "bio_ok log1"
  proof (rule bio_okI)
    show "inj_on (\<lambda>i. b_blockno (bufs log1 i)) {i. i < NBUF \<and> b_dev (bufs log1 i) = 1}"
      by (rule inj_onI) (auto simp: zero_buf_def split: if_splits)
  qed (auto simp: zero_buf_def lessThan_atLeast0 split: if_splits)
  then show "bio_inv log1" by (simp add: bio_inv_def)
  show d: "dirties log1 = {0}" by (auto simp: dirties_def zero_buf_def split: if_splits)
  show "dblocks log1 = {100}" by (simp add: dblocks_def d)
qed

lemma log1_ok: "log_inv log1" "larea log1 = {2..32}" "blk log1 100 = (\<lambda>_. 7)"
proof -
  show la: "larea log1 = {2..32}" by (simp add: larea_def)
  have "lbs log1 = [100]" by (simp add: lbs_def)
  then show "log_inv log1" by (simp add: log_inv_def log_geo_def log1_bio la)
  show "blk log1 100 = (\<lambda>_. 7)" using blk_slot [of log1 0 100] log1_bio(1) by (simp add: bio_inv_def)
qed

text \<open>
  C1: a transaction is atomic across crashes. When \<open>commit\<close> runs with an empty log on the disk, it
  returns, and every block outside the log then holds on the disk what the kernel saw in the cache. And
  if the machine stops after any number of the block writes that \<open>commit\<close> performs, then recovery at the
  next boot returns, and all blocks outside the log have the contents from before the transaction, or
  all of them have the contents from after it.
\<close>

theorem commit_crash_safe:
  assumes "log_inv s" "held s = {}" "head_n (disk s (unat (lg_start s))) = 0"
  shows "\<exists>t W. commit s = Inr ((), t) \<and> wlog t = wlog s @ W \<and>
    (\<forall>b. unat b \<notin> larea s \<longrightarrow> disk t (unat b) = blk s b) \<and>
    (\<forall>k r. rebooted s (upds (disk s) (take k W)) r \<longrightarrow> (\<exists>u. recover_from_log r = Inr ((), u) \<and>
      ((\<forall>a. a \<notin> larea s \<longrightarrow> disk u a = disk s a) \<or>
       (\<forall>b. unat b \<notin> larea s \<longrightarrow> disk u (unat b) = blk s b))))"
proof (cases "0 < lh_n s")
  case True
  from commit_wp [OF assms(1,2) True] obtain t where "commit s = Inr ((), t)" "wlog t = wlog s @ trace s"
    "disk t = upds (disk s) (trace s)" by (elim wp_unitE conjE) (rule that)
  then show ?thesis using trace_new [OF assms(1,2)] crash_recover [OF assms] by (intro exI [of _ t] exI [of _ "trace s"]) simp
next
  case False
  then have "dblocks s = {}" using log_invD(13) [OF assms(1)] by (simp add: lbs_def)
  then have b: "disk s (unat b) = blk s b" for b using blk_clean [OF log_invD(2) [OF assms(1)] assms(2)] by simp
  have "commit s = Inr ((), s)" using False by (simp add: commit_def whn_def ret_def)
  then show ?thesis using b crash_recover [OF assms, of 0] by (intro exI [of _ s] exI [of _ "[]"]) simp
qed

definition log1_crash :: log_state where
  "log1_crash = log1\<lparr>bufs := (\<lambda>_. zero_buf), disk := upds (disk log1) (take 2 (trace log1))\<rparr>"

lemma log1_crash_ok: "rebooted log1 (upds (disk log1) (take 2 (trace log1))) log1_crash"
proof -
  have "held log1_crash = held log1" by (simp add: held_def log1_crash_def)
  then have h: "held log1_crash = {}" by simp
  have "bio_ok log1_crash \<and> dirties log1_crash = {} \<and> blk log1_crash = (\<lambda>b. disk log1_crash (unat b))"
    by (rule empty_cache_ok) (simp_all add: h, simp_all add: log1_crash_def lessThan_atLeast0)
  then show ?thesis using h by (simp add: rebooted_def bio_inv_def dblocks_def) (simp add: log1_crash_def)
qed

theorem commit_crash_safe_witness:
  "\<exists>t u. commit log1 = Inr ((), t) \<and> disk t 100 = (\<lambda>_. 7) \<and>
     recover_from_log log1_crash = Inr ((), u) \<and> (disk u 100 = (\<lambda>_. 0) \<or> disk u 100 = (\<lambda>_. 7))"
proof -
  have "head_n (disk log1 (unat (lg_start log1))) = 0" by (simp add: head_n_def ld32_def)
  from commit_crash_safe [OF log1_ok(1) log1_sel(6) this] obtain t W where t: "commit log1 = Inr ((), t)" "wlog t = wlog log1 @ W"
    "\<forall>b. unat b \<notin> larea log1 \<longrightarrow> disk t (unat b) = blk log1 b"
    "\<forall>k r. rebooted log1 (upds (disk log1) (take k W)) r \<longrightarrow> (\<exists>u. recover_from_log r = Inr ((), u) \<and>
      ((\<forall>a. a \<notin> larea log1 \<longrightarrow> disk u a = disk log1 a) \<or>
       (\<forall>b. unat b \<notin> larea log1 \<longrightarrow> disk u (unat b) = blk log1 b)))" by blast
  have "W = trace log1" using t(1,2) commit_wp [OF log1_ok(1)] by (simp add: wp_def)
  then have "rebooted log1 (upds (disk log1) (take 2 W)) log1_crash" using log1_crash_ok by (simp only:)
  from t(4) [THEN spec, THEN spec, THEN mp, OF this] obtain u where u: "recover_from_log log1_crash = Inr ((), u)"
    "(\<forall>a. a \<notin> larea log1 \<longrightarrow> disk u a = disk log1 a) \<or>
     (\<forall>b. unat b \<notin> larea log1 \<longrightarrow> disk u (unat b) = blk log1 b)" by (elim exE conjE) (rule that)
  have "disk t 100 = (\<lambda>_. 7)" using t(3) [rule_format, of 100] log1_ok(2,3) by simp
  moreover have "disk u 100 = (\<lambda>_. 0) \<or> disk u 100 = (\<lambda>_. 7)"
    using u(2)
  proof
    assume "\<forall>a. a \<notin> larea log1 \<longrightarrow> disk u a = disk log1 a"
    from spec [OF this, of 100] show ?thesis using log1_ok(2) by simp
  next
    assume "\<forall>b. unat b \<notin> larea log1 \<longrightarrow> disk u (unat b) = blk log1 b"
    from spec [OF this, of 100] show ?thesis using log1_ok(2,3) by simp
  qed
  ultimately show ?thesis using t(1) u(1) by blast
qed


definition op0 :: op_sys where
  "op0 = \<lparr>o_n = 0, o_out = 0, o_committing = False, o_size = 30, opn = (\<lambda>_. None)\<rparr>"

definition op3 :: op_sys where
  "op3 = \<lparr>o_n = 0, o_out = 3, o_committing = False, o_size = 30, opn = (\<lambda>p. if p < 3 then Some 0 else None)\<rparr>"

lemma op3_reach: "reach op_init op_step op3"
proof -
  have "reach op_init op_step op0" by (rule reach_init) (simp add: op_init_def op0_def)
  from reach_step [OF this op_begin [of _ 0]]
  have "reach op_init op_step \<lparr>o_n = 0, o_out = 1, o_committing = False, o_size = 30, opn = (\<lambda>_. None)(0 := Some 0)\<rparr>"
    by (simp add: op0_def)
  from reach_step [OF this op_begin [of _ 1]]
  have "reach op_init op_step \<lparr>o_n = 0, o_out = 2, o_committing = False, o_size = 30, opn = (\<lambda>_. None)(0 := Some 0, 1 := Some 0)\<rparr>"
    by simp
  from reach_step [OF this op_begin [of _ 2]]
  have "reach op_init op_step \<lparr>o_n = 0, o_out = 3, o_committing = False, o_size = 30,
      opn = (\<lambda>_. None)(0 := Some 0, 1 := Some 0, 2 := Some 0)\<rparr>" by simp
  moreover have "(\<lambda>_. None)(0 := Some 0, 1 := Some 0, 2 := Some 0) = (\<lambda>p :: nat. if p < 3 then Some (0 :: int) else None)"
    by (auto simp: fun_eq_iff)
  ultimately show ?thesis by (simp add: op3_def)
qed


lemma op_logs:
  assumes "reach op_init op_step s" "opn s p = Some 0" "o_size s = 30" "j \<le> 10" "o_n s + int j \<le> 29"
  shows "reach op_init op_step (s\<lparr>o_n := o_n s + int j, opn := (opn s)(p := Some (int j))\<rparr>)"
  using assms(4,5)
proof (induction j)
  case 0
  have e: "(opn s)(p := Some (int 0)) = opn s" using assms(2) by auto
  show ?case by (subst e) (use assms(1) in simp)
next
  case (Suc j)
  let ?s = "s\<lparr>o_n := o_n s + int j, opn := (opn s)(p := Some (int j))\<rparr>"
  have "reach op_init op_step ?s" by (rule Suc.IH) (use Suc.prems in simp_all)
  then have "reach op_init op_step (?s\<lparr>o_n := o_n ?s + 1, opn := (opn ?s)(p := Some (int j + 1))\<rparr>)"
    by (rule reach_step, intro op_log) (use Suc.prems assms(3) in simp_all)
  moreover have "?s\<lparr>o_n := o_n ?s + 1, opn := (opn ?s)(p := Some (int j + 1))\<rparr> =
      s\<lparr>o_n := o_n s + int (Suc j), opn := (opn s)(p := Some (int (Suc j)))\<rparr>" by (simp add: algebra_simps)
  ultimately show ?case by (simp only:)
qed

text \<open>
  C23: the reservation is one block larger than the log accepts. \<open>begin_op\<close> promises LOGSIZE = 30 blocks,
  but \<open>log_write\<close> refuses the 30th because the log area of LOGSIZE blocks also holds the header: three
  operations within their MAXOPBLOCKS each reach a state in which the last one's tenth block makes the
  kernel panic.
\<close>

theorem log_write_overcommit:
  "\<exists>s. reach op_init op_step s \<and> opn s 2 = Some 9 \<and> o_size s = LOGSIZE \<and>
     log_write b (st\<lparr>lh_n := o_n s, lg_size := o_size s\<rparr>) = Inl (Panic ''too big a transaction'')"
proof -
  have a: "reach op_init op_step (op3\<lparr>o_n := 10, opn := (opn op3)(0 := Some 10)\<rparr>)"
    using op_logs [OF op3_reach, of 0 10] by (simp add: op3_def)
  have b: "reach op_init op_step (op3\<lparr>o_n := 20, opn := (opn op3)(0 := Some 10, 1 := Some 10)\<rparr>)"
    using op_logs [OF a, of 1 10] by (simp add: op3_def)
  have c: "reach op_init op_step (op3\<lparr>o_n := 29, opn := (opn op3)(0 := Some 10, 1 := Some 10, 2 := Some 9)\<rparr>)"
    using op_logs [OF b, of 2 9] by (simp add: op3_def)
  let ?s = "op3\<lparr>o_n := 29, opn := (opn op3)(0 := Some 10, 1 := Some 10, 2 := Some 9)\<rparr>"
  show ?thesis using c by (intro exI [of _ ?s] conjI) (simp_all add: op3_def log_write_def kerror_def)
qed

end
