(* ===== verification/Inode.thy ===== *)
theory Inode
  imports Log
begin

text \<open>
  The lower half of the file system (\<open>fs.c\<close> up to \<open>stati\<close>): zeroing, allocating and freeing disk blocks,
  the inode cache, the on-disk inodes, and the map from a file's block numbers to disk blocks. A pointer
  to a cached inode is its index in \<open>icache.inode\<close>, a null pointer \<open>None\<close> where the code tests for it.
  Blocks are read and written through the buffer cache and the log, byte by byte as the on-disk
  structures lay them out.
\<close>

unbundle bit_operations_syntax

section \<open>Definitions\<close>

abbreviation "NINODE \<equiv> (50 :: nat)"
abbreviation "NDIRECT \<equiv> (12 :: nat)"
abbreviation "NINDIRECT \<equiv> (128 :: nat)"
abbreviation "IPB \<equiv> (8 :: nat)"
abbreviation "BPB \<equiv> (4096 :: nat)"
abbreviation "T_DIR \<equiv> (1 :: u16)"
abbreviation "T_FILE \<equiv> (2 :: u16)"
abbreviation "T_DEV \<equiv> (3 :: u16)"
abbreviation "ROOTINO \<equiv> (1 :: u32)"

record inode =
  i_dev :: u32
  i_inum :: u32
  i_ref :: int
  i_valid :: bool
  i_type :: u16
  i_major :: u16
  i_minor :: u16
  i_nlink :: u16
  i_size :: u32
  i_addrs :: "nat \<Rightarrow> u32"

record stat =
  st_type :: u16
  st_dev :: u32
  st_ino :: u32
  st_nlink :: u16
  st_size :: u32

record fs_state = log_state +
  sb :: superblock
  icache :: "nat \<Rightarrow> inode"

definition upd_inode :: "nat \<Rightarrow> (inode \<Rightarrow> inode) \<Rightarrow> ('z fs_state_scheme, unit) kop" where
  "upd_inode ip f = upd (\<lambda>s. s\<lparr>icache := (icache s)(ip := f (icache s ip))\<rparr>)"

definition rd_inode :: "nat \<Rightarrow> ('z fs_state_scheme, inode) kop" where
  "rd_inode ip = rd (\<lambda>s. icache s ip)"

definition IBLOCK :: "u32 \<Rightarrow> superblock \<Rightarrow> u32" where
  "IBLOCK i v = i div of_nat IPB + sb_inodestart v"

definition BBLOCK :: "u32 \<Rightarrow> superblock \<Rightarrow> u32" where
  "BBLOCK b v = b div of_nat BPB + sb_bmapstart v"

definition bzero :: "u32 \<Rightarrow> u32 \<Rightarrow> ('z fs_state_scheme, unit) kop" where
  "bzero dev bno =
     bnd (bread dev bno) (\<lambda>bp.
     thn (set_bdata bp (\<lambda>_. 0)) (
     thn (log_write bp)
     (brelse bp)))"

primrec balloc_scan :: "u32 \<Rightarrow> nat list \<Rightarrow> ('z fs_state_scheme, u32) kop" where
  "balloc_scan dev [] = panic ''balloc: out of blocks''"
| "balloc_scan dev (b # bs) =
     bnd (rd sb) (\<lambda>sb.
     bnd (bread dev (BBLOCK (of_nat b) sb)) (\<lambda>bp.
     bnd (bdata bp) (\<lambda>d.
     case first_idx (\<lambda>bi. b + bi < unat (sb_size sb) \<and> d (bi div 8) AND push_bit (bi mod 8) 1 = 0) BPB of
       Some bi \<Rightarrow>
         thn (set_bdata bp (d(bi div 8 := d (bi div 8) OR push_bit (bi mod 8) 1))) (
         thn (log_write bp) (
         thn (brelse bp) (
         thn (bzero dev (of_nat (b + bi)))
         (ret (of_nat (b + bi))))))
     | None \<Rightarrow>
         thn (brelse bp)
         (balloc_scan dev bs))))"

definition balloc :: "u32 \<Rightarrow> ('z fs_state_scheme, u32) kop" where
  "balloc dev = bnd (rd sb) (\<lambda>sb. balloc_scan dev (map (\<lambda>k. k * BPB) [0..<(unat (sb_size sb) + BPB - 1) div BPB]))"

definition bfree :: "u32 \<Rightarrow> u32 \<Rightarrow> ('z fs_state_scheme, unit) kop" where
  "bfree dev b =
     bnd (readsb dev) (\<lambda>nsb.
     thn (upd (\<lambda>s. s\<lparr>sb := nsb\<rparr>)) (
     bnd (bread dev (BBLOCK b nsb)) (\<lambda>bp.
     bnd (bdata bp) (\<lambda>d.
     let bi = unat b mod BPB; m = push_bit (bi mod 8) 1 in
     if d (bi div 8) AND m = 0 then panic ''freeing free block''
     else
       thn (set_bdata bp (d(bi div 8 := d (bi div 8) AND NOT m))) (
       thn (log_write bp)
       (brelse bp))))))"

definition iget :: "u32 \<Rightarrow> u32 \<Rightarrow> ('z fs_state_scheme, nat) kop" where
  "iget dev inum =
     thn (acquire LIcache) (
     bnd (rd (\<lambda>s. first_idx (\<lambda>i. i_ref (icache s i) > 0 \<and> i_dev (icache s i) = dev \<and> i_inum (icache s i) = inum) NINODE)) (\<lambda>hit.
     case hit of Some ip \<Rightarrow>
       thn (upd_inode ip (\<lambda>i. i\<lparr>i_ref := i_ref i + 1\<rparr>)) (
       thn (release LIcache)
       (ret ip))
     | None \<Rightarrow>
       bnd (rd (\<lambda>s. first_idx (\<lambda>i. i_ref (icache s i) = 0) NINODE)) (\<lambda>empty.
       case empty of None \<Rightarrow> panic ''iget: no inodes''
       | Some ip \<Rightarrow>
         thn (upd_inode ip (\<lambda>i. i\<lparr>i_dev := dev, i_inum := inum, i_ref := 1, i_valid := False\<rparr>)) (
         thn (release LIcache)
         (ret ip)))))"

definition dinode_off :: "u32 \<Rightarrow> nat" where
  "dinode_off inum = 64 * (unat inum mod IPB)"

primrec ialloc_scan :: "u32 \<Rightarrow> u16 \<Rightarrow> nat list \<Rightarrow> ('z fs_state_scheme, nat) kop" where
  "ialloc_scan dev type [] = panic ''ialloc: no inodes''"
| "ialloc_scan dev type (inum # inums) =
     bnd (rd sb) (\<lambda>sb.
     bnd (bread dev (IBLOCK (of_nat inum) sb)) (\<lambda>bp.
     bnd (bdata bp) (\<lambda>d.
     let off = dinode_off (of_nat inum) in
     if ld16 d off = 0
     then
       thn (set_bdata bp (st16 (memset off 0 64 d) off type)) (
       thn (log_write bp) (
       thn (brelse bp)
       (iget dev (of_nat inum))))
     else
       thn (brelse bp)
       (ialloc_scan dev type inums))))"

definition ialloc :: "u32 \<Rightarrow> u16 \<Rightarrow> ('z fs_state_scheme, nat) kop" where
  "ialloc dev type = bnd (rd sb) (\<lambda>sb. ialloc_scan dev type [1..<unat (sb_ninodes sb)])"

definition put_addrs :: "(nat \<Rightarrow> u32) \<Rightarrow> nat \<Rightarrow> bview \<Rightarrow> bview" where
  "put_addrs a off d = fold (\<lambda>k d. st32 d (off + 12 + 4 * k) (a k)) [0..<NDIRECT + 1] d"

definition put_dinode :: "inode \<Rightarrow> nat \<Rightarrow> bview \<Rightarrow> bview" where
  "put_dinode i off d =
     put_addrs (i_addrs i) off
       (st32 (st16 (st16 (st16 (st16 d off (i_type i)) (off + 2) (i_major i)) (off + 4) (i_minor i)) (off + 6) (i_nlink i))
         (off + 8) (i_size i))"

definition get_dinode :: "nat \<Rightarrow> bview \<Rightarrow> inode \<Rightarrow> inode" where
  "get_dinode off d i = i\<lparr>i_type := ld16 d off, i_major := ld16 d (off + 2), i_minor := ld16 d (off + 4),
     i_nlink := ld16 d (off + 6), i_size := ld32 d (off + 8),
     i_addrs := (\<lambda>k. if k \<le> NDIRECT then ld32 d (off + 12 + 4 * k) else i_addrs i k)\<rparr>"

definition iupdate :: "nat \<Rightarrow> ('z fs_state_scheme, unit) kop" where
  "iupdate ip =
     bnd (rd_inode ip) (\<lambda>i.
     bnd (rd sb) (\<lambda>sb.
     bnd (bread (i_dev i) (IBLOCK (i_inum i) sb)) (\<lambda>bp.
     bnd (bdata bp) (\<lambda>d.
     thn (set_bdata bp (put_dinode i (dinode_off (i_inum i)) d)) (
     thn (log_write bp)
     (brelse bp))))))"

definition idup :: "nat \<Rightarrow> ('z fs_state_scheme, nat) kop" where
  "idup ip =
     thn (acquire LIcache) (
     thn (upd_inode ip (\<lambda>i. i\<lparr>i_ref := i_ref i + 1\<rparr>)) (
     thn (release LIcache)
     (ret ip)))"

definition ilock :: "nat option \<Rightarrow> ('z fs_state_scheme, unit) kop" where
  "ilock p = (case p of None \<Rightarrow> panic ''ilock'' | Some ip \<Rightarrow>
     bnd (rd_inode ip) (\<lambda>i.
     if i_ref i < 1 then panic ''ilock''
     else
       thn (acquiresleep (SInode ip)) (
       bnd (rd_inode ip) (\<lambda>i.
       whn (\<not> i_valid i) (
         bnd (rd sb) (\<lambda>sb.
         bnd (bread (i_dev i) (IBLOCK (i_inum i) sb)) (\<lambda>bp.
         bnd (bdata bp) (\<lambda>d.
         thn (upd_inode ip (get_dinode (dinode_off (i_inum i)) d)) (
         thn (brelse bp) (
         thn (upd_inode ip (\<lambda>i. i\<lparr>i_valid := True\<rparr>)) (
         bnd (rd_inode ip) (\<lambda>i.
         whn (i_type i = 0) (panic ''ilock: no type'')))))))))))))"

definition iunlock :: "nat option \<Rightarrow> ('z fs_state_scheme, unit) kop" where
  "iunlock p = (case p of None \<Rightarrow> panic ''iunlock'' | Some ip \<Rightarrow>
     bnd (holdingsleep (SInode ip)) (\<lambda>h.
     bnd (rd_inode ip) (\<lambda>i.
     if \<not> h \<or> i_ref i < 1 then panic ''iunlock''
     else releasesleep (SInode ip))))"

definition bmap :: "nat \<Rightarrow> u32 \<Rightarrow> ('z fs_state_scheme, u32) kop" where
  "bmap ip bn0 =
     bnd (rd_inode ip) (\<lambda>i.
     if unat bn0 < NDIRECT then
       if i_addrs i (unat bn0) = 0 then
         bnd (balloc (i_dev i)) (\<lambda>addr.
         thn (upd_inode ip (\<lambda>i. i\<lparr>i_addrs := (i_addrs i)(unat bn0 := addr)\<rparr>))
         (ret addr))
       else ret (i_addrs i (unat bn0))
     else let bn = unat (bn0 - of_nat NDIRECT) in
     if bn < NINDIRECT then
       bnd (if i_addrs i NDIRECT = 0 then
              bnd (balloc (i_dev i)) (\<lambda>addr.
              thn (upd_inode ip (\<lambda>i. i\<lparr>i_addrs := (i_addrs i)(NDIRECT := addr)\<rparr>))
              (ret addr))
            else ret (i_addrs i NDIRECT)) (\<lambda>ind.
       bnd (bread (i_dev i) ind) (\<lambda>bp.
       bnd (bdata bp) (\<lambda>a.
       bnd (if ld32 a (4 * bn) = 0 then
              bnd (balloc (i_dev i)) (\<lambda>addr.
              bnd (bdata bp) (\<lambda>a.
              thn (set_bdata bp (st32 a (4 * bn) addr)) (
              thn (log_write bp)
              (ret addr))))
            else ret (ld32 a (4 * bn))) (\<lambda>addr.
       thn (brelse bp)
       (ret addr)))))
     else panic ''bmap: out of range'')"

definition itrunc_direct :: "nat \<Rightarrow> nat \<Rightarrow> ('z fs_state_scheme, unit) kop" where
  "itrunc_direct ip k =
     bnd (rd_inode ip) (\<lambda>i.
     whn (i_addrs i k \<noteq> 0) (
       thn (bfree (i_dev i) (i_addrs i k))
       (upd_inode ip (\<lambda>i. i\<lparr>i_addrs := (i_addrs i)(k := 0)\<rparr>))))"

definition itrunc :: "nat \<Rightarrow> ('z fs_state_scheme, unit) kop" where
  "itrunc ip =
     thn (each (itrunc_direct ip) [0..<NDIRECT]) (
     bnd (rd_inode ip) (\<lambda>i.
     thn (whn (i_addrs i NDIRECT \<noteq> 0) (
       bnd (bread (i_dev i) (i_addrs i NDIRECT)) (\<lambda>bp.
       thn (each (\<lambda>j. bnd (bdata bp) (\<lambda>a. whn (ld32 a (4 * j) \<noteq> 0) (bfree (i_dev i) (ld32 a (4 * j))))) [0..<NINDIRECT]) (
       thn (brelse bp) (
       thn (bfree (i_dev i) (i_addrs i NDIRECT))
       (upd_inode ip (\<lambda>i. i\<lparr>i_addrs := (i_addrs i)(NDIRECT := 0)\<rparr>))))))) (
     thn (upd_inode ip (\<lambda>i. i\<lparr>i_size := 0\<rparr>))
     (iupdate ip))))"

definition iput :: "nat \<Rightarrow> ('z fs_state_scheme, unit) kop" where
  "iput ip =
     thn (acquiresleep (SInode ip)) (
     bnd (rd_inode ip) (\<lambda>i.
     thn (whn (i_valid i \<and> i_nlink i = 0) (
       thn (acquire LIcache) (
       bnd (rd_inode ip) (\<lambda>i.
       thn (release LIcache)
       (whn (i_ref i = 1) (
         thn (itrunc ip) (
         thn (upd_inode ip (\<lambda>i. i\<lparr>i_type := 0\<rparr>)) (
         thn (iupdate ip)
         (upd_inode ip (\<lambda>i. i\<lparr>i_valid := False\<rparr>))))))))))
     (thn (releasesleep (SInode ip)) (
      thn (acquire LIcache) (
      thn (upd_inode ip (\<lambda>i. i\<lparr>i_ref := i_ref i - 1\<rparr>))
      (release LIcache))))))"

definition iunlockput :: "nat \<Rightarrow> ('z fs_state_scheme, unit) kop" where
  "iunlockput ip = thn (iunlock (Some ip)) (iput ip)"

definition stati :: "nat \<Rightarrow> ('z fs_state_scheme, stat) kop" where
  "stati ip = bnd (rd_inode ip) (\<lambda>i. ret \<lparr>st_type = i_type i, st_dev = i_dev i, st_ino = i_inum i,
     st_nlink = i_nlink i, st_size = i_size i\<rparr>)"

end
