(* ===== verification/Console.thy ===== *)
theory Console
  imports Inode
begin

text \<open>
  The console (\<open>console.c\<close>): formatted kernel output, the screen, the line discipline of the input
  buffer, and the device's read and write functions. The screen is the CGA memory and the cursor
  registers; what goes to the serial port is the list \<open>uart_out\<close>. The characters an interrupt handler's
  \<open>getc\<close> returns before -1 are a list. Data read from the device is returned as bytes.
\<close>

unbundle bit_operations_syntax

section \<open>Definitions\<close>

abbreviation "BACKSPACE \<equiv> (0x100 :: int)"
abbreviation "INPUT_BUF \<equiv> (128 :: nat)"
abbreviation "CONSOLE \<equiv> (1 :: nat)"
abbreviation "NDEV \<equiv> (10 :: int)"

datatype devfn = DevConsole

record con_state = fs_state +
  cons_locking :: bool
  panicked :: bool
  crt :: "nat \<Rightarrow> u16"
  crt_pos :: u16
  uart :: bool
  uart_out :: "u8 list"
  in_buf :: "nat \<Rightarrow> u8"
  in_r :: u32
  in_w :: u32
  in_e :: u32
  devsw_read :: "nat \<Rightarrow> devfn option"
  devsw_write :: "nat \<Rightarrow> devfn option"

subsection \<open>Output\<close>

text \<open>\<open>uart.c\<close>: nothing is sent when no serial port was found.\<close>

definition uartputc :: "int \<Rightarrow> ('z con_state_scheme, unit) kop" where
  "uartputc c = bnd (rd uart) (\<lambda>present. whn present (upd (\<lambda>s. s\<lparr>uart_out := uart_out s @ [of_int c]\<rparr>)))"

definition scroll :: "nat \<Rightarrow> (nat \<Rightarrow> u16) \<Rightarrow> nat \<Rightarrow> u16" where
  "scroll pos m = (\<lambda>k. if pos \<le> k \<and> k < 24 * 80 then 0 else if k < 23 * 80 then m (k + 80) else m k)"

definition cgaputc :: "int \<Rightarrow> ('z con_state_scheme, unit) kop" where
  "cgaputc c =
     bnd (rd (\<lambda>s. unat (crt_pos s))) (\<lambda>p0.
     bnd (if c = 10 then ret (p0 + (80 - p0 mod 80))
          else if c = BACKSPACE then ret (p0 - 1)
          else thn (upd (\<lambda>s. s\<lparr>crt := (crt s)(p0 := of_int (c mod 256) OR 0x0700)\<rparr>)) (ret (p0 + 1))) (\<lambda>p1.
     if p1 > 25 * 80 then panic ''pos under/overflow''
     else
       bnd (if p1 div 80 \<ge> 24
            then thn (upd (\<lambda>s. s\<lparr>crt := scroll (p1 - 80) (crt s)\<rparr>)) (ret (p1 - 80))
            else ret p1) (\<lambda>pos.
       upd (\<lambda>s. s\<lparr>crt_pos := of_nat pos, crt := (crt s)(pos := 0x20 OR 0x0700)\<rparr>))))"

definition consputc :: "int \<Rightarrow> ('z con_state_scheme, unit) kop" where
  "consputc c =
     bnd (rd panicked) (\<lambda>p.
     if p then kerror (Waits ''panicked'')
     else
       thn (if c = BACKSPACE then thn (uartputc 8) (thn (uartputc 32) (uartputc 8)) else uartputc c)
       (cgaputc c))"

abbreviation "ch c \<equiv> uint (c :: u8)"

text \<open>\<open>printint\<close>: the digits are put out one by one.\<close>

definition con_printint :: "u32 \<Rightarrow> u32 \<Rightarrow> bool \<Rightarrow> ('z con_state_scheme, unit) kop" where
  "con_printint xx base sign = each (\<lambda>c. consputc (ch c)) (printint hex_lower xx base sign)"

datatype carg = AInt u32 | AStr "u8 list option"

fun cprintf_loop :: "u8 list \<Rightarrow> carg list \<Rightarrow> ('z con_state_scheme, unit) kop" where
  "cprintf_loop [] args = ret ()"
| "cprintf_loop (c # fmt) args =
     (if c \<noteq> 37 then thn (consputc (ch c)) (cprintf_loop fmt args)
      else case fmt of
        [] \<Rightarrow> ret ()
      | d # fmt' \<Rightarrow>
          if d = 100 then
            (case args of AInt x # args' \<Rightarrow> thn (con_printint x 10 True) (cprintf_loop fmt' args')
             | _ \<Rightarrow> kerror (Fault ''cprintf''))
          else if d = 120 \<or> d = 112 then
            (case args of AInt x # args' \<Rightarrow> thn (con_printint x 16 False) (cprintf_loop fmt' args')
             | _ \<Rightarrow> kerror (Fault ''cprintf''))
          else if d = 115 then
            (case args of
               AStr (Some cs) # args' \<Rightarrow> thn (each (\<lambda>c. consputc (ch c)) cs) (cprintf_loop fmt' args')
             | AStr None # args' \<Rightarrow>
                 thn (each (\<lambda>c. consputc (int c)) (map of_char ''(null)'')) (cprintf_loop fmt' args')
             | _ \<Rightarrow> kerror (Fault ''cprintf''))
          else if d = 37 then thn (consputc 37) (cprintf_loop fmt' args)
          else thn (consputc 37) (thn (consputc (ch d)) (cprintf_loop fmt' args)))"

definition cprintf :: "u8 list option \<Rightarrow> carg list \<Rightarrow> ('z con_state_scheme, unit) kop" where
  "cprintf fmt args =
     bnd (rd cons_locking) (\<lambda>locking.
     thn (whn locking (acquire LCons)) (
     case fmt of None \<Rightarrow> panic ''null fmt''
     | Some f \<Rightarrow>
         thn (cprintf_loop f args)
         (whn locking (release LCons))))"

subsection \<open>Input\<close>

definition input_at :: "u32 \<Rightarrow> nat" where
  "input_at i = unat i mod INPUT_BUF"

text \<open>Kill line: erase back to the start of the edited part or to a newline. The distance from \<open>w\<close> bounds it.\<close>

primrec kill_line :: "nat \<Rightarrow> ('z con_state_scheme, unit) kop" where
  "kill_line 0 = kerror NoFuel"
| "kill_line (Suc fuel) =
     bnd (rd (\<lambda>s. in_e s \<noteq> in_w s \<and> in_buf s (input_at (in_e s - 1)) \<noteq> 10)) (\<lambda>more.
     whn more (
       thn (upd (\<lambda>s. s\<lparr>in_e := in_e s - 1\<rparr>)) (
       thn (consputc BACKSPACE)
       (kill_line fuel))))"

definition input_key :: "int \<Rightarrow> ('z con_state_scheme, bool) kop" where
  "input_key c =
     (if c = 16 then ret True
      else if c = 21 then
        bnd (rd (\<lambda>s. unat (in_e s - in_w s) + 1)) (\<lambda>fuel. thn (kill_line fuel) (ret False))
      else if c = 8 \<or> c = 127 then
        bnd (rd (\<lambda>s. in_e s \<noteq> in_w s)) (\<lambda>more.
        thn (whn more (thn (upd (\<lambda>s. s\<lparr>in_e := in_e s - 1\<rparr>)) (consputc BACKSPACE)))
        (ret False))
      else
        bnd (rd (\<lambda>s. c \<noteq> 0 \<and> unat (in_e s - in_r s) < INPUT_BUF)) (\<lambda>ok.
        thn (whn ok (
          let c = (if c = 13 then 10 else c) in
          thn (upd (\<lambda>s. s\<lparr>in_buf := (in_buf s)(input_at (in_e s) := of_int c), in_e := in_e s + 1\<rparr>)) (
          thn (consputc c) (
          bnd (rd (\<lambda>s. in_e s = in_r s + of_nat INPUT_BUF)) (\<lambda>full.
          whn (c = 10 \<or> c = 4 \<or> full) (
            thn (upd (\<lambda>s. s\<lparr>in_w := in_e s\<rparr>))
            (wakeup ChInput)))))))
        (ret False)))"

primrec input_keys :: "int list \<Rightarrow> ('z con_state_scheme, bool) kop" where
  "input_keys [] = ret False"
| "input_keys (c # cs) = bnd (input_key c) (\<lambda>d. bnd (input_keys cs) (\<lambda>ds. ret (d \<or> ds)))"

text \<open>The interrupt handler: \<open>dump\<close> stands for the call of \<open>procdump\<close> after the lock is released.\<close>

definition consoleintr :: "('z con_state_scheme, unit) kop \<Rightarrow> int list \<Rightarrow> ('z con_state_scheme, unit) kop" where
  "consoleintr dump cs =
     thn (acquire LCons) (
     bnd (input_keys cs) (\<lambda>doprocdump.
     thn (release LCons)
     (whn doprocdump dump)))"

primrec consoleread_loop :: "nat \<Rightarrow> nat \<Rightarrow> ('z con_state_scheme, u8 list \<times> nat option) kop" where
  "consoleread_loop target 0 = ret ([], Some 0)"
| "consoleread_loop target (Suc n) =
     bnd (rd (\<lambda>s. in_r s = in_w s)) (\<lambda>empty.
     if empty then
       bnd curproc (\<lambda>p.
       bnd (rd (\<lambda>s. p_killed (procs s p))) (\<lambda>k.
       if k then ret ([], None) else kerror (Waits ''consoleread'')))
     else
       bnd (rd (\<lambda>s. in_buf s (input_at (in_r s)))) (\<lambda>c.
       thn (upd (\<lambda>s. s\<lparr>in_r := in_r s + 1\<rparr>)) (
       if c = 4 then
         thn (whn (Suc n < target) (upd (\<lambda>s. s\<lparr>in_r := in_r s - 1\<rparr>)))
         (ret ([], Some (Suc n)))
       else if c = 10 then ret ([c], Some n)
       else bnd (consoleread_loop target n) (\<lambda>(cs, left). ret (c # cs, left)))))"

definition consoleread :: "nat \<Rightarrow> nat \<Rightarrow> ('z con_state_scheme, int \<times> u8 list) kop" where
  "consoleread ip n =
     thn (iunlock (Some ip)) (
     thn (acquire LCons) (
     bnd (consoleread_loop n n) (\<lambda>(cs, left).
     thn (release LCons) (
     thn (ilock (Some ip))
     (ret (case left of None \<Rightarrow> - 1 | Some k \<Rightarrow> int n - int k, cs))))))"

definition consolewrite :: "nat \<Rightarrow> u8 list \<Rightarrow> ('z con_state_scheme, int) kop" where
  "consolewrite ip cs =
     thn (iunlock (Some ip)) (
     thn (acquire LCons) (
     thn (each (\<lambda>c. consputc (ch c)) cs) (
     thn (release LCons) (
     thn (ilock (Some ip))
     (ret (int (length cs)))))))"

text \<open>\<open>consoleinit\<close>, without the interrupt controller's routing of the keyboard.\<close>

definition consoleinit :: "('z con_state_scheme, unit) kop" where
  "consoleinit =
     thn (initlock LCons)
     (upd (\<lambda>s. s\<lparr>devsw_write := (devsw_write s)(CONSOLE := Some DevConsole),
       devsw_read := (devsw_read s)(CONSOLE := Some DevConsole), cons_locking := True\<rparr>))"

end
