(* ===== verification/Dir.thy ===== *)
theory Dir
  imports Console
begin

text \<open>
  The upper half of the file system (\<open>fs.c\<close> from \<open>readi\<close> to \<open>nameiparent\<close>): reading and writing the
  contents of a file, directories, and path names. The bytes \<open>readi\<close> copies to its destination are part
  of its result and the bytes \<open>writei\<close> copies from its source an argument, so that the same functions
  serve kernel buffers and user memory. A path is the list of its bytes before the NUL; a name is a
  buffer of DIRSIZ bytes.
\<close>

unbundle bit_operations_syntax

section \<open>Definitions\<close>

abbreviation "DIRSIZ \<equiv> (14 :: nat)"
abbreviation "MAXFILE \<equiv> (140 :: nat)"

text \<open>\<open>iinit\<close> prints the superblock, so it comes after the console.\<close>

definition iinit :: "u32 \<Rightarrow> ('z con_state_scheme, unit) kop" where
  "iinit dev =
     thn (initlock LIcache) (
     thn (each (\<lambda>i. initsleeplock (SInode i)) [0..<NINODE]) (
     bnd (readsb dev) (\<lambda>nsb.
     thn (upd (\<lambda>s. s\<lparr>sb := nsb\<rparr>))
     (cprintf (Some (map of_char ''sb: size %d nblocks %d ninodes %d nlog %d logstart %d inodestart %d bmap start %d'' @ [10]))
       [AInt (sb_size nsb), AInt (sb_nblocks nsb), AInt (sb_ninodes nsb), AInt (sb_nlog nsb), AInt (sb_logstart nsb),
        AInt (sb_inodestart nsb), AInt (sb_bmapstart nsb)]))))"

subsection \<open>Contents\<close>

text \<open>The loops take at least one byte per iteration, so the number of bytes bounds them.\<close>

primrec readi_loop :: "nat \<Rightarrow> nat \<Rightarrow> u32 \<Rightarrow> nat \<Rightarrow> ('z con_state_scheme, u8 list) kop" where
  "readi_loop 0 ip off n = (if n = 0 then ret [] else kerror NoFuel)"
| "readi_loop (Suc fuel) ip off n =
     (if n = 0 then ret []
      else
        bnd (bmap ip (off div of_nat BSIZE)) (\<lambda>a.
        bnd (rd_inode ip) (\<lambda>i.
        bnd (bread (i_dev i) a) (\<lambda>bp.
        let k = unat off mod BSIZE; m = min n (BSIZE - k) in
        bnd (bdata bp) (\<lambda>d.
        thn (brelse bp) (
        bnd (readi_loop fuel ip (off + of_nat m) (n - m)) (\<lambda>bs.
        ret (map d [k..<k + m] @ bs))))))))"

definition readi :: "nat \<Rightarrow> u32 \<Rightarrow> u32 \<Rightarrow> ('z con_state_scheme, int \<times> u8 list) kop" where
  "readi ip off n =
     bnd (rd_inode ip) (\<lambda>i.
     if i_type i = T_DEV then
       bnd (rd devsw_read) (\<lambda>dv.
       if sint (i_major i) < 0 \<or> sint (i_major i) \<ge> NDEV \<or> dv (unat (i_major i)) = None then ret (- 1, [])
       else consoleread ip (unat n))
     else if off > i_size i \<or> off + n < off then ret (- 1, [])
     else
       let n = (if off + n > i_size i then i_size i - off else n) in
       bnd (readi_loop (unat n) ip off (unat n)) (\<lambda>bs.
       ret (int (unat n), bs)))"

primrec writei_loop :: "nat \<Rightarrow> nat \<Rightarrow> u32 \<Rightarrow> u8 list \<Rightarrow> ('z con_state_scheme, u32) kop" where
  "writei_loop 0 ip off src = (if src = [] then ret off else kerror NoFuel)"
| "writei_loop (Suc fuel) ip off src =
     (if src = [] then ret off
      else
        bnd (bmap ip (off div of_nat BSIZE)) (\<lambda>a.
        bnd (rd_inode ip) (\<lambda>i.
        bnd (bread (i_dev i) a) (\<lambda>bp.
        let k = unat off mod BSIZE; m = min (length src) (BSIZE - k) in
        bnd (bdata bp) (\<lambda>d.
        thn (set_bdata bp (put_bytes k (take m src) d)) (
        thn (log_write bp) (
        thn (brelse bp)
        (writei_loop fuel ip (off + of_nat m) (drop m src)))))))))"

definition writei :: "nat \<Rightarrow> u32 \<Rightarrow> u8 list \<Rightarrow> ('z con_state_scheme, int) kop" where
  "writei ip off src =
     bnd (rd_inode ip) (\<lambda>i.
     let n = of_nat (length src) :: u32 in
     if i_type i = T_DEV then
       bnd (rd devsw_write) (\<lambda>dv.
       if sint (i_major i) < 0 \<or> sint (i_major i) \<ge> NDEV \<or> dv (unat (i_major i)) = None then ret (- 1)
       else consolewrite ip src)
     else if off > i_size i \<or> off + n < off then ret (- 1)
     else if unat (off + n) > MAXFILE * BSIZE then ret (- 1)
     else
       bnd (writei_loop (length src) ip off src) (\<lambda>off.
       bnd (rd_inode ip) (\<lambda>i.
       thn (whn (n > 0 \<and> off > i_size i) (
         thn (upd_inode ip (\<lambda>i. i\<lparr>i_size := off\<rparr>))
         (iupdate ip)))
       (ret (int (unat n))))))"

subsection \<open>Directories\<close>

definition bv :: "u8 list \<Rightarrow> bview" where
  "bv bs = (\<lambda>k. if k < length bs then bs ! k else 0)"

definition namecmp :: "bview \<Rightarrow> bview \<Rightarrow> int" where
  "namecmp s t = strncmp s t DIRSIZ"

definition de_inum :: "u8 list \<Rightarrow> u16" where
  "de_inum de = ld16 (bv de) 0"

definition de_name :: "u8 list \<Rightarrow> bview" where
  "de_name de = (\<lambda>k. bv de (2 + k))"

primrec dirlookup_scan :: "nat \<Rightarrow> bview \<Rightarrow> nat list \<Rightarrow> ('z con_state_scheme, (nat \<times> nat) option) kop" where
  "dirlookup_scan dp name [] = ret None"
| "dirlookup_scan dp name (off # offs) =
     bnd (readi dp (of_nat off) 16) (\<lambda>(r, de).
     if r \<noteq> 16 then panic ''dirlookup read''
     else if de_inum de = 0 then dirlookup_scan dp name offs
     else if namecmp name (de_name de) = 0 then
       bnd (rd_inode dp) (\<lambda>i.
       bnd (iget (i_dev i) (ucast (de_inum de))) (\<lambda>ip.
       ret (Some (ip, off))))
     else dirlookup_scan dp name offs)"

definition dir_offs :: "u32 \<Rightarrow> nat list" where
  "dir_offs sz = map (\<lambda>k. 16 * k) [0..<(unat sz + 15) div 16]"

definition dirlookup :: "nat \<Rightarrow> bview \<Rightarrow> ('z con_state_scheme, (nat \<times> nat) option) kop" where
  "dirlookup dp name =
     bnd (rd_inode dp) (\<lambda>i.
     if i_type i \<noteq> T_DIR then panic ''dirlookup not DIR''
     else dirlookup_scan dp name (dir_offs (i_size i)))"

text \<open>The offset of the first empty entry, or the end of the directory.\<close>

primrec dirlink_slot :: "nat \<Rightarrow> nat list \<Rightarrow> ('z con_state_scheme, nat) kop" where
  "dirlink_slot dp [] = bnd (rd_inode dp) (\<lambda>i. ret (16 * ((unat (i_size i) + 15) div 16)))"
| "dirlink_slot dp (off # offs) =
     bnd (readi dp (of_nat off) 16) (\<lambda>(r, de).
     if r \<noteq> 16 then panic ''dirlink read''
     else if de_inum de = 0 then ret off
     else dirlink_slot dp offs)"

definition dirent_bytes :: "bview \<Rightarrow> u32 \<Rightarrow> u8 list" where
  "dirent_bytes name inum =
     (let m = strncpy 2 100 DIRSIZ (\<lambda>a. if 100 \<le> a then name (a - 100) else 0)
      in map (st16 m 0 (ucast inum)) [0..<16])"

definition dirlink :: "nat \<Rightarrow> bview \<Rightarrow> u32 \<Rightarrow> ('z con_state_scheme, int) kop" where
  "dirlink dp name inum =
     bnd (dirlookup dp name) (\<lambda>e.
     case e of Some (ip, _) \<Rightarrow> thn (iput ip) (ret (- 1))
     | None \<Rightarrow>
         bnd (rd_inode dp) (\<lambda>i.
         bnd (dirlink_slot dp (dir_offs (i_size i))) (\<lambda>off.
         bnd (writei dp (of_nat off) (dirent_bytes name inum)) (\<lambda>r.
         if r \<noteq> 16 then panic ''dirlink'' else ret 0))))"

subsection \<open>Paths\<close>

abbreviation "slash \<equiv> (47 :: u8)"

definition skipelem :: "u8 list \<Rightarrow> bview \<Rightarrow> (u8 list \<times> bview) option" where
  "skipelem path name =
     (let p = dropWhile (\<lambda>c. c = slash) path in
      if p = [] then None
      else
        let s = takeWhile (\<lambda>c. c \<noteq> slash) p;
            rest = dropWhile (\<lambda>c. c \<noteq> slash) p;
            name' = (if length s \<ge> DIRSIZ then put_bytes 0 (take DIRSIZ s) name
                     else (put_bytes 0 s name)(length s := 0))
        in Some (dropWhile (\<lambda>c. c = slash) rest, name'))"

text \<open>Every round of \<open>namex\<close> consumes a path element, so the path's length bounds the loop.\<close>

primrec namex_loop :: "nat \<Rightarrow> nat \<Rightarrow> u8 list \<Rightarrow> bool \<Rightarrow> bview \<Rightarrow> ('z con_state_scheme, nat option \<times> bview) kop" where
  "namex_loop 0 ip path nip name = kerror NoFuel"
| "namex_loop (Suc fuel) ip path nip name =
     (case skipelem path name of
        None \<Rightarrow> if nip then thn (iput ip) (ret (None, name)) else ret (Some ip, name)
      | Some (path', name') \<Rightarrow>
          thn (ilock (Some ip)) (
          bnd (rd_inode ip) (\<lambda>i.
          if i_type i \<noteq> T_DIR then thn (iunlockput ip) (ret (None, name'))
          else if nip \<and> path' = [] then thn (iunlock (Some ip)) (ret (Some ip, name'))
          else
            bnd (dirlookup ip name') (\<lambda>nxt.
            case nxt of None \<Rightarrow> thn (iunlockput ip) (ret (None, name'))
            | Some (nx, _) \<Rightarrow>
                thn (iunlockput ip)
                (namex_loop fuel nx path' nip name')))))"

definition namex :: "u8 list \<Rightarrow> bool \<Rightarrow> bview \<Rightarrow> ('z con_state_scheme, nat option \<times> bview) kop" where
  "namex path nip name =
     bnd (if path \<noteq> [] \<and> hd path = slash then iget 1 ROOTINO
          else
            bnd curproc (\<lambda>p.
            bnd (rd (\<lambda>s. p_cwd (procs s p))) (\<lambda>c.
            case c of None \<Rightarrow> kerror (Fault ''cwd'') | Some ip \<Rightarrow> idup ip))) (\<lambda>ip.
     namex_loop (length path + 1) ip path nip name)"

definition namei :: "u8 list \<Rightarrow> ('z con_state_scheme, nat option) kop" where
  "namei path = bnd (namex path False (\<lambda>_. 0)) (\<lambda>(ip, _). ret ip)"

definition nameiparent :: "u8 list \<Rightarrow> ('z con_state_scheme, nat option \<times> bview) kop" where
  "nameiparent path = namex path True (\<lambda>_. 0)"

end
