(* ===== verification/File.thy ===== *)
theory File
  imports Dir
begin

text \<open>
  Open files (\<open>file.c\<close>) and pipes (\<open>pipe.c\<close>). A pointer to a \<open>struct file\<close> is its index in
  \<open>ftable.file\<close>. A pipe lives in a page from the page allocator; \<open>pipes\<close> maps the page's address to the
  structure. Data read is returned as bytes, data to write is an argument.
\<close>

unbundle bit_operations_syntax

section \<open>Definitions\<close>

abbreviation "NFILE \<equiv> (100 :: nat)"
abbreviation "PIPESIZE \<equiv> (512 :: nat)"

datatype ftype = FD_NONE | FD_PIPE | FD_INODE

record file_rec =
  f_type :: ftype
  f_ref :: int
  f_readable :: u8
  f_writable :: u8
  f_pipe :: u32
  f_ip :: "nat option"
  f_off :: u32

record pipe =
  pp_data :: "nat \<Rightarrow> u8"
  pp_nread :: u32
  pp_nwrite :: u32
  pp_readopen :: bool
  pp_writeopen :: bool

record file_state = con_state +
  ftable :: "nat \<Rightarrow> file_rec"
  pipes :: "u32 \<Rightarrow> pipe"

definition upd_file :: "nat \<Rightarrow> (file_rec \<Rightarrow> file_rec) \<Rightarrow> ('z file_state_scheme, unit) kop" where
  "upd_file f g = upd (\<lambda>s. s\<lparr>ftable := (ftable s)(f := g (ftable s f))\<rparr>)"

definition rd_file :: "nat \<Rightarrow> ('z file_state_scheme, file_rec) kop" where
  "rd_file f = rd (\<lambda>s. ftable s f)"

definition upd_pipe :: "u32 \<Rightarrow> (pipe \<Rightarrow> pipe) \<Rightarrow> ('z file_state_scheme, unit) kop" where
  "upd_pipe p g = upd (\<lambda>s. s\<lparr>pipes := (pipes s)(p := g (pipes s p))\<rparr>)"

definition rd_pipe :: "u32 \<Rightarrow> ('z file_state_scheme, pipe) kop" where
  "rd_pipe p = rd (\<lambda>s. pipes s p)"

definition fileinit :: "('z file_state_scheme, unit) kop" where
  "fileinit = initlock LFtable"

definition filealloc :: "('z file_state_scheme, nat option) kop" where
  "filealloc =
     thn (acquire LFtable) (
     bnd (rd (\<lambda>s. first_idx (\<lambda>f. f_ref (ftable s f) = 0) NFILE)) (\<lambda>slot.
     case slot of
       Some f \<Rightarrow>
         thn (upd_file f (\<lambda>x. x\<lparr>f_ref := 1\<rparr>)) (
         thn (release LFtable)
         (ret (Some f)))
     | None \<Rightarrow>
         thn (release LFtable)
         (ret None)))"

definition filedup :: "nat \<Rightarrow> ('z file_state_scheme, nat) kop" where
  "filedup f =
     thn (acquire LFtable) (
     bnd (rd_file f) (\<lambda>x.
     if f_ref x < 1 then panic ''filedup''
     else
       thn (upd_file f (\<lambda>x. x\<lparr>f_ref := f_ref x + 1\<rparr>)) (
       thn (release LFtable)
       (ret f))))"

subsection \<open>Pipes\<close>

definition pipeclose :: "u32 \<Rightarrow> bool \<Rightarrow> ('z file_state_scheme, unit) kop" where
  "pipeclose p writable =
     thn (acquire (LPipe p)) (
     thn (if writable then thn (upd_pipe p (\<lambda>x. x\<lparr>pp_writeopen := False\<rparr>)) (wakeup (ChPipeRead p))
          else thn (upd_pipe p (\<lambda>x. x\<lparr>pp_readopen := False\<rparr>)) (wakeup (ChPipeWrite p))) (
     bnd (rd_pipe p) (\<lambda>x.
     if \<not> pp_readopen x \<and> \<not> pp_writeopen x
     then thn (release (LPipe p)) (kfree p)
     else release (LPipe p))))"

definition pipe_put :: "u8 \<Rightarrow> pipe \<Rightarrow> pipe" where
  "pipe_put c x = x\<lparr>pp_data := (pp_data x)(unat (pp_nwrite x) mod PIPESIZE := c), pp_nwrite := pp_nwrite x + 1\<rparr>"

primrec pipewrite_loop :: "u32 \<Rightarrow> u8 list \<Rightarrow> ('z file_state_scheme, bool) kop" where
  "pipewrite_loop p [] = ret True"
| "pipewrite_loop p (c # cs) =
     bnd (rd_pipe p) (\<lambda>x.
     if pp_nwrite x = pp_nread x + of_nat PIPESIZE then
       bnd curproc (\<lambda>q.
       bnd (rd (\<lambda>s. p_killed (procs s q))) (\<lambda>killed.
       if \<not> pp_readopen x \<or> killed then ret False
       else
         thn (wakeup (ChPipeRead p))
         (kerror (Waits ''pipewrite''))))
     else
       thn (upd_pipe p (pipe_put c))
       (pipewrite_loop p cs))"

definition pipewrite :: "u32 \<Rightarrow> u8 list \<Rightarrow> ('z file_state_scheme, int) kop" where
  "pipewrite p cs =
     thn (acquire (LPipe p)) (
     bnd (pipewrite_loop p cs) (\<lambda>ok.
     if \<not> ok then thn (release (LPipe p)) (ret (- 1))
     else
       thn (wakeup (ChPipeRead p)) (
       thn (release (LPipe p))
       (ret (int (length cs))))))"

primrec piperead_loop :: "u32 \<Rightarrow> nat \<Rightarrow> ('z file_state_scheme, u8 list) kop" where
  "piperead_loop p 0 = ret []"
| "piperead_loop p (Suc n) =
     bnd (rd_pipe p) (\<lambda>x.
     if pp_nread x = pp_nwrite x then ret []
     else
       thn (upd_pipe p (\<lambda>x. x\<lparr>pp_nread := pp_nread x + 1\<rparr>)) (
       bnd (piperead_loop p n) (\<lambda>cs.
       ret (pp_data x (unat (pp_nread x) mod PIPESIZE) # cs))))"

definition piperead :: "u32 \<Rightarrow> int \<Rightarrow> ('z file_state_scheme, int \<times> u8 list) kop" where
  "piperead p n =
     thn (acquire (LPipe p)) (
     bnd (rd_pipe p) (\<lambda>x.
     if pp_nread x = pp_nwrite x \<and> pp_writeopen x then
       bnd curproc (\<lambda>q.
       bnd (rd (\<lambda>s. p_killed (procs s q))) (\<lambda>killed.
       if killed then thn (release (LPipe p)) (ret (- 1, []))
       else kerror (Waits ''piperead'')))
     else
       bnd (piperead_loop p (nat n)) (\<lambda>cs.
       thn (wakeup (ChPipeWrite p)) (
       thn (release (LPipe p))
       (ret (int (length cs), cs))))))"

subsection \<open>Files\<close>

definition fileclose :: "nat \<Rightarrow> ('z file_state_scheme, unit) kop" where
  "fileclose f =
     thn (acquire LFtable) (
     bnd (rd_file f) (\<lambda>x.
     if f_ref x < 1 then panic ''fileclose''
     else
       thn (upd_file f (\<lambda>x. x\<lparr>f_ref := f_ref x - 1\<rparr>)) (
       if f_ref x - 1 > 0 then release LFtable
       else
         thn (upd_file f (\<lambda>x. x\<lparr>f_ref := 0, f_type := FD_NONE\<rparr>)) (
         thn (release LFtable) (
         case f_type x of
           FD_PIPE \<Rightarrow> pipeclose (f_pipe x) (f_writable x \<noteq> 0)
         | FD_INODE \<Rightarrow>
             thn begin_op (
             thn (case f_ip x of Some ip \<Rightarrow> iput ip | None \<Rightarrow> kerror (Fault ''iput''))
             end_op)
         | FD_NONE \<Rightarrow> ret ())))))"

definition pipealloc :: "('z file_state_scheme, (nat \<times> nat) option) kop" where
  "pipealloc =
     bnd filealloc (\<lambda>f0.
     bnd (case f0 of None \<Rightarrow> ret None | Some _ \<Rightarrow> filealloc) (\<lambda>f1.
     bnd (case f1 of None \<Rightarrow> ret 0 | Some _ \<Rightarrow> kalloc) (\<lambda>p.
     case (f0, f1) of
       (Some a, Some b) \<Rightarrow>
         if p = 0 then thn (fileclose a) (thn (fileclose b) (ret None))
         else
           thn (upd_pipe p (\<lambda>x. x\<lparr>pp_readopen := True, pp_writeopen := True, pp_nwrite := 0, pp_nread := 0\<rparr>)) (
           thn (initlock (LPipe p)) (
           thn (upd_file a (\<lambda>x. x\<lparr>f_type := FD_PIPE, f_readable := 1, f_writable := 0, f_pipe := p\<rparr>)) (
           thn (upd_file b (\<lambda>x. x\<lparr>f_type := FD_PIPE, f_readable := 0, f_writable := 1, f_pipe := p\<rparr>))
           (ret (Some (a, b))))))
     | (Some a, None) \<Rightarrow> thn (fileclose a) (ret None)
     | _ \<Rightarrow> ret None)))"

definition filestat :: "nat \<Rightarrow> ('z file_state_scheme, int \<times> stat option) kop" where
  "filestat f =
     bnd (rd_file f) (\<lambda>x.
     if f_type x = FD_INODE then
       thn (ilock (f_ip x)) (
       bnd (stati (the (f_ip x))) (\<lambda>st.
       thn (iunlock (f_ip x))
       (ret (0, Some st))))
     else ret (- 1, None))"

definition fileread :: "nat \<Rightarrow> int \<Rightarrow> ('z file_state_scheme, int \<times> u8 list) kop" where
  "fileread f n =
     bnd (rd_file f) (\<lambda>x.
     if f_readable x = 0 then ret (- 1, [])
     else case f_type x of
       FD_PIPE \<Rightarrow> piperead (f_pipe x) n
     | FD_INODE \<Rightarrow>
         thn (ilock (f_ip x)) (
         bnd (readi (the (f_ip x)) (f_off x) (of_int n)) (\<lambda>(r, bs).
         thn (whn (r > 0) (upd_file f (\<lambda>x. x\<lparr>f_off := f_off x + of_int r\<rparr>))) (
         thn (iunlock (f_ip x))
         (ret (r, bs)))))
     | FD_NONE \<Rightarrow> panic ''fileread'')"

text \<open>At most three blocks' worth of data per transaction: \<open>((MAXOPBLOCKS-1-1-2) / 2) * 512\<close>.\<close>

abbreviation "filewrite_max \<equiv> (1536 :: nat)"

primrec filewrite_loop :: "nat \<Rightarrow> nat \<Rightarrow> u8 list \<Rightarrow> ('z file_state_scheme, bool) kop" where
  "filewrite_loop 0 f bs = (if bs = [] then ret True else kerror NoFuel)"
| "filewrite_loop (Suc fuel) f bs =
     (if bs = [] then ret True
      else
        let n1 = min (length bs) filewrite_max in
        thn begin_op (
        bnd (rd_file f) (\<lambda>x.
        thn (ilock (f_ip x)) (
        bnd (writei (the (f_ip x)) (f_off x) (take n1 bs)) (\<lambda>r.
        thn (whn (r > 0) (upd_file f (\<lambda>x. x\<lparr>f_off := f_off x + of_int r\<rparr>))) (
        thn (iunlock (f_ip x)) (
        thn end_op (
        if r < 0 then ret False
        else if r \<noteq> int n1 then panic ''short filewrite''
        else filewrite_loop fuel f (drop n1 bs)))))))))"

definition filewrite :: "nat \<Rightarrow> u8 list \<Rightarrow> ('z file_state_scheme, int) kop" where
  "filewrite f bs =
     bnd (rd_file f) (\<lambda>x.
     if f_writable x = 0 then ret (- 1)
     else case f_type x of
       FD_PIPE \<Rightarrow> pipewrite (f_pipe x) bs
     | FD_INODE \<Rightarrow>
         bnd (filewrite_loop (length bs) f bs) (\<lambda>ok.
         ret (if ok then int (length bs) else - 1))
     | FD_NONE \<Rightarrow>
         thn (cprintf (Some (map of_char ''type:%d'' @ [10])) [AInt 0])
         (panic ''filewrite''))"

end
