(* ===== verification/Swap.thy ===== *)
theory Swap
  imports File
begin

text \<open>
  Demand paging: the swap file of a process (the last part of \<open>fs.c\<close>), the functions of \<open>vm.c\<close> that move
  pages between memory and the swap file, and the two functions of \<open>sysfile.c\<close> they need, \<open>create\<close> and
  the unlinking of a path. The kernel reads and writes a user page through the current page directory:
  \<open>uload\<close> and \<open>ustore\<close> translate each address as the processor does, and a page that is not present (or
  not writable) is a fault, since a page fault inside the kernel is fatal.
\<close>

unbundle bit_operations_syntax

section \<open>Definitions\<close>

subsection \<open>User memory\<close>

definition translate :: "bmem \<Rightarrow> u32 \<Rightarrow> u32 \<Rightarrow> bool \<Rightarrow> nat option" where
  "translate m pgdir va wr =
     (let pde = ld32 m (unat (pgdir + 4 * PDX va));
          pte = ld32 m (unat (P2V (PTE_ADDR pde) + 4 * PTX va));
          need = (if wr then PTE_P OR PTE_W else PTE_P)
      in if pde AND need = need \<and> pte AND need = need
         then Some (unat (P2V (PTE_ADDR pte)) + unat (va AND 0xFFF)) else None)"

primrec uload :: "u32 \<Rightarrow> nat \<Rightarrow> ('z kmem_state_scheme, u8 list) kop" where
  "uload va 0 = ret []"
| "uload va (Suc n) =
     bnd curproc (\<lambda>p.
     bnd (rd (\<lambda>s. map_option (mem s) (translate (mem s) (p_pgdir (procs s p)) va False))) (\<lambda>b.
     case b of None \<Rightarrow> kerror (Fault ''page fault'')
     | Some c \<Rightarrow> bnd (uload (va + 1) n) (\<lambda>cs. ret (c # cs))))"

primrec ustore :: "u32 \<Rightarrow> u8 list \<Rightarrow> ('z kmem_state_scheme, unit) kop" where
  "ustore va [] = ret ()"
| "ustore va (c # cs) =
     bnd curproc (\<lambda>p.
     bnd (rd (\<lambda>s. translate (mem s) (p_pgdir (procs s p)) va True)) (\<lambda>a.
     case a of None \<Rightarrow> kerror (Fault ''page fault'')
     | Some k \<Rightarrow> thn (upd (\<lambda>s. s\<lparr>mem := (mem s)(k := c)\<rparr>)) (ustore (va + 1) cs)))"

definition kload :: "u32 \<Rightarrow> nat \<Rightarrow> ('z kmem_state_scheme, u8 list) kop" where
  "kload a n = rd (\<lambda>s. map (\<lambda>k. mem s (unat a + k)) [0..<n])"

definition kstore :: "u32 \<Rightarrow> u8 list \<Rightarrow> ('z kmem_state_scheme, unit) kop" where
  "kstore a bs = upd (\<lambda>s. s\<lparr>mem := put_bytes (unat a) bs (mem s)\<rparr>)"

subsection \<open>Creating and removing directory entries\<close>

primrec isdirempty_scan :: "nat \<Rightarrow> nat list \<Rightarrow> ('z con_state_scheme, bool) kop" where
  "isdirempty_scan dp [] = ret True"
| "isdirempty_scan dp (off # offs) =
     bnd (readi dp (of_nat off) 16) (\<lambda>(r, de).
     if r \<noteq> 16 then panic ''isdirempty: readi''
     else if de_inum de \<noteq> 0 then ret False
     else isdirempty_scan dp offs)"

definition isdirempty :: "nat \<Rightarrow> ('z con_state_scheme, bool) kop" where
  "isdirempty dp = bnd (rd_inode dp) (\<lambda>i. isdirempty_scan dp (drop 2 (dir_offs (i_size i))))"

definition dot :: bview where "dot = bv [46]"

definition dotdot :: bview where "dotdot = bv [46, 46]"

definition unlink_bad :: "nat \<Rightarrow> ('z con_state_scheme, int) kop" where
  "unlink_bad dp = thn (iunlockput dp) (thn end_op (ret (- 1)))"

definition unlink_path :: "u8 list \<Rightarrow> ('z con_state_scheme, int) kop" where
  "unlink_path path =
     thn begin_op (
     bnd (nameiparent path) (\<lambda>(dpo, name).
     case dpo of None \<Rightarrow> thn end_op (ret (- 1))
     | Some dp \<Rightarrow>
         thn (ilock (Some dp)) (
         if namecmp name dot = 0 \<or> namecmp name dotdot = 0 then unlink_bad dp
         else
           bnd (dirlookup dp name) (\<lambda>e.
           case e of None \<Rightarrow> unlink_bad dp
           | Some (ip, off) \<Rightarrow>
               thn (ilock (Some ip)) (
               bnd (rd_inode ip) (\<lambda>i.
               if sint (i_nlink i) < 1 then panic ''unlink: nlink < 1''
               else
                 bnd (if i_type i = T_DIR then isdirempty ip else ret True) (\<lambda>empty.
                 if \<not> empty then thn (iunlockput ip) (unlink_bad dp)
                 else
                   bnd (writei dp (of_nat off) (replicate 16 0)) (\<lambda>r.
                   if r \<noteq> 16 then panic ''unlink: writei''
                   else
                     thn (whn (i_type i = T_DIR) (
                       thn (upd_inode dp (\<lambda>d. d\<lparr>i_nlink := i_nlink d - 1\<rparr>))
                       (iupdate dp))) (
                     thn (iunlockput dp) (
                     thn (upd_inode ip (\<lambda>i. i\<lparr>i_nlink := i_nlink i - 1\<rparr>)) (
                     thn (iupdate ip) (
                     thn (iunlockput ip) (
                     thn end_op
                     (ret 0))))))))))))))"

definition create :: "u8 list \<Rightarrow> u16 \<Rightarrow> u16 \<Rightarrow> u16 \<Rightarrow> ('z con_state_scheme, nat option) kop" where
  "create path type major minor =
     bnd (nameiparent path) (\<lambda>(dpo, name).
     case dpo of None \<Rightarrow> ret None
     | Some dp \<Rightarrow>
         thn (ilock (Some dp)) (
         bnd (dirlookup dp name) (\<lambda>e.
         case e of
           Some (ip, _) \<Rightarrow>
             thn (iunlockput dp) (
             thn (ilock (Some ip)) (
             bnd (rd_inode ip) (\<lambda>i.
             if type = T_FILE \<and> i_type i = T_FILE then ret (Some ip)
             else thn (iunlockput ip) (ret None))))
         | None \<Rightarrow>
             bnd (rd_inode dp) (\<lambda>d.
             bnd (ialloc (i_dev d) type) (\<lambda>ip.
             thn (ilock (Some ip)) (
             thn (upd_inode ip (\<lambda>i. i\<lparr>i_major := major, i_minor := minor, i_nlink := 1\<rparr>)) (
             thn (iupdate ip) (
             bnd (rd_inode ip) (\<lambda>i.
             thn (whn (type = T_DIR) (
               thn (upd_inode dp (\<lambda>d. d\<lparr>i_nlink := i_nlink d + 1\<rparr>)) (
               thn (iupdate dp) (
               bnd (dirlink ip dot (i_inum i)) (\<lambda>r1.
               if r1 < 0 then panic ''create dots''
               else
                 bnd (dirlink ip dotdot (i_inum d)) (\<lambda>r2.
                 whn (r2 < 0) (panic ''create dots''))))))) (
             bnd (dirlink dp name (i_inum i)) (\<lambda>r.
             if r < 0 then panic ''create: dirlink''
             else
               thn (iunlockput dp)
               (ret (Some ip)))))))))))))"

subsection \<open>Swap files\<close>

abbreviation "NSWAP \<equiv> MAX_TOTAL_PAGES - MAX_PYSC_PAGES"

text \<open>The path \<open>/.swap<pid>\<close> in a buffer of DIGITS = 14 bytes; more digits than fit is a fault.\<close>

definition swap_path :: "int \<Rightarrow> ('z con_state_scheme, u8 list) kop" where
  "swap_path pid = (case itoa pid (\<lambda>_. 0) of Inl e \<Rightarrow> kerror e
     | Inr b \<Rightarrow> (case strlen b of None \<Rightarrow> kerror (Fault ''strlen'')
        | Some n \<Rightarrow> if 6 + n + 1 > 14 then kerror (Fault ''path[DIGITS]'')
            else ret (map of_char ''/.swap'' @ map b [0..<n])))"

definition removeSwapFile :: "nat \<Rightarrow> ('z file_state_scheme, int) kop" where
  "removeSwapFile p =
     bnd (rd (\<lambda>s. procs s p)) (\<lambda>q.
     bnd (swap_path (p_pid q)) (\<lambda>path.
     case p_swapFile q of None \<Rightarrow> ret (- 1)
     | Some f \<Rightarrow>
         thn (fileclose f)
         (unlink_path path)))"

definition createSwapFile :: "nat \<Rightarrow> ('z file_state_scheme, int) kop" where
  "createSwapFile p =
     bnd (rd (\<lambda>s. procs s p)) (\<lambda>q.
     bnd (swap_path (p_pid q)) (\<lambda>path.
     thn begin_op (
     bnd (create path T_FILE 0 0) (\<lambda>ino.
     thn (iunlock ino) (
     bnd filealloc (\<lambda>fo.
     thn (upd_proc p (\<lambda>q. q\<lparr>p_swapFile := fo\<rparr>)) (
     case fo of None \<Rightarrow> panic ''no slot for files on /store''
     | Some f \<Rightarrow>
         thn (upd_file f (\<lambda>x. x\<lparr>f_ip := ino, f_type := FD_INODE, f_off := 0, f_readable := 1, f_writable := 2\<rparr>)) (
         thn end_op
         (ret 0)))))))))"

definition swap_file :: "nat \<Rightarrow> ('z file_state_scheme, nat) kop" where
  "swap_file p = bnd (rd (\<lambda>s. p_swapFile (procs s p))) (\<lambda>f. case f of None \<Rightarrow> kerror (Fault ''swapFile'') | Some k \<Rightarrow> ret k)"

definition writeToSwapFile :: "nat \<Rightarrow> u8 list \<Rightarrow> u32 \<Rightarrow> ('z file_state_scheme, int) kop" where
  "writeToSwapFile p bs placeOnFile =
     bnd (swap_file p) (\<lambda>f.
     thn (upd_file f (\<lambda>x. x\<lparr>f_off := placeOnFile\<rparr>))
     (filewrite f bs))"

definition readFromSwapFile :: "nat \<Rightarrow> u32 \<Rightarrow> int \<Rightarrow> ('z file_state_scheme, int \<times> u8 list) kop" where
  "readFromSwapFile p placeOnFile n =
     bnd (swap_file p) (\<lambda>f.
     thn (upd_file f (\<lambda>x. x\<lparr>f_off := placeOnFile\<rparr>))
     (fileread f n))"

primrec copy_swap_pages :: "nat \<Rightarrow> nat list \<Rightarrow> ('z file_state_scheme, int) kop" where
  "copy_swap_pages np [] = ret 0"
| "copy_swap_pages np (i # is) =
     bnd curproc (\<lambda>p.
     bnd (rd (\<lambda>s. pm_used (p_swap (procs s p) i))) (\<lambda>used.
     if \<not> used then copy_swap_pages np is
     else
       bnd (readFromSwapFile p (of_nat (PGSIZE * i)) (int PGSIZE)) (\<lambda>(r, bs).
       if r \<noteq> int PGSIZE then ret (- 1)
       else
         bnd (writeToSwapFile np bs (of_nat (PGSIZE * i))) (\<lambda>w.
         if w \<noteq> int PGSIZE then ret (- 1)
         else copy_swap_pages np is))))"

definition copyParentSwapFile :: "nat \<Rightarrow> ('z file_state_scheme, int) kop" where
  "copyParentSwapFile np =
     bnd curproc (\<lambda>p.
     bnd (rd (\<lambda>s. p_pid (procs s p))) (\<lambda>pid.
     if pid > 2 then copy_swap_pages np [0..<NSWAP] else ret (- 1)))"

definition get_swap_idx :: "('z ptab_state_scheme, nat option) kop" where
  "get_swap_idx = bnd curproc (\<lambda>p. rd (\<lambda>s. first_idx (\<lambda>i. \<not> pm_used (p_swap (procs s p) i)) NSWAP))"

definition swap_out_entry :: "nat \<Rightarrow> u32 \<Rightarrow> u32 \<Rightarrow> proc \<Rightarrow> proc" where
  "swap_out_entry idx pgdir p_va q =
     q\<lparr>p_swap := (p_swap q)(idx := \<lparr>pm_used = True, pm_pgdir = pgdir, pm_va = p_va, pm_place = 0\<rparr>)\<rparr>"

definition write2file :: "u32 \<Rightarrow> u32 \<Rightarrow> ('z file_state_scheme, int) kop" where
  "write2file p_va pgdir =
     bnd get_swap_idx (\<lambda>io.
     case io of None \<Rightarrow> ret (- 1)
     | Some idx \<Rightarrow>
         bnd curproc (\<lambda>p.
         bnd (uload p_va PGSIZE) (\<lambda>bs.
         bnd (writeToSwapFile p bs (of_nat (PGSIZE * idx))) (\<lambda>success.
         if success < 0 then ret (- 1)
         else
           thn (upd_proc p (swap_out_entry idx pgdir p_va))
           (ret success)))))"

definition swap_match :: "nat \<Rightarrow> u32 \<Rightarrow> ('z ptab_state_scheme, nat option) kop" where
  "swap_match p p_va = rd (\<lambda>s. first_idx (\<lambda>i. pm_va (p_swap (procs s p) i) = p_va) NSWAP)"

definition swap_in_entry :: "nat \<Rightarrow> nat \<Rightarrow> proc \<Rightarrow> proc" where
  "swap_in_entry ram_idx i q =
     q\<lparr>p_ram := (p_ram q)(ram_idx := (p_swap q i)\<lparr>pm_place := p_last_in_queue q + 1\<rparr>),
       p_swap := (p_swap q)(i := (p_swap q i)\<lparr>pm_used := False\<rparr>),
       p_last_in_queue := p_last_in_queue q + 1\<rparr>"

text \<open>The bytes read go to user memory at \<open>p_va\<close> or to a kernel buffer: \<open>store\<close> puts them there.\<close>

definition read_page_from_disk ::
  "nat \<Rightarrow> nat \<Rightarrow> u32 \<Rightarrow> (u8 list \<Rightarrow> ('z file_state_scheme, unit) kop) \<Rightarrow> ('z file_state_scheme, int) kop" where
  "read_page_from_disk p ram_idx p_va store =
     bnd (swap_match p p_va) (\<lambda>io.
     case io of None \<Rightarrow> ret (- 1)
     | Some i \<Rightarrow>
         bnd (readFromSwapFile p (of_nat (i * PGSIZE)) (int PGSIZE)) (\<lambda>(r, bs).
         thn (store bs) (
         if r < 0 then ret (- 1)
         else
           thn (upd_proc p (swap_in_entry ram_idx i))
           (ret 1))))"

subsection \<open>Moving pages\<close>

definition swap :: "u32 \<Rightarrow> u32 \<Rightarrow> ('z file_state_scheme, unit) kop" where
  "swap pgdir p_va =
     bnd curproc (\<lambda>p.
     thn (upd_proc p (\<lambda>q. q\<lparr>p_pages_in_file := p_pages_in_file q + 1\<rparr>)) (
     bnd replace_page_by_policy (\<lambda>k.
     bnd (rd (\<lambda>s. p_ram (procs s p) k)) (\<lambda>old.
     bnd (walkpgdir (pm_pgdir old) (pm_va old) False) (\<lambda>pte.
     bnd (ldw pte) (\<lambda>e.
     thn (write2file (pm_va old) (pm_pgdir old)) (
     thn (kfree (P2V (PTE_ADDR e))) (
     thn (upd_proc p (\<lambda>q. q\<lparr>p_ram := (p_ram q)(k := (p_ram q k)\<lparr>pm_used := False\<rparr>)\<rparr>)) (
     thn (page_out (pm_va old) (pm_pgdir old))
     (add2ram pgdir p_va))))))))))"

text \<open>At most \<open>2 ^ 20\<close> pages fit below the loop's limit, which bounds it.\<close>

primrec allocuvm_loop :: "nat \<Rightarrow> u32 \<Rightarrow> u32 \<Rightarrow> u32 \<Rightarrow> u32 \<Rightarrow> int \<Rightarrow> ('z file_state_scheme, u32) kop" where
  "allocuvm_loop 0 pgdir oldsz newsz a i = kerror NoFuel"
| "allocuvm_loop (Suc fuel) pgdir oldsz newsz a i =
     (if \<not> a < newsz then ret newsz
      else
        bnd kalloc (\<lambda>m.
        if m = 0 then
          thn (cprintf (Some (map of_char ''allocuvm out of memory'' @ [10])) []) (
          thn (deallocuvm pgdir newsz oldsz)
          (ret 0))
        else
          thn (zero_page m) (
          thn (mappages pgdir a 4096 (V2P m) (PTE_W OR PTE_U)) (
          bnd curproc (\<lambda>p.
          bnd (rd (\<lambda>s. p_pid (procs s p))) (\<lambda>pid.
          bnd select_NONE (\<lambda>none.
          thn (whn (pid > 2 \<and> \<not> none) (
            if int (unat (PGROUNDUP oldsz) div PGSIZE) + (i + 1) \<le> int MAX_PYSC_PAGES
            then add2ram pgdir a
            else swap pgdir a))
          (allocuvm_loop fuel pgdir oldsz newsz (a + 4096) (i + 1)))))))))"

definition allocuvm :: "u32 \<Rightarrow> u32 \<Rightarrow> u32 \<Rightarrow> ('z file_state_scheme, u32) kop" where
  "allocuvm pgdir oldsz newsz =
     (if newsz \<ge> 0x80000000 then ret 0
      else if newsz < oldsz then ret oldsz
      else allocuvm_loop 0x100001 pgdir oldsz newsz (PGROUNDUP oldsz) 0)"

primrec loaduvm_loop :: "nat \<Rightarrow> u32 \<Rightarrow> u32 \<Rightarrow> nat \<Rightarrow> u32 \<Rightarrow> u32 \<Rightarrow> u32 \<Rightarrow> ('z file_state_scheme, int) kop" where
  "loaduvm_loop 0 pgdir addr ip offset sz i = kerror NoFuel"
| "loaduvm_loop (Suc fuel) pgdir addr ip offset sz i =
     (if \<not> i < sz then ret 0
      else
        bnd (walkpgdir pgdir (addr + i) False) (\<lambda>pte.
        if pte = 0 then panic ''loaduvm: address should exist''
        else
          bnd (ldw pte) (\<lambda>e.
          let n = (if sz - i < 4096 then sz - i else 4096) in
          bnd (readi ip (offset + i) n) (\<lambda>(r, bs).
          thn (kstore (P2V (PTE_ADDR e)) bs) (
          if r \<noteq> int (unat n) then ret (- 1)
          else loaduvm_loop fuel pgdir addr ip offset sz (i + 4096))))))"

definition loaduvm :: "u32 \<Rightarrow> u32 \<Rightarrow> nat \<Rightarrow> u32 \<Rightarrow> u32 \<Rightarrow> ('z file_state_scheme, int) kop" where
  "loaduvm pgdir addr ip offset sz =
     (if addr mod 4096 \<noteq> 0 then panic ''loaduvm: addr must be page aligned''
      else loaduvm_loop 0x100001 pgdir addr ip offset sz 0)"

text \<open>The static buffer \<open>buff\<close> keeps its contents from one page fault to the next.\<close>

record swap_state = file_state +
  sw_buff :: bview

definition page_from_disk :: "u32 \<Rightarrow> ('z swap_state_scheme, int) kop" where
  "page_from_disk va =
     bnd curproc (\<lambda>p.
     thn (upd_proc p (\<lambda>q. q\<lparr>p_pgflt := p_pgflt q + 1\<rparr>)) (
     let p_va = PGROUNDDOWN va in
     bnd kalloc (\<lambda>np.
     thn (zero_page np) (
     bnd get_free_ram_idx (\<lambda>fro.
     bnd (rd (\<lambda>s. p_pgdir (procs s p))) (\<lambda>pgdir.
     case fro of
       Some k \<Rightarrow>
         thn (page_in p_va (V2P np) pgdir) (
         thn (read_page_from_disk p k p_va (ustore p_va))
         (ret 1))
     | None \<Rightarrow>
         thn (upd_proc p (\<lambda>q. q\<lparr>p_pages_in_file := p_pages_in_file q + 1\<rparr>)) (
         bnd replace_page_by_policy (\<lambda>k.
         bnd (rd (\<lambda>s. p_ram (procs s p) k)) (\<lambda>page.
         thn (page_in p_va (V2P np) pgdir) (
         thn (read_page_from_disk p k p_va (\<lambda>bs. upd (\<lambda>s. s\<lparr>sw_buff := put_bytes 0 bs (sw_buff s)\<rparr>))) (
         bnd (walkpgdir (pm_pgdir page) (pm_va page) False) (\<lambda>pte.
         if pte = 0 then ret (- 1)
         else
           bnd (ldw pte) (\<lambda>e.
           bnd (rd (\<lambda>s. map (sw_buff s) [0..<PGSIZE])) (\<lambda>bs.
           thn (kstore np bs) (
           thn (write2file (pm_va page) (pm_pgdir page)) (
           thn (page_out (pm_va page) (pm_pgdir page)) (
           thn (kfree (P2V (PTE_ADDR e)))
           (ret 1))))))))))))))))))"

end
