(* ===== verification/Proc.thy ===== *)
theory Proc
  imports Swap
begin

text \<open>
  The life of a process (\<open>proc.c\<close> outside the scheduler): creation, growth, \<open>fork\<close>,
  \<open>exit\<close>, \<open>wait\<close> and the process listing. \<open>exit\<close> ends in the switch to the scheduler and is
  modelled up to it; waiting for a child is the outcome \<open>Waits\<close>. The addresses the linker fixes (the
  code address \<open>forkret\<close>) and the embedded first program are fields of the state.
\<close>

unbundle bit_operations_syntax

section \<open>Definitions\<close>

abbreviation "MAXARG \<equiv> (32 :: nat)"
abbreviation "ELF_MAGIC \<equiv> (0x464C457F :: u32)"
abbreviation "FL_IF \<equiv> (0x200 :: u32)"

record proc_state = swap_state +
  forkret_addr :: u32
  forkret_first :: bool
  initcode :: "u8 list"

definition allocproc :: "('z proc_state_scheme, nat option) kop" where
  "allocproc =
     thn (acquire LPtable) (
     bnd (rd (\<lambda>s. first_idx (\<lambda>i. p_state (procs s i) = UNUSED) NPROC)) (\<lambda>slot.
     case slot of None \<Rightarrow> thn (release LPtable) (ret None)
     | Some p \<Rightarrow>
         thn (upd_proc p (\<lambda>q. q\<lparr>p_state := EMBRYO\<rparr>)) (
         bnd (rd nextpid) (\<lambda>pid.
         thn (upd_proc p (\<lambda>q. q\<lparr>p_pid := pid\<rparr>)) (
         thn (upd (\<lambda>s. s\<lparr>nextpid := pid + 1\<rparr>)) (
         thn (release LPtable) (
         bnd kalloc (\<lambda>ks.
         thn (upd_proc p (\<lambda>q. q\<lparr>p_kstack := ks\<rparr>)) (
         if ks = 0 then
           thn (upd_proc p (\<lambda>q. q\<lparr>p_state := UNUSED\<rparr>))
           (ret None)
         else
           thn (whn (pid > 2) (thn (createSwapFile p) (ret ()))) (
           thn (upd_proc p (\<lambda>q. q\<lparr>p_pages_in_file := 0, p_last_in_queue := 0, p_pgflt := 0\<rparr>)) (
           bnd (rd forkret_addr) (\<lambda>a.
           thn (upd_proc p (\<lambda>q. q\<lparr>p_eip := a\<rparr>))
           (ret (Some p))))))))))))))"

text \<open>\<open>safestrcpy\<close> into the 16 bytes of \<open>p->name\<close> from a buffer.\<close>

definition copy_name :: "bview \<Rightarrow> bview \<Rightarrow> bview" where
  "copy_name src old =
     (let m = safestrcpy 0 100 16 (\<lambda>a. if 100 \<le> a then src (a - 100) else old a)
      in (\<lambda>k. if k < 16 then m k else old k))"

definition userinit :: "('z proc_state_scheme, unit) kop" where
  "userinit =
     bnd allocproc (\<lambda>po.
     thn (upd (\<lambda>s. s\<lparr>initproc := po\<rparr>)) (
     case po of None \<Rightarrow> kerror (Fault ''userinit'')
     | Some p \<Rightarrow>
         bnd setupkvm (\<lambda>d.
         thn (upd_proc p (\<lambda>q. q\<lparr>p_pgdir := d\<rparr>)) (
         if d = 0 then panic ''userinit: out of memory?''
         else
           bnd (rd initcode) (\<lambda>code.
           thn (inituvm d code) (
           thn (upd_proc p (\<lambda>q. q\<lparr>p_sz := 4096,
             p_tf := \<lparr>tf_eax = 0, tf_eip = 0, tf_cs = 0x1B, tf_eflags = FL_IF, tf_esp = 4096, tf_ss = 0x23,
               tf_ds = 0x23, tf_es = 0x23, tf_trapno = 0, tf_err = 0\<rparr>,
             p_name := copy_name (bv (map of_char ''initcode'')) (p_name q)\<rparr>)) (
           bnd (namei [slash]) (\<lambda>cwd.
           thn (upd_proc p (\<lambda>q. q\<lparr>p_cwd := cwd\<rparr>)) (
           thn (acquire LPtable) (
           thn (upd_proc p (\<lambda>q. q\<lparr>p_state := RUNNABLE\<rparr>))
           (release LPtable)))))))))))"

definition growproc :: "int \<Rightarrow> ('z proc_state_scheme, int) kop" where
  "growproc n =
     bnd curproc (\<lambda>p.
     bnd (rd (\<lambda>s. (p_sz (procs s p), p_pgdir (procs s p)))) (\<lambda>(sz, pgdir).
     bnd (if n > 0 then bnd (allocuvm pgdir sz (sz + of_int n)) (\<lambda>r. ret (if r = 0 then None else Some r))
          else if n < 0 then bnd (deallocuvm pgdir sz (sz + of_int n)) (\<lambda>r. ret (if r = 0 then None else Some r))
          else ret (Some sz)) (\<lambda>r.
     case r of None \<Rightarrow> ret (- 1)
     | Some sz' \<Rightarrow>
         thn (upd_proc p (\<lambda>q. q\<lparr>p_sz := sz'\<rparr>)) (
         thn (switchuvm (Some p))
         (ret 0)))))"

definition copy_ram_monitor :: "nat \<Rightarrow> ('z proc_state_scheme, unit) kop" where
  "copy_ram_monitor np =
     bnd curproc (\<lambda>p.
     bnd (rd (\<lambda>s. p_ram (procs s p))) (\<lambda>ram.
     upd_proc np (\<lambda>q. q\<lparr>p_ram := (\<lambda>i. if i < MAX_PYSC_PAGES then (ram i)\<lparr>pm_pgdir := p_pgdir q\<rparr> else p_ram q i)\<rparr>)))"

definition copy_swap_monitor :: "nat \<Rightarrow> ('z proc_state_scheme, unit) kop" where
  "copy_swap_monitor np =
     bnd curproc (\<lambda>p.
     bnd (rd (\<lambda>s. p_swap (procs s p))) (\<lambda>sw.
     upd_proc np (\<lambda>q. q\<lparr>p_swap := (\<lambda>i. if i < NSWAP then (sw i)\<lparr>pm_pgdir := p_pgdir q\<rparr> else p_swap q i)\<rparr>)))"

definition fork_ofile :: "nat \<Rightarrow> nat \<Rightarrow> nat \<Rightarrow> ('z proc_state_scheme, unit) kop" where
  "fork_ofile p np i =
     bnd (rd (\<lambda>s. p_ofile (procs s p) i)) (\<lambda>fo.
     case fo of None \<Rightarrow> ret ()
     | Some f \<Rightarrow>
         bnd (filedup f) (\<lambda>g.
         upd_proc np (\<lambda>q. q\<lparr>p_ofile := (p_ofile q)(i := Some g)\<rparr>)))"

definition fork :: "('z proc_state_scheme, int) kop" where
  "fork =
     bnd curproc (\<lambda>p.
     bnd allocproc (\<lambda>npo.
     case npo of None \<Rightarrow> ret (- 1)
     | Some np \<Rightarrow>
         bnd (rd (\<lambda>s. (p_pgdir (procs s p), p_sz (procs s p)))) (\<lambda>(pgdir, sz).
         bnd (copyuvm pgdir sz) (\<lambda>d.
         thn (upd_proc np (\<lambda>q. q\<lparr>p_pgdir := d\<rparr>)) (
         if d = 0 then
           bnd (rd (\<lambda>s. p_kstack (procs s np))) (\<lambda>ks.
           thn (kfree ks) (
           thn (upd_proc np (\<lambda>q. q\<lparr>p_kstack := 0, p_state := UNUSED\<rparr>))
           (ret (- 1))))
         else
           thn (upd_proc np (\<lambda>q. q\<lparr>p_sz := sz\<rparr>)) (
           bnd (rd (\<lambda>s. p_pid (procs s p))) (\<lambda>mypid.
           thn (whn (mypid > 2) (
             bnd (copyParentSwapFile np) (\<lambda>r.
             if r < 0 then panic ''fork: error copying swap file from parent!''
             else
               bnd (rd (\<lambda>s. p_last_in_queue (procs s p))) (\<lambda>l.
               thn (upd_proc np (\<lambda>q. q\<lparr>p_last_in_queue := l\<rparr>)) (
               thn (copy_swap_monitor np)
               (copy_ram_monitor np)))))) (
           bnd (rd (\<lambda>s. procs s p)) (\<lambda>c.
           thn (upd_proc np (\<lambda>q. q\<lparr>p_parent := Some p, p_tf := (p_tf c)\<lparr>tf_eax := 0\<rparr>\<rparr>)) (
           thn (each (fork_ofile p np) [0..<NOFILE]) (
           bnd (case p_cwd c of None \<Rightarrow> kerror (Fault ''cwd'') | Some d \<Rightarrow> idup d) (\<lambda>cwd.
           thn (upd_proc np (\<lambda>q. q\<lparr>p_cwd := Some cwd, p_name := copy_name (p_name c) (p_name q)\<rparr>)) (
           bnd (rd (\<lambda>s. p_pid (procs s np))) (\<lambda>pid.
           thn (upd_proc np (\<lambda>q. q\<lparr>p_pgflt := 0, p_pages_in_file := 0\<rparr>)) (
           thn (acquire LPtable) (
           thn (upd_proc np (\<lambda>q. q\<lparr>p_state := RUNNABLE\<rparr>)) (
           thn (release LPtable)
           (ret pid))))))))))))))))))"

definition exit_ofile :: "nat \<Rightarrow> nat \<Rightarrow> ('z proc_state_scheme, unit) kop" where
  "exit_ofile p fd =
     bnd (rd (\<lambda>s. p_ofile (procs s p) fd)) (\<lambda>fo.
     case fo of None \<Rightarrow> ret ()
     | Some f \<Rightarrow>
         thn (fileclose f)
         (upd_proc p (\<lambda>q. q\<lparr>p_ofile := (p_ofile q)(fd := None)\<rparr>)))"

text \<open>Passing a child to \<open>initproc\<close>. \<close>

definition chan_of :: "nat option \<Rightarrow> chan option" where
  "chan_of po = map_option ChProc po"

definition abandon :: "nat \<Rightarrow> nat \<Rightarrow> ('z proc_state_scheme, unit) kop" where
  "abandon p c =
     bnd (rd (\<lambda>s. (p_parent (procs s c), initproc s))) (\<lambda>(par, ini).
     whn (par = Some p) (
       thn (upd_proc c (\<lambda>q. q\<lparr>p_parent := ini\<rparr>)) (
       bnd (rd (\<lambda>s. p_state (procs s c))) (\<lambda>st.
       whn (st = ZOMBIE) (wakeup1 (chan_of ini))))))"

definition exit_proc :: "('z proc_state_scheme, bool) kop" where
  "exit_proc =
     bnd curproc (\<lambda>p.
     bnd (rd initproc) (\<lambda>ini.
     if ini = Some p then panic ''init exiting''
     else
       thn (each (exit_ofile p) [0..<NOFILE]) (
       bnd (rd (\<lambda>s. p_pid (procs s p))) (\<lambda>pid.
       thn (whn (pid > 2) (
         bnd (removeSwapFile p) (\<lambda>r.
         whn (r \<noteq> 0) (panic ''exit ERROR: swap file wasn't deleted.'')))) (
       thn begin_op (
       bnd (rd (\<lambda>s. p_cwd (procs s p))) (\<lambda>cwd.
       thn (case cwd of None \<Rightarrow> kerror (Fault ''cwd'') | Some d \<Rightarrow> iput d) (
       thn end_op (
       thn (upd_proc p (\<lambda>q. q\<lparr>p_cwd := None\<rparr>)) (
       thn (acquire LPtable) (
       bnd (rd (\<lambda>s. p_parent (procs s p))) (\<lambda>par.
       thn (wakeup1 (chan_of par)) (
       thn (each (abandon p) [0..<NPROC]) (
       thn (upd_proc p (\<lambda>q. q\<lparr>p_state := ZOMBIE\<rparr>))
       sched_enter))))))))))))))"

definition reap :: "nat \<Rightarrow> ('z proc_state_scheme, int) kop" where
  "reap c =
     bnd (rd (\<lambda>s. procs s c)) (\<lambda>q.
     thn (kfree (p_kstack q)) (
     thn (upd_proc c (\<lambda>q. q\<lparr>p_kstack := 0\<rparr>)) (
     thn (freevm (p_pgdir q)) (
     thn (upd_proc c (\<lambda>q. q\<lparr>p_pid := 0, p_parent := None, p_name := (p_name q)(0 := 0), p_killed := False,
       p_state := UNUSED,
       p_swap := (\<lambda>i. if i < NSWAP then (p_swap q i)\<lparr>pm_used := False\<rparr> else p_swap q i),
       p_ram := (\<lambda>i. if i < MAX_PYSC_PAGES then (p_ram q i)\<lparr>pm_used := False\<rparr> else p_ram q i)\<rparr>)) (
     thn (release LPtable)
     (ret (p_pid q)))))))"

definition wait :: "('z proc_state_scheme, int) kop" where
  "wait =
     bnd curproc (\<lambda>p.
     thn (acquire LPtable) (
     bnd (rd (\<lambda>s. first_idx (\<lambda>c. p_parent (procs s c) = Some p \<and> p_state (procs s c) = ZOMBIE) NPROC)) (\<lambda>z.
     case z of Some c \<Rightarrow> reap c
     | None \<Rightarrow>
         bnd (rd (\<lambda>s. (first_idx (\<lambda>c. p_parent (procs s c) = Some p) NPROC \<noteq> None, p_killed (procs s p)))) (\<lambda>(havekids, killed).
         if \<not> havekids \<or> killed then
           thn (release LPtable)
           (ret (- 1))
         else kerror (Waits ''wait'')))))"

text \<open>Where a new process starts: the first one of all reads the superblock and recovers the log.\<close>

definition forkret :: "('z proc_state_scheme, unit) kop" where
  "forkret =
     thn (release LPtable) (
     bnd (rd forkret_first) (\<lambda>first.
     whn first (
       thn (upd (\<lambda>s. s\<lparr>forkret_first := False\<rparr>)) (
       thn (iinit ROOTDEV)
       (initlog ROOTDEV)))))"

subsection \<open>The process listing\<close>

definition state_name :: "procstate \<Rightarrow> string" where
  "state_name st = (case st of UNUSED \<Rightarrow> ''unused'' | EMBRYO \<Rightarrow> ''embryo'' | SLEEPING \<Rightarrow> ''sleep ''
     | RUNNABLE \<Rightarrow> ''runble'' | RUNNING \<Rightarrow> ''run   '' | ZOMBIE \<Rightarrow> ''zombie'')"

definition str :: "string \<Rightarrow> u8 list" where
  "str cs = map of_char cs"

definition name_bytes :: "bview \<Rightarrow> u8 list" where
  "name_bytes n = takeWhile (\<lambda>c. c \<noteq> 0) (map n [0..<16])"

text \<open>
  One line of the listing. The stack trace of a sleeping process is a parameter: the words
  \<open>getcallerpcs\<close> finds on its kernel stack, up to the first zero.
\<close>

definition procdump_line :: "(nat \<Rightarrow> u32 list) \<Rightarrow> nat \<Rightarrow> ('z proc_state_scheme, unit) kop" where
  "procdump_line pcs i =
     bnd (rd (\<lambda>s. procs s i)) (\<lambda>q.
     whn (p_state q \<noteq> UNUSED) (
       thn (cprintf (Some (str ''%d %s'' @ [10])) [AInt (of_int (p_pid q)), AStr (Some (str (state_name (p_state q))))]) (
       let total = unat (PGROUNDUP (p_sz q)) div PGSIZE in
       thn (upd_proc i (\<lambda>q. q\<lparr>p_protected := 0\<rparr>)) (
       thn (cprintf (Some ([10] @ str ''%d %d %d %d %d %s'' @ [10]))
         [AInt (of_nat total), AInt (of_nat (used_swap_pages q)), AInt 0, AInt (of_int (p_pgflt q)),
          AInt (of_int (p_pages_in_file q)), AStr (Some (name_bytes (p_name q)))]) (
       thn (whn (p_state q = SLEEPING) (
         each (\<lambda>pc. cprintf (Some (str '' %p'')) [AInt pc]) (takeWhile (\<lambda>pc. pc \<noteq> 0) (take 10 (pcs i))))) (
       bnd free_pages_in_system (\<lambda>fr.
       thn (cprintf (Some (str ''%d /%d '' @ [10])) [AInt (of_nat fr), AInt (of_nat total)])
       (cprintf (Some [10]) []))))))))"

definition procdump :: "(nat \<Rightarrow> u32 list) \<Rightarrow> ('z proc_state_scheme, unit) kop" where
  "procdump pcs = each (procdump_line pcs) [0..<NPROC]"

end
