(* ===== verification/Exec.thy ===== *)
theory Exec
  imports Proc
begin

text \<open>
  \<open>exec.c\<close>: replacing the memory image of the current process by a program from the file system. The
  ELF header and the program headers are read as bytes and decoded at their offsets; every failure goes
  through \<open>exec_bad\<close>, which frees what has been built so far. The arguments are the strings the system
  call has fetched.
\<close>

unbundle bit_operations_syntax

section \<open>Definitions\<close>

record elfhdr =
  e_magic :: u32
  e_elf :: "u8 list"
  e_type :: u16
  e_machine :: u16
  e_version :: u32
  e_entry :: u32
  e_phoff :: u32
  e_shoff :: u32
  e_flags :: u32
  e_ehsize :: u16
  e_phentsize :: u16
  e_phnum :: u16
  e_shentsize :: u16
  e_shnum :: u16
  e_shstrndx :: u16

record proghdr =
  ph_type :: u32
  ph_off :: u32
  ph_vaddr :: u32
  ph_paddr :: u32
  ph_filesz :: u32
  ph_memsz :: u32
  ph_flags :: u32
  ph_align :: u32

definition elf_of :: "u8 list \<Rightarrow> elfhdr" where
  "elf_of bs = \<lparr>e_magic = ld32 (bv bs) 0, e_elf = map (bv bs) [4..<16], e_type = ld16 (bv bs) 16, e_machine = ld16 (bv bs) 18,
     e_version = ld32 (bv bs) 20, e_entry = ld32 (bv bs) 24, e_phoff = ld32 (bv bs) 28, e_shoff = ld32 (bv bs) 32,
     e_flags = ld32 (bv bs) 36, e_ehsize = ld16 (bv bs) 40, e_phentsize = ld16 (bv bs) 42, e_phnum = ld16 (bv bs) 44,
     e_shentsize = ld16 (bv bs) 46, e_shnum = ld16 (bv bs) 48, e_shstrndx = ld16 (bv bs) 50\<rparr>"

definition ph_of :: "u8 list \<Rightarrow> proghdr" where
  "ph_of bs = \<lparr>ph_type = ld32 (bv bs) 0, ph_off = ld32 (bv bs) 4, ph_vaddr = ld32 (bv bs) 8,
     ph_paddr = ld32 (bv bs) 12, ph_filesz = ld32 (bv bs) 16, ph_memsz = ld32 (bv bs) 20, ph_flags = ld32 (bv bs) 24,
     ph_align = ld32 (bv bs) 28\<rparr>"

definition exec_bad :: "u32 \<Rightarrow> nat option \<Rightarrow> ('z proc_state_scheme, int) kop" where
  "exec_bad pgdir ipo =
     thn (whn (pgdir \<noteq> 0) (freevm pgdir)) (
     thn (case ipo of None \<Rightarrow> ret () | Some ip \<Rightarrow> thn (iunlockput ip) end_op)
     (ret (- 1)))"

text \<open>Loading the segments; the result is the size of the image, or none on the way to \<open>bad\<close>.\<close>

primrec load_segs :: "nat \<Rightarrow> u32 \<Rightarrow> nat \<Rightarrow> u32 \<Rightarrow> u32 \<Rightarrow> ('z proc_state_scheme, u32 option) kop" where
  "load_segs 0 pgdir ip off sz = ret (Some sz)"
| "load_segs (Suc n) pgdir ip off sz =
     bnd (readi ip off 32) (\<lambda>(r, bs).
     let ph = ph_of bs in
     if r \<noteq> 32 then ret None
     else if ph_type ph \<noteq> 1 then load_segs n pgdir ip (off + 32) sz
     else if ph_memsz ph < ph_filesz ph then ret None
     else if ph_vaddr ph + ph_memsz ph < ph_vaddr ph then ret None
     else
       bnd (allocuvm pgdir sz (ph_vaddr ph + ph_memsz ph)) (\<lambda>sz'.
       if sz' = 0 then ret None
       else if ph_vaddr ph mod 4096 \<noteq> 0 then ret None
       else
         bnd (loaduvm pgdir (ph_vaddr ph) ip (ph_off ph) (ph_filesz ph)) (\<lambda>l.
         if l < 0 then ret None
         else load_segs n pgdir ip (off + 32) sz')))"

text \<open>Pushing the argument strings: the new stack pointer and the addresses of the strings.\<close>

fun push_args :: "u32 \<Rightarrow> u8 list list \<Rightarrow> nat \<Rightarrow> u32 \<Rightarrow> ('z proc_state_scheme, (u32 \<times> u32 list) option) kop" where
  "push_args pgdir [] argc sp = ret (Some (sp, []))"
| "push_args pgdir (a # as) argc sp =
     (if argc \<ge> MAXARG then ret None
      else
        let sp = (sp - (of_nat (length a) + 1)) AND NOT 3 in
        bnd (copyout pgdir sp (a @ [0])) (\<lambda>r.
        if r < 0 then ret None
        else
          bnd (push_args pgdir as (Suc argc) sp) (\<lambda>o'.
          ret (map_option (\<lambda>(sp', us). (sp', sp # us)) o'))))"

definition word_bytes :: "u32 \<Rightarrow> u8 list" where
  "word_bytes w = [ucast w, ucast (drop_bit 8 w), ucast (drop_bit 16 w), ucast (drop_bit 24 w)]"

definition ustack :: "u32 \<Rightarrow> u32 list \<Rightarrow> u32 list" where
  "ustack sp us = [0xFFFFFFFF, of_nat (length us), sp - (of_nat (length us) + 1) * 4] @ us @ [0]"

text \<open>Strings, argument vector and the frame of \<open>main\<close>: the new stack pointer, or none on the way to \<open>bad\<close>.\<close>

definition build_stack :: "u32 \<Rightarrow> u8 list list \<Rightarrow> u32 \<Rightarrow> ('z proc_state_scheme, u32 option) kop" where
  "build_stack pgdir argv sz =
     bnd (push_args pgdir argv 0 sz) (\<lambda>spo.
     case spo of None \<Rightarrow> ret None
     | Some (sp1, us) \<Rightarrow>
       let sp = sp1 - (3 + of_nat (length us) + 1) * 4 in
       bnd (copyout pgdir sp (concat (map word_bytes (ustack sp1 us)))) (\<lambda>c.
       if c < 0 then ret None else ret (Some sp)))"

text \<open>The last element of the path, for \<open>p->name\<close>.\<close>

definition last_elem :: "u8 list \<Rightarrow> u8 list" where
  "last_elem path = rev (takeWhile (\<lambda>c. c \<noteq> slash) (rev path))"

definition retarget :: "u32 \<Rightarrow> proc \<Rightarrow> proc" where
  "retarget pgdir q = q\<lparr>
     p_ram := (\<lambda>j. if j < MAX_PYSC_PAGES \<and> pm_used (p_ram q j) then (p_ram q j)\<lparr>pm_pgdir := pgdir\<rparr> else p_ram q j),
     p_swap := (\<lambda>j. if j < NSWAP \<and> pm_used (p_swap q j) then (p_swap q j)\<lparr>pm_pgdir := pgdir\<rparr> else p_swap q j)\<rparr>"

definition exec :: "u8 list \<Rightarrow> u8 list list \<Rightarrow> ('z proc_state_scheme, int) kop" where
  "exec path argv =
     bnd curproc (\<lambda>p.
     thn begin_op (
     bnd (namei path) (\<lambda>ipo.
     case ipo of None \<Rightarrow>
       thn end_op (
       thn (cprintf (Some (str ''exec: fail'' @ [10])) [])
       (ret (- 1)))
     | Some ip \<Rightarrow>
       thn (ilock (Some ip)) (
       bnd (readi ip 0 52) (\<lambda>(r, bs).
       let elf = elf_of bs in
       if r \<noteq> 52 then exec_bad 0 (Some ip)
       else if e_magic elf \<noteq> ELF_MAGIC then exec_bad 0 (Some ip)
       else
         bnd setupkvm (\<lambda>pgdir.
         if pgdir = 0 then exec_bad 0 (Some ip)
         else
           bnd (load_segs (unat (e_phnum elf)) pgdir ip (e_phoff elf) 0) (\<lambda>szo.
           case szo of None \<Rightarrow> exec_bad pgdir (Some ip)
           | Some sz0 \<Rightarrow>
             thn (iunlockput ip) (
             thn end_op (
             bnd (allocuvm pgdir (PGROUNDUP sz0) (PGROUNDUP sz0 + 2 * 4096)) (\<lambda>sz.
             if sz = 0 then exec_bad pgdir None
             else
               thn (clearpteu pgdir (sz - 2 * 4096)) (
               bnd (build_stack pgdir argv sz) (\<lambda>spo.
               case spo of None \<Rightarrow> exec_bad pgdir None
               | Some sp \<Rightarrow>
                   thn (upd_proc p (\<lambda>q. q\<lparr>p_name := copy_name (bv (last_elem path)) (p_name q)\<rparr>)) (
                   thn (upd_proc p (retarget pgdir)) (
                   bnd (rd (\<lambda>s. p_pgdir (procs s p))) (\<lambda>oldpgdir.
                   thn (upd_proc p (\<lambda>q. q\<lparr>p_pgdir := pgdir, p_sz := sz,
                     p_tf := (p_tf q)\<lparr>tf_eip := e_entry elf, tf_esp := sp\<rparr>\<rparr>)) (
                   thn (switchuvm (Some p)) (
                   thn (freevm oldpgdir)
                   (ret 0))))))))))))))))))"

end
