(* ===== verification/Sysproc.thy ===== *)
theory Sysproc
  imports Exec
begin

text \<open>
  System call arguments (the first half of \<open>syscall.c\<close>) and the process system calls (\<open>sysproc.c\<close>).
  A pointer the code checks and then dereferences is read through the page tables of the process
  (\<open>uload\<close>); strings are returned as their bytes. A call returns its value, or leaves by the switch to
  the scheduler that \<open>exit\<close> and \<open>yield\<close> make.
\<close>

unbundle bit_operations_syntax

section \<open>Definitions\<close>

text \<open>Continue with the value a partial operation returns, or take the failure branch.\<close>

definition got :: "('s, 'a option) kop \<Rightarrow> ('s, 'b) kop \<Rightarrow> ('a \<Rightarrow> ('s, 'b) kop) \<Rightarrow> ('s, 'b) kop" where
  "got m d f = bnd m (\<lambda>o'. case o' of None \<Rightarrow> d | Some a \<Rightarrow> f a)"

definition usize :: "('z ptab_state_scheme, u32) kop" where
  "usize = bnd curproc (\<lambda>p. rd (\<lambda>s. p_sz (procs s p)))"

definition fetchint :: "u32 \<Rightarrow> ('z proc_state_scheme, u32 option) kop" where
  "fetchint addr =
     bnd usize (\<lambda>sz.
     if addr \<ge> sz \<or> addr + 4 > sz then ret None
     else bnd (uload addr 4) (\<lambda>bs. ret (Some (ld32 (bv bs) 0))))"

primrec fetchstr_loop :: "nat \<Rightarrow> u32 \<Rightarrow> ('z proc_state_scheme, u8 list option) kop" where
  "fetchstr_loop 0 s = ret None"
| "fetchstr_loop (Suc n) s =
     bnd (uload s 1) (\<lambda>cs.
     if hd cs = 0 then ret (Some [])
     else bnd (fetchstr_loop n (s + 1)) (\<lambda>r. ret (map_option ((#) (hd cs)) r)))"

definition fetchstr :: "u32 \<Rightarrow> ('z proc_state_scheme, u8 list option) kop" where
  "fetchstr addr =
     bnd usize (\<lambda>sz.
     if addr \<ge> sz then ret None
     else fetchstr_loop (unat (sz - addr)) addr)"

definition argint :: "nat \<Rightarrow> ('z proc_state_scheme, u32 option) kop" where
  "argint n =
     bnd curproc (\<lambda>p.
     bnd (rd (\<lambda>s. tf_esp (p_tf (procs s p)))) (\<lambda>esp.
     fetchint (esp + 4 + 4 * of_nat n)))"

definition argptr :: "nat \<Rightarrow> int \<Rightarrow> ('z proc_state_scheme, u32 option) kop" where
  "argptr n len =
     got (argint n) (ret None) (\<lambda>i.
     bnd usize (\<lambda>sz.
     if len < 0 \<or> i \<ge> sz \<or> i + of_int len > sz then ret None
     else ret (Some i)))"

definition argstr :: "nat \<Rightarrow> ('z proc_state_scheme, u8 list option) kop" where
  "argstr n = got (argint n) (ret None) fetchstr"

text \<open>How a system call ends: with a value, in \<open>exit\<close>, or in \<open>yield\<close> (with the saved \<open>intena\<close>).\<close>

datatype sysres = Ret u32 | Exits | Yields bool

definition fails :: "('s, sysres) kop" where
  "fails = ret (Ret (- 1))"

definition reti :: "int \<Rightarrow> ('s, sysres) kop" where
  "reti n = ret (Ret (of_int n))"

definition sys_yield :: "('z proc_state_scheme, sysres) kop" where
  "sys_yield = bnd yield_enter (\<lambda>ie. ret (Yields ie))"

definition sys_fork :: "('z proc_state_scheme, sysres) kop" where
  "sys_fork = bnd fork reti"

definition sys_exit :: "('z proc_state_scheme, sysres) kop" where
  "sys_exit = thn exit_proc (ret Exits)"

definition sys_wait :: "('z proc_state_scheme, sysres) kop" where
  "sys_wait = bnd wait reti"

definition sys_kill :: "('z proc_state_scheme, sysres) kop" where
  "sys_kill = got (argint 0) fails (\<lambda>pid. bnd (kill (sint pid)) reti)"

definition sys_getpid :: "('z proc_state_scheme, sysres) kop" where
  "sys_getpid = bnd curproc (\<lambda>p. bnd (rd (\<lambda>s. p_pid (procs s p))) reti)"

definition sys_sbrk :: "('z proc_state_scheme, sysres) kop" where
  "sys_sbrk =
     got (argint 0) fails (\<lambda>n.
     bnd usize (\<lambda>addr.
     bnd (growproc (sint n)) (\<lambda>r.
     if r < 0 then fails else ret (Ret addr))))"

text \<open>
  One evaluation of the waiting loop of \<open>sys_sleep\<close>, on entry and after every wakeup; the comparison of
  the unsigned tick difference with \<open>n\<close> is an unsigned one.
\<close>

definition sleep_poll :: "u32 \<Rightarrow> u32 \<Rightarrow> ('z proc_state_scheme, sysres) kop" where
  "sleep_poll ticks0 n =
     bnd (rd ticks) (\<lambda>t.
     if t - ticks0 < n then
       bnd curproc (\<lambda>p.
       bnd (rd (\<lambda>s. p_killed (procs s p))) (\<lambda>killed.
       if killed then thn (release LTicks) fails
       else kerror (Waits ''sys_sleep'')))
     else thn (release LTicks) (ret (Ret 0)))"

definition sys_sleep :: "('z proc_state_scheme, sysres) kop" where
  "sys_sleep =
     got (argint 0) fails (\<lambda>n.
     thn (acquire LTicks) (
     bnd (rd ticks) (\<lambda>ticks0. sleep_poll ticks0 n)))"

definition sys_uptime :: "('z proc_state_scheme, sysres) kop" where
  "sys_uptime =
     thn (acquire LTicks) (
     bnd (rd ticks) (\<lambda>xticks.
     thn (release LTicks)
     (ret (Ret xticks))))"

definition sys_update_protected_pages :: "('z proc_state_scheme, sysres) kop" where
  "sys_update_protected_pages =
     got (argint 0) fails (\<lambda>up.
     thn (update_protected_pages (up \<noteq> 0))
     (ret (Ret 0)))"

definition sys_is_flag_on :: "('z proc_state_scheme, sysres) kop" where
  "sys_is_flag_on =
     got (argint 0) fails (\<lambda>va.
     got (argint 1) fails (\<lambda>flag.
     bnd (is_flag_on va flag) (\<lambda>b. ret (Ret (if b then 1 else 0)))))"

definition sys_turn_flag :: "('z proc_state_scheme, sysres) kop" where
  "sys_turn_flag =
     got (argint 0) fails (\<lambda>va.
     got (argint 1) fails (\<lambda>flag.
     got (argint 2) fails (\<lambda>on.
     thn (turn_flag va flag (on \<noteq> 0))
     (ret (Ret 1)))))"

end
