(* ===== verification/Sysfile.thy ===== *)
theory Sysfile
  imports Sysproc
begin

text \<open>
  The file system calls (\<open>sysfile.c\<close>) and the system call table (the second half of \<open>syscall.c\<close>).
  \<open>create\<close>, \<open>isdirempty\<close> and the body of \<open>sys_unlink\<close> are in the theory on swapping, which needs them.
  Data read goes to user memory when the file layer has returned it, data to write is fetched before
  the file layer is called; a user page that is not present is fatal either way.
\<close>

unbundle bit_operations_syntax

section \<open>Definitions\<close>

abbreviation "O_RDONLY \<equiv> (0x000 :: u32)"
abbreviation "O_WRONLY \<equiv> (0x001 :: u32)"
abbreviation "O_RDWR \<equiv> (0x002 :: u32)"
abbreviation "O_CREATE \<equiv> (0x200 :: u32)"

definition argfd :: "nat \<Rightarrow> ('z proc_state_scheme, (nat \<times> nat) option) kop" where
  "argfd n =
     got (argint n) (ret None) (\<lambda>fd.
     bnd curproc (\<lambda>p.
     bnd (rd (\<lambda>s. p_ofile (procs s p))) (\<lambda>ofile.
     if sint fd < 0 \<or> sint fd \<ge> int NOFILE then ret None
     else ret (map_option (Pair (unat fd)) (ofile (unat fd))))))"

definition fdalloc :: "nat \<Rightarrow> ('z proc_state_scheme, nat option) kop" where
  "fdalloc f =
     bnd curproc (\<lambda>p.
     bnd (rd (\<lambda>s. first_idx (\<lambda>fd. p_ofile (procs s p) fd = None) NOFILE)) (\<lambda>slot.
     case slot of None \<Rightarrow> ret None
     | Some fd \<Rightarrow>
         thn (upd_proc p (\<lambda>q. q\<lparr>p_ofile := (p_ofile q)(fd := Some f)\<rparr>))
         (ret (Some fd))))"

definition sys_dup :: "('z proc_state_scheme, sysres) kop" where
  "sys_dup =
     got (argfd 0) fails (\<lambda>(_, f).
     got (fdalloc f) fails (\<lambda>fd.
     thn (filedup f)
     (ret (Ret (of_nat fd)))))"

definition sys_read :: "('z proc_state_scheme, sysres) kop" where
  "sys_read =
     got (argfd 0) fails (\<lambda>(_, f).
     got (argint 2) fails (\<lambda>n.
     got (argptr 1 (sint n)) fails (\<lambda>p.
     bnd (fileread f (sint n)) (\<lambda>(r, bs).
     thn (ustore p bs)
     (reti r)))))"

definition sys_write :: "('z proc_state_scheme, sysres) kop" where
  "sys_write =
     got (argfd 0) fails (\<lambda>(_, f).
     got (argint 2) fails (\<lambda>n.
     got (argptr 1 (sint n)) fails (\<lambda>p.
     bnd (rd_file f) (\<lambda>x.
     if f_writable x = 0 then bnd (filewrite f []) reti
     else
       bnd (uload p (unat n)) (\<lambda>bs.
       bnd (filewrite f bs) reti)))))"

definition sys_close :: "('z proc_state_scheme, sysres) kop" where
  "sys_close =
     got (argfd 0) fails (\<lambda>(fd, f).
     bnd curproc (\<lambda>p.
     thn (upd_proc p (\<lambda>q. q\<lparr>p_ofile := (p_ofile q)(fd := None)\<rparr>)) (
     thn (fileclose f)
     (ret (Ret 0)))))"

definition half_bytes :: "u16 \<Rightarrow> u8 list" where
  "half_bytes w = [ucast w, ucast (drop_bit 8 w)]"

text \<open>\<open>stati\<close> stores the fields at their offsets in the user's \<open>struct stat\<close>, whose padding stays as it was.\<close>

definition put_stat :: "u32 \<Rightarrow> stat \<Rightarrow> ('z proc_state_scheme, unit) kop" where
  "put_stat a st =
     thn (ustore (a + 4) (word_bytes (st_dev st))) (
     thn (ustore (a + 8) (word_bytes (st_ino st))) (
     thn (ustore a (half_bytes (st_type st))) (
     thn (ustore (a + 12) (half_bytes (st_nlink st)))
     (ustore (a + 16) (word_bytes (st_size st))))))"

definition sys_fstat :: "('z proc_state_scheme, sysres) kop" where
  "sys_fstat =
     got (argfd 0) fails (\<lambda>(_, f).
     got (argptr 1 20) fails (\<lambda>a.
     bnd (filestat f) (\<lambda>(r, st).
     thn (case st of None \<Rightarrow> ret () | Some st \<Rightarrow> put_stat a st)
     (reti r))))"

definition link_bad :: "nat \<Rightarrow> ('z proc_state_scheme, sysres) kop" where
  "link_bad ip =
     thn (ilock (Some ip)) (
     thn (upd_inode ip (\<lambda>i. i\<lparr>i_nlink := i_nlink i - 1\<rparr>)) (
     thn (iupdate ip) (
     thn (iunlockput ip) (
     thn end_op
     fails))))"

definition sys_link :: "('z proc_state_scheme, sysres) kop" where
  "sys_link =
     got (argstr 0) fails (\<lambda>old.
     got (argstr 1) fails (\<lambda>new.
     thn begin_op (
     got (namei old) (thn end_op fails) (\<lambda>ip.
     thn (ilock (Some ip)) (
     bnd (rd_inode ip) (\<lambda>i.
     if i_type i = T_DIR then thn (iunlockput ip) (thn end_op fails)
     else
       thn (upd_inode ip (\<lambda>i. i\<lparr>i_nlink := i_nlink i + 1\<rparr>)) (
       thn (iupdate ip) (
       thn (iunlock (Some ip)) (
       bnd (nameiparent new) (\<lambda>(dpo, name).
       case dpo of None \<Rightarrow> link_bad ip
       | Some dp \<Rightarrow>
           thn (ilock (Some dp)) (
           bnd (rd (\<lambda>s. (icache s dp, icache s ip))) (\<lambda>(d, i).
           bnd (if i_dev d \<noteq> i_dev i then ret (- 1) else dirlink dp name (i_inum i)) (\<lambda>r.
           if r < 0 then thn (iunlockput dp) (link_bad ip)
           else
             thn (iunlockput dp) (
             thn (iput ip) (
             thn end_op
             (ret (Ret 0)))))))))))))))))"

definition sys_unlink :: "('z proc_state_scheme, sysres) kop" where
  "sys_unlink = got (argstr 0) fails (\<lambda>path. bnd (unlink_path path) reti)"

text \<open>The inode \<open>sys_open\<close> goes on with, locked; none after the transaction has been closed.\<close>

definition open_inode :: "u8 list \<Rightarrow> u32 \<Rightarrow> ('z proc_state_scheme, nat option) kop" where
  "open_inode path omode =
     (if omode AND O_CREATE \<noteq> 0 then
        got (create path T_FILE 0 0) (thn end_op (ret None)) (\<lambda>ip. ret (Some ip))
      else
        got (namei path) (thn end_op (ret None)) (\<lambda>ip.
        thn (ilock (Some ip)) (
        bnd (rd_inode ip) (\<lambda>i.
        if i_type i = T_DIR \<and> omode \<noteq> O_RDONLY then
          thn (iunlockput ip) (
          thn end_op
          (ret None))
        else ret (Some ip)))))"

definition sys_open :: "('z proc_state_scheme, sysres) kop" where
  "sys_open =
     got (argstr 0) fails (\<lambda>path.
     got (argint 1) fails (\<lambda>omode.
     thn begin_op (
     got (open_inode path omode) fails (\<lambda>ip.
     bnd filealloc (\<lambda>fo.
     bnd (case fo of None \<Rightarrow> ret None | Some f \<Rightarrow> fdalloc f) (\<lambda>fdo.
     case (fo, fdo) of
       (Some f, Some fd) \<Rightarrow>
         thn (iunlock (Some ip)) (
         thn end_op (
         thn (upd_file f (\<lambda>x. x\<lparr>f_type := FD_INODE, f_ip := Some ip, f_off := 0,
           f_readable := (if omode AND O_WRONLY = 0 then 1 else 0),
           f_writable := (if omode AND O_WRONLY \<noteq> 0 \<or> omode AND O_RDWR \<noteq> 0 then 1 else 0)\<rparr>))
         (ret (Ret (of_nat fd)))))
     | _ \<Rightarrow>
         thn (case fo of None \<Rightarrow> ret () | Some f \<Rightarrow> fileclose f) (
         thn (iunlockput ip) (
         thn end_op
         fails))))))))"

definition sys_mkdir :: "('z proc_state_scheme, sysres) kop" where
  "sys_mkdir =
     thn begin_op (
     got (argstr 0) (thn end_op fails) (\<lambda>path.
     got (create path T_DIR 0 0) (thn end_op fails) (\<lambda>ip.
     thn (iunlockput ip) (
     thn end_op
     (ret (Ret 0))))))"

definition sys_mknod :: "('z proc_state_scheme, sysres) kop" where
  "sys_mknod =
     thn begin_op (
     got (argstr 0) (thn end_op fails) (\<lambda>path.
     got (argint 1) (thn end_op fails) (\<lambda>major.
     got (argint 2) (thn end_op fails) (\<lambda>minor.
     got (create path T_DEV (ucast major) (ucast minor)) (thn end_op fails) (\<lambda>ip.
     thn (iunlockput ip) (
     thn end_op
     (ret (Ret 0))))))))"

definition sys_chdir :: "('z proc_state_scheme, sysres) kop" where
  "sys_chdir =
     bnd curproc (\<lambda>p.
     thn begin_op (
     got (argstr 0) (thn end_op fails) (\<lambda>path.
     got (namei path) (thn end_op fails) (\<lambda>ip.
     thn (ilock (Some ip)) (
     bnd (rd_inode ip) (\<lambda>i.
     if i_type i \<noteq> T_DIR then thn (iunlockput ip) (thn end_op fails)
     else
       thn (iunlock (Some ip)) (
       bnd (rd (\<lambda>s. p_cwd (procs s p))) (\<lambda>cwd.
       thn (case cwd of None \<Rightarrow> kerror (Fault ''cwd'') | Some d \<Rightarrow> iput d) (
       thn end_op (
       thn (upd_proc p (\<lambda>q. q\<lparr>p_cwd := Some ip\<rparr>))
       (ret (Ret 0))))))))))))"

text \<open>Collecting the argument vector: at most MAXARG entries, the terminating null among them.\<close>

primrec fetch_argv :: "nat \<Rightarrow> u32 \<Rightarrow> ('z proc_state_scheme, u8 list list option) kop" where
  "fetch_argv 0 a = ret None"
| "fetch_argv (Suc n) a =
     got (fetchint a) (ret None) (\<lambda>uarg.
     if uarg = 0 then ret (Some [])
     else
       got (fetchstr uarg) (ret None) (\<lambda>arg.
       bnd (fetch_argv n (a + 4)) (\<lambda>r. ret (map_option ((#) arg) r))))"

definition sys_exec :: "('z proc_state_scheme, sysres) kop" where
  "sys_exec =
     got (argstr 0) fails (\<lambda>path.
     got (argint 1) fails (\<lambda>uargv.
     got (fetch_argv MAXARG uargv) fails (\<lambda>argv.
     bnd (exec path argv) reti)))"

definition sys_pipe :: "('z proc_state_scheme, sysres) kop" where
  "sys_pipe =
     got (argptr 0 8) fails (\<lambda>fd.
     got pipealloc fails (\<lambda>(rf, wf).
     bnd (fdalloc rf) (\<lambda>fd0.
     bnd (case fd0 of None \<Rightarrow> ret None | Some _ \<Rightarrow> fdalloc wf) (\<lambda>fd1.
     case (fd0, fd1) of
       (Some a, Some b) \<Rightarrow>
         thn (ustore fd (word_bytes (of_nat a))) (
         thn (ustore (fd + 4) (word_bytes (of_nat b)))
         (ret (Ret 0)))
     | _ \<Rightarrow>
         thn (case fd0 of None \<Rightarrow> ret ()
              | Some a \<Rightarrow> bnd curproc (\<lambda>p. upd_proc p (\<lambda>q. q\<lparr>p_ofile := (p_ofile q)(a := None)\<rparr>))) (
         thn (fileclose rf) (
         thn (fileclose wf)
         fails))))))"

subsection \<open>The system call table\<close>

definition syscalls :: "(nat \<times> ('z proc_state_scheme, sysres) kop) list" where
  "syscalls =
     [(1, sys_fork), (2, sys_exit), (3, sys_wait), (4, sys_pipe), (5, sys_read), (6, sys_kill), (7, sys_exec),
      (8, sys_fstat), (9, sys_chdir), (10, sys_dup), (11, sys_getpid), (12, sys_sbrk), (13, sys_sleep),
      (14, sys_uptime), (15, sys_open), (16, sys_write), (17, sys_mknod), (18, sys_unlink), (19, sys_link),
      (20, sys_mkdir), (21, sys_close), (22, sys_yield), (23, sys_turn_flag), (24, sys_is_flag_on),
      (25, sys_update_protected_pages)]"

definition set_eax :: "nat \<Rightarrow> u32 \<Rightarrow> ('z ptab_state_scheme, unit) kop" where
  "set_eax p v = upd_proc p (\<lambda>q. q\<lparr>p_tf := (p_tf q)\<lparr>tf_eax := v\<rparr>\<rparr>)"

definition syscall :: "('z proc_state_scheme, sysres) kop" where
  "syscall =
     bnd curproc (\<lambda>p.
     bnd (rd (\<lambda>s. procs s p)) (\<lambda>q.
     let num = tf_eax (p_tf q) in
     case (if sint num > 0 then map_of syscalls (unat num) else None) of
       Some h \<Rightarrow>
         bnd h (\<lambda>r. case r of
           Ret v \<Rightarrow> thn (set_eax p v) (ret r)
         | _ \<Rightarrow> ret r)
     | None \<Rightarrow>
         thn (cprintf (Some (str ''%d %s: unknown sys call %d'' @ [10]))
           [AInt (of_int (p_pid q)), AStr (Some (name_bytes (p_name q))), AInt num]) (
         thn (set_eax p (- 1))
         (ret (Ret (- 1))))))"

end
