(* ===== verification/Kbd.thy ===== *)
theory Kbd
  imports Sysfile
begin

text \<open>
  The keyboard driver (\<open>kbd.c\<close>, \<open>kbd.h\<close>): scan codes to characters, with the state of the modifier keys
  in \<open>shift\<close>. The tables are those of the header, a position without an initialiser being 0. The two
  ports the driver reads are an argument: no scan code when the status port has no data, else the byte.
\<close>

unbundle bit_operations_syntax

section \<open>Definitions\<close>

abbreviation "SHIFT \<equiv> (1 :: u32)"
abbreviation "CTL \<equiv> (2 :: u32)"
abbreviation "ALT \<equiv> (4 :: u32)"
abbreviation "CAPSLOCK \<equiv> (8 :: u32)"
abbreviation "NUMLOCK \<equiv> (16 :: u32)"
abbreviation "SCROLLLOCK \<equiv> (32 :: u32)"
abbreviation "E0ESC \<equiv> (64 :: u32)"

definition entry :: "(u32 \<times> u32) list \<Rightarrow> u32 \<Rightarrow> u32" where
  "entry t k = (case map_of t k of None \<Rightarrow> 0 | Some v \<Rightarrow> v)"

text \<open>A table with initialisers by position and initialisers with designators, which come later and win.\<close>

definition table :: "u32 list \<Rightarrow> (u32 \<times> u32) list \<Rightarrow> u32 \<Rightarrow> u32" where
  "table xs t k = (case map_of t k of Some v \<Rightarrow> v
     | None \<Rightarrow> if unat k < length xs then xs ! unat k else 0)"

definition shiftcode :: "u32 \<Rightarrow> u32" where
  "shiftcode = entry [(0x1D, CTL), (0x2A, SHIFT), (0x36, SHIFT), (0x38, ALT), (0x9D, CTL), (0xB8, ALT)]"

definition togglecode :: "u32 \<Rightarrow> u32" where
  "togglecode = entry [(0x3A, CAPSLOCK), (0x45, NUMLOCK), (0x46, SCROLLLOCK)]"

definition normalmap :: "u32 \<Rightarrow> u32" where
  "normalmap = table
    [0, 27, 49, 50, 51, 52, 53, 54, 55, 56, 57, 48, 45, 61, 8, 9,
     113, 119, 101, 114, 116, 121, 117, 105, 111, 112, 91, 93, 10, 0, 97, 115,
     100, 102, 103, 104, 106, 107, 108, 59, 39, 96, 0, 92, 122, 120, 99, 118,
     98, 110, 109, 44, 46, 47, 0, 42, 0, 32, 0, 0, 0, 0, 0, 0,
     0, 0, 0, 0, 0, 0, 0, 55, 56, 57, 45, 52, 53, 54, 43, 49,
     50, 51, 48, 46, 0, 0, 0, 0]
    [(0x9C, 10), (0xB5, 47), (0xC8, 0xE2), (0xD0, 0xE3), (0xC9, 0xE6), (0xD1, 0xE7),
     (0xCB, 0xE4), (0xCD, 0xE5), (0x97, 0xE0), (0xCF, 0xE1), (0xD2, 0xE8), (0xD3, 0xE9)]"

definition shiftmap :: "u32 \<Rightarrow> u32" where
  "shiftmap = table
    [0, 27, 33, 64, 35, 36, 37, 94, 38, 42, 40, 41, 95, 43, 8, 9,
     81, 87, 69, 82, 84, 89, 85, 73, 79, 80, 123, 125, 10, 0, 65, 83,
     68, 70, 71, 72, 74, 75, 76, 58, 34, 126, 0, 124, 90, 88, 67, 86,
     66, 78, 77, 60, 62, 63, 0, 42, 0, 32, 0, 0, 0, 0, 0, 0,
     0, 0, 0, 0, 0, 0, 0, 55, 56, 57, 45, 52, 53, 54, 43, 49,
     50, 51, 48, 46, 0, 0, 0, 0]
    [(0x9C, 10), (0xB5, 47), (0xC8, 0xE2), (0xD0, 0xE3), (0xC9, 0xE6), (0xD1, 0xE7),
     (0xCB, 0xE4), (0xCD, 0xE5), (0x97, 0xE0), (0xCF, 0xE1), (0xD2, 0xE8), (0xD3, 0xE9)]"

definition ctlmap :: "u32 \<Rightarrow> u32" where
  "ctlmap = table
    [0, 0, 0, 0, 0, 0, 0, 0, 0, 0, 0, 0, 0, 0, 0, 0,
     17, 23, 5, 18, 20, 25, 21, 9, 15, 16, 0, 0, 13, 0, 1, 19,
     4, 6, 7, 8, 10, 11, 12, 0, 0, 0, 0, 28, 26, 24, 3, 22,
     2, 14, 13, 0, 0, 239, 0, 0]
    [(0x9C, 13), (0xB5, 239), (0xC8, 0xE2), (0xD0, 0xE3), (0xC9, 0xE6), (0xD1, 0xE7),
     (0xCB, 0xE4), (0xCD, 0xE5), (0x97, 0xE0), (0xCF, 0xE1), (0xD2, 0xE8), (0xD3, 0xE9)]"

definition charcode :: "u32 \<Rightarrow> u32 \<Rightarrow> u32" where
  "charcode k = (if k = 0 then normalmap else if k = 1 then shiftmap else ctlmap)"

definition capslock :: "u32 \<Rightarrow> u32" where
  "capslock c = (if 97 \<le> c \<and> c \<le> 122 then c + (65 - 97)
     else if 65 \<le> c \<and> c \<le> 90 then c + (97 - 65) else c)"

text \<open>The result (a character, or -1 without data) and the new modifier state.\<close>

definition kbdgetc :: "u8 option \<Rightarrow> u32 \<Rightarrow> int \<times> u32" where
  "kbdgetc port shift = (case port of None \<Rightarrow> (- 1, shift)
   | Some b \<Rightarrow>
       let data = ucast b :: u32 in
       if data = 0xE0 then (0, shift OR E0ESC)
       else if data AND 0x80 \<noteq> 0 then
         let data = (if shift AND E0ESC \<noteq> 0 then data else data AND 0x7F)
         in (0, shift AND NOT (shiftcode data OR E0ESC))
       else
         let (data, shift) = (if shift AND E0ESC \<noteq> 0 then (data OR 0x80, shift AND NOT E0ESC) else (data, shift));
             shift = shift OR shiftcode data;
             shift = shift XOR togglecode data;
             c = charcode (shift AND (CTL OR SHIFT)) data
         in (uint (if shift AND CAPSLOCK \<noteq> 0 then capslock c else c), shift))"

text \<open>The characters \<open>consoleintr\<close> draws from the driver for a series of scan codes.\<close>

primrec kbd_chars :: "u8 list \<Rightarrow> u32 \<Rightarrow> int list \<times> u32" where
  "kbd_chars [] shift = ([], shift)"
| "kbd_chars (b # bs) shift =
     (let (c, shift) = kbdgetc (Some b) shift; (cs, shift) = kbd_chars bs shift in (c # cs, shift))"

record kbd_state = proc_state +
  kbd_shift :: u32

definition kbdintr :: "('z kbd_state_scheme, unit) kop \<Rightarrow> u8 list \<Rightarrow> ('z kbd_state_scheme, unit) kop" where
  "kbdintr dump codes =
     bnd (rd (\<lambda>s. kbd_chars codes (kbd_shift s))) (\<lambda>(cs, shift).
     thn (upd (\<lambda>s. s\<lparr>kbd_shift := shift\<rparr>))
     (consoleintr dump cs))"

end
