(* ===== verification/Trap.thy ===== *)
theory Trap
  imports Kbd
begin

text \<open>
  Traps and interrupts (\<open>trap.c\<close>) and the serial port's input (\<open>uart.c\<close>). \<open>trap\<close> runs to its return, to the
  end of the process, or to the \<open>yield\<close> of a clock tick or of the yield system call; \<open>trap_leave\<close> is what
  follows that yield. What the hardware supplies is an argument: the faulting address in \<open>cr2\<close>, the scan
  codes the keyboard holds and the bytes the serial port holds. Acknowledging an interrupt
  (\<open>lapiceoi\<close>) changes nothing the kernel reads. The entry points of the interrupt vectors are
  assembled from a generated file and are an argument of \<open>tvinit\<close>.
\<close>

unbundle bit_operations_syntax

section \<open>Definitions\<close>

abbreviation "T_PGFLT \<equiv> (14 :: u32)"
abbreviation "T_SYSCALL \<equiv> (64 :: u32)"
abbreviation "IRQ_TIMER_NO \<equiv> (32 :: u32)"
abbreviation "IRQ_KBD_NO \<equiv> (33 :: u32)"
abbreviation "IRQ_COM1_NO \<equiv> (36 :: u32)"
abbreviation "IRQ_IDE_NO \<equiv> (46 :: u32)"

record gatedesc =
  gd_off :: u32
  gd_cs :: u16
  gd_istrap :: bool
  gd_dpl :: nat

record trap_state = kbd_state +
  idt :: "nat \<Rightarrow> gatedesc"

definition tvinit :: "(nat \<Rightarrow> u32) \<Rightarrow> ('z trap_state_scheme, unit) kop" where
  "tvinit vectors =
     thn (each (\<lambda>i. upd (\<lambda>s. s\<lparr>idt := (idt s)(i := \<lparr>gd_off = vectors i, gd_cs = 8, gd_istrap = False, gd_dpl = 0\<rparr>)\<rparr>)) [0..<256]) (
     thn (upd (\<lambda>s. s\<lparr>idt := (idt s)(64 := \<lparr>gd_off = vectors 64, gd_cs = 8, gd_istrap = True, gd_dpl = 3\<rparr>)\<rparr>))
     (initlock LTicks))"

text \<open>The bytes \<open>consoleintr\<close> draws from the serial port: none without a port.\<close>

definition uartintr :: "('z trap_state_scheme, unit) kop \<Rightarrow> u8 list \<Rightarrow> ('z trap_state_scheme, unit) kop" where
  "uartintr dump bytes = bnd (rd uart) (\<lambda>present. consoleintr dump (if present then map uint bytes else []))"

datatype trapres = Returns | Ends | YieldsIn bool trapframe | YieldsCall bool

definition user_mode :: "trapframe \<Rightarrow> bool" where
  "user_mode tf \<longleftrightarrow> tf_cs tf AND 3 = 3"

definition leave_exit :: "('z trap_state_scheme, trapres) kop" where
  "leave_exit = thn exit_proc (ret Ends)"

definition if_killed :: "nat \<Rightarrow> ('z trap_state_scheme, trapres) kop \<Rightarrow> ('z trap_state_scheme, trapres) kop" where
  "if_killed p m = bnd (rd (\<lambda>s. p_killed (procs s p))) (\<lambda>k. if k then leave_exit else m)"

definition tick :: "('z trap_state_scheme, unit) kop" where
  "tick =
     bnd cpuid (\<lambda>c.
     whn (c = 0) (
       thn (acquire LTicks) (
       thn (upd (\<lambda>s. s\<lparr>ticks := ticks s + 1\<rparr>)) (
       thn (wakeup ChTicks)
       (release LTicks)))))"

definition trap_spurious :: "trapframe \<Rightarrow> ('z trap_state_scheme, unit) kop" where
  "trap_spurious tf =
     bnd cpuid (\<lambda>c.
     cprintf (Some (str ''cpu%d: spurious interrupt at %x:%x'' @ [10])) [AInt (of_nat c), AInt (tf_cs tf), AInt (tf_eip tf)])"

text \<open>A page fault that may be served from the swap file; \<open>True\<close> when it has been.\<close>

definition trap_pgflt :: "u32 \<Rightarrow> trapframe \<Rightarrow> ('z trap_state_scheme, bool) kop" where
  "trap_pgflt va tf =
     bnd myproc (\<lambda>po.
     case po of None \<Rightarrow> ret False
     | Some p \<Rightarrow>
         bnd (rd (\<lambda>s. p_pid (procs s p))) (\<lambda>pid.
         if pid > 2 \<and> user_mode tf then
           bnd (is_flag_on va PTE_PG) (\<lambda>pg.
           if pg then bnd (page_from_disk va) (\<lambda>r. ret (r \<noteq> 0)) else ret False)
         else ret False))"

definition trap_default :: "u32 \<Rightarrow> trapframe \<Rightarrow> ('z trap_state_scheme, trapframe) kop" where
  "trap_default cr2 tf =
     bnd (is_flag_on cr2 PTE_W) (\<lambda>w.
     let tf = (if w then tf else tf\<lparr>tf_trapno := 13\<rparr>) in
     bnd myproc (\<lambda>po.
     if po = None \<or> tf_cs tf AND 3 = 0 then
       bnd cpuid (\<lambda>c.
       thn (cprintf (Some (str ''unexpected trap %d from cpu %d eip %x (cr2=0x%x)'' @ [10]))
         [AInt (tf_trapno tf), AInt (of_nat c), AInt (tf_eip tf), AInt cr2])
       (panic ''trap''))
     else
       bnd (rd (\<lambda>s. procs s (the po))) (\<lambda>q.
       bnd cpuid (\<lambda>c.
       thn (cprintf (Some (str ''pid %d %s: trap %d err %d on cpu %d eip 0x%x addr 0x%x--kill proc'' @ [10]))
         [AInt (of_int (p_pid q)), AStr (Some (name_bytes (p_name q))), AInt (tf_trapno tf), AInt (tf_err tf),
          AInt (of_nat c), AInt (tf_eip tf), AInt cr2]) (
       thn (upd_proc (the po) (\<lambda>q. q\<lparr>p_killed := True\<rparr>))
       (ret tf))))))"

text \<open>The switch on the trap number; its result is the trap frame, whose number the code may change.\<close>

definition trap_switch ::
  "('z trap_state_scheme, unit) kop \<Rightarrow> u8 list \<Rightarrow> u8 list \<Rightarrow> u32 \<Rightarrow> trapframe \<Rightarrow> ('z trap_state_scheme, trapframe) kop" where
  "trap_switch dump codes bytes cr2 tf =
     (let no = tf_trapno tf in
      if no = IRQ_TIMER_NO then thn tick (ret tf)
      else if no = IRQ_IDE_NO then ret tf
      else if no = IRQ_IDE_NO + 1 then ret tf
      else if no = IRQ_KBD_NO then thn (kbdintr dump codes) (ret tf)
      else if no = IRQ_COM1_NO then thn (uartintr dump bytes) (ret tf)
      else if no = 39 \<or> no = 63 then thn (trap_spurious tf) (ret tf)
      else if no = T_PGFLT then bnd (trap_pgflt cr2 tf) (\<lambda>served. if served then ret tf else trap_default cr2 tf)
      else trap_default cr2 tf)"

text \<open>The end of \<open>trap\<close>: the checks for a killed process around the yield of a clock tick.\<close>

definition trap_last :: "trapframe \<Rightarrow> ('z trap_state_scheme, trapres) kop" where
  "trap_last tf =
     bnd myproc (\<lambda>po.
     case po of None \<Rightarrow> ret Returns
     | Some p \<Rightarrow> if user_mode tf then if_killed p (ret Returns) else ret Returns)"

definition trap_tail :: "trapframe \<Rightarrow> ('z trap_state_scheme, trapres) kop" where
  "trap_tail tf =
     bnd myproc (\<lambda>po.
     case po of None \<Rightarrow> ret Returns
     | Some p \<Rightarrow>
         bnd (rd (\<lambda>s. (p_killed (procs s p), p_state (procs s p)))) (\<lambda>(killed, st).
         if killed \<and> user_mode tf then leave_exit
         else if st = RUNNING \<and> tf_trapno tf = IRQ_TIMER_NO then bnd yield_enter (\<lambda>ie. ret (YieldsIn ie tf))
         else trap_last tf))"

definition trap ::
  "('z trap_state_scheme, unit) kop \<Rightarrow> u8 list \<Rightarrow> u8 list \<Rightarrow> u32 \<Rightarrow> trapframe \<Rightarrow> ('z trap_state_scheme, trapres) kop" where
  "trap dump codes bytes cr2 tf =
     (if tf_trapno tf = T_SYSCALL then
        bnd curproc (\<lambda>p.
        if_killed p (
          thn (upd_proc p (\<lambda>q. q\<lparr>p_tf := tf\<rparr>)) (
          bnd syscall (\<lambda>r. case r of
            Exits \<Rightarrow> ret Ends
          | Yields ie \<Rightarrow> ret (YieldsCall ie)
          | Ret _ \<Rightarrow> bnd curproc (\<lambda>p. if_killed p (ret Returns))))))
      else bnd (trap_switch dump codes bytes cr2 tf) trap_tail)"

text \<open>Back from the yield: the rest of a clock interrupt, or of the yield system call.\<close>

definition trap_leave :: "trapres \<Rightarrow> ('z trap_state_scheme, trapres) kop" where
  "trap_leave r = (case r of
     YieldsIn ie tf \<Rightarrow> thn (yield_leave ie) (trap_last tf)
   | YieldsCall ie \<Rightarrow>
       thn (yield_leave ie) (
       bnd curproc (\<lambda>p.
       thn (set_eax p 0)
       (if_killed p (ret Returns))))
   | _ \<Rightarrow> ret r)"

end
