(* ===== verification/Boot.thy ===== *)
theory Boot
  imports Trap
begin

text \<open>
  A concrete state of the whole kernel, for running operations on: one CPU in process 0 (pid 3), nothing
  locked, empty caches, a disk of 1000 blocks with the log at blocks 2 to 31, inodes from 32 on, the bitmap
  at 58.
\<close>

definition zero_inode :: inode where
  "zero_inode = \<lparr>i_dev = 0, i_inum = 0, i_ref = 0, i_valid = False, i_type = 0, i_major = 0, i_minor = 0, i_nlink = 0,
     i_size = 0, i_addrs = (\<lambda>_. 0)\<rparr>"

definition zero_file :: file_rec where
  "zero_file = \<lparr>f_type = FD_NONE, f_ref = 0, f_readable = 0, f_writable = 0, f_pipe = 0, f_ip = None, f_off = 0\<rparr>"

definition zero_pipe :: pipe where
  "zero_pipe = \<lparr>pp_data = (\<lambda>_. 0), pp_nread = 0, pp_nwrite = 0, pp_readopen = True, pp_writeopen = True\<rparr>"

definition zero_gate :: gatedesc where
  "zero_gate = \<lparr>gd_off = 0, gd_cs = 0, gd_istrap = False, gd_dpl = 0\<rparr>"

definition boot_log :: log_state where
  "boot_log = bio_state.extend boot_bio
     \<lparr>lg_start = 2, lg_size = 30, lg_outstanding = 0, lg_committing = False, lg_dev = 1, lh_n = 0, lh_block = (\<lambda>_. 0)\<rparr>"

definition boot_fs :: fs_state where
  "boot_fs = log_state.extend boot_log \<lparr>sb = \<lparr>sb_size = 1000, sb_nblocks = 941, sb_ninodes = 200, sb_nlog = 30,
     sb_logstart = 2, sb_inodestart = 32, sb_bmapstart = 58\<rparr>, icache = (\<lambda>_. zero_inode)\<rparr>"

definition boot_con :: con_state where
  "boot_con = fs_state.extend boot_fs \<lparr>cons_locking = True, panicked = False, crt = (\<lambda>_. 0), crt_pos = 0, uart = True,
     uart_out = [], in_buf = (\<lambda>_. 0), in_r = 0, in_w = 0, in_e = 0, devsw_read = (\<lambda>_. None), devsw_write = (\<lambda>_. None)\<rparr>"

definition boot_file :: file_state where
  "boot_file = con_state.extend boot_con \<lparr>ftable = (\<lambda>_. zero_file), pipes = (\<lambda>_. zero_pipe)\<rparr>"

definition boot_proc :: proc_state where
  "boot_proc = swap_state.extend (file_state.extend boot_file \<lparr>sw_buff = (\<lambda>_. 0)\<rparr>)
     \<lparr>forkret_addr = 0x80103000, forkret_first = False, initcode = []\<rparr>"

definition boot0 :: trap_state where
  "boot0 = kbd_state.extend (proc_state.extend boot_proc \<lparr>kbd_shift = 0\<rparr>) \<lparr>idt = (\<lambda>_. zero_gate)\<rparr>"

lemmas boot_defs = boot0_def boot_proc_def boot_file_def boot_con_def boot_fs_def boot_log_def boot_bio_def
  boot_kmem_def boot_ptab_def
  ptab_state.defs kmem_state.defs vm_state.defs bio_state.defs log_state.defs fs_state.defs con_state.defs
  file_state.defs swap_state.defs proc_state.defs kbd_state.defs

lemma boot0_sel [simp]:
  "mach boot0 = boot_mach" "procs boot0 = (\<lambda>_. zero_proc)(0 := run_proc)" "pipes boot0 = (\<lambda>_. zero_pipe)"
  "ftable boot0 = (\<lambda>_. zero_file)" "in_r boot0 = 0" "in_w boot0 = 0" "in_e boot0 = 0" "crt_pos boot0 = 0"
  "panicked boot0 = False" "ticks boot0 = 0" "icache boot0 = (\<lambda>_. zero_inode)" "uart boot0 = True"
  "cons_locking boot0 = True" "uart_out boot0 = []" "kbd_shift boot0 = 0" "in_buf boot0 = (\<lambda>_. 0)"
  "bufs boot0 = (\<lambda>_. zero_buf)" "lru boot0 = rev [0..<NBUF]" "disksize boot0 = 1000" "wlog boot0 = []"
  "disk boot0 = (\<lambda>b _. of_nat b)" "lg_start boot0 = 2" "lg_size boot0 = 30" "lg_dev boot0 = 1" "lh_n boot0 = 0"
  "lg_outstanding boot0 = 0" "slocks boot0 = (\<lambda>_. \<lparr>sl_locked = False, sl_pid = 0\<rparr>)" "mem boot0 = (\<lambda>_. 0)"
  "sb boot0 = \<lparr>sb_size = 1000, sb_nblocks = 941, sb_ninodes = 200, sb_nlog = 30, sb_logstart = 2, sb_inodestart = 32, sb_bmapstart = 58\<rparr>"
  by (simp_all add: boot_defs)

end
