(* ===== verification/Ring.thy ===== *)
theory Ring
  imports Prelude
begin

text \<open>
  Ring buffers with free-running 32-bit counters, as pipes and the console's input line use them: an
  element lies at its counter modulo the size, and the difference of two counters, computed with
  wrap-around, is the number of elements between them. The locale holds what is true of every size that
  divides the range of the counters; the pipe and the console interpret it at their sizes.
\<close>

section \<open>Definitions\<close>

definition ring_view :: "nat \<Rightarrow> (nat \<Rightarrow> 'a) \<Rightarrow> u32 \<Rightarrow> u32 \<Rightarrow> 'a list" where
  "ring_view N d r w = map (\<lambda>k. d ((unat r + k) mod N)) [0..<unat (w - r)]"

section \<open>Counters\<close>

lemma unat_succ_diff: "w + 1 \<noteq> r \<Longrightarrow> unat (w + 1 - r) = Suc (unat (w - r))" for r w :: u32
proof -
  assume "w + 1 \<noteq> r"
  then have "1 + (w - r) \<noteq> 0" by (metis add.commute add_diff_eq eq_iff_diff_eq_0)
  then have "unat (1 + (w - r)) = Suc (unat (w - r))" by (rule unatSuc)
  then show ?thesis by (simp add: algebra_simps)
qed

lemma unat_diff_succ: "r \<noteq> w \<Longrightarrow> unat (w - r) = Suc (unat (w - (r + 1)))" for r w :: u32
proof -
  assume "r \<noteq> w"
  then have "1 + (w - (r + 1)) \<noteq> 0" by simp
  then have "unat (1 + (w - (r + 1))) = Suc (unat (w - (r + 1)))" by (rule unatSuc)
  then show ?thesis by simp
qed

lemma unat_diff_zero: "unat (w - r) = 0 \<longleftrightarrow> w = r" for r w :: u32
  by (simp add: unat_eq_0)

lemma unat_diff_add:
  fixes r w e :: u32
  assumes "unat (w - r) \<le> unat (e - r)"
  shows "unat (e - r) = unat (w - r) + unat (e - w)"
proof -
  have "w - r \<le> e - r" using assms by (simp add: word_le_nat_alt)
  moreover have "e - r - (w - r) = e - w" by simp
  ultimately have "unat (e - w) = unat (e - r) - unat (w - r)" by (metis unat_sub)
  then show ?thesis using assms by linarith
qed

locale ring =
  fixes N :: nat
  assumes N_pos: "0 < N" and N_dvd: "N dvd 2 ^ 32" and N_lt: "N < 2 ^ 32"
begin

lemma succ_mod: "unat (r + 1) mod N = (unat r + 1) mod N" for r :: u32
proof -
  have "unat (r + 1) = (unat r + 1) mod 2 ^ 32" by (simp add: unat_word_ariths)
  then show ?thesis using N_dvd by (simp add: mod_mod_cancel)
qed

lemma length_view: "length (ring_view N d r w) = unat (w - r)"
  by (simp add: ring_view_def)

lemma view_empty [simp]: "ring_view N d r r = []"
  by (simp add: ring_view_def)

lemma view_Nil_iff: "ring_view N d r w = [] \<longleftrightarrow> w = r"
  using length_view [of d r w] by (metis length_0_conv unat_diff_zero)

lemma view_pop: assumes "r \<noteq> w"
  shows "ring_view N d r w = d (unat r mod N) # ring_view N d (r + 1) w"
proof -
  have u: "[0..<unat (w - r)] = 0 # map Suc [0..<unat (w - (r + 1))]"
    using unat_diff_succ [OF assms] by (simp add: map_Suc_upt upt_conv_Cons)
  have "(unat r + Suc k) mod N = (unat (r + 1) + k) mod N" for k
    using succ_mod [of r] by (metis add.assoc mod_add_left_eq plus_1_eq_Suc)
  then show ?thesis unfolding ring_view_def u by (simp add: comp_def)
qed

lemma inj_below: assumes "k < n" "n < N" shows "(a + k) mod N \<noteq> (a + n) mod N"
proof
  assume e: "(a + k) mod N = (a + n) mod N"
  have "a + k \<le> a + n" using assms by simp
  with e have "N dvd (a + n) - (a + k)" using mod_eq_dvd_iff_nat by metis
  then show False using assms by (auto dest: dvd_imp_le)
qed

lemma end_index: "(unat r + unat (w - r)) mod N = unat w mod N" for r w :: u32
proof -
  have "unat w = unat (r + (w - r))" by simp
  also have "\<dots> = (unat r + unat (w - r)) mod 2 ^ 32" by (simp only: unat_word_ariths) simp
  finally show ?thesis using N_dvd by (simp add: mod_mod_cancel)
qed

lemma view_push: assumes "unat (w - r) < N"
  shows "ring_view N (d(unat w mod N := c)) r (w + 1) = ring_view N d r w @ [c]"
proof -
  have "w + 1 \<noteq> r"
  proof
    assume "w + 1 = r"
    then have "w - r = - 1" by (simp add: algebra_simps)
    moreover have "unat (- 1 :: u32) = 2 ^ 32 - 1" by (simp add: unsigned_minus_1_eq_mask mask_eq_exp_minus_1)
    ultimately show False using assms N_lt by simp
  qed
  then have u: "unat (w + 1 - r) = Suc (unat (w - r))" by (rule unat_succ_diff)
  have "(unat r + k) mod N \<noteq> unat w mod N" if "k < unat (w - r)" for k
    using inj_below [OF that assms] end_index by metis
  then show ?thesis unfolding ring_view_def u by (simp add: end_index)
qed

lemma view_drop_last: assumes "w \<noteq> r" shows "ring_view N d r (w - 1) = butlast (ring_view N d r w)"
proof -
  have "unat (w - r) = Suc (unat (w - 1 - r))" using unat_succ_diff [of "w - 1" r] assms by simp
  then show ?thesis by (simp add: ring_view_def butlast_append)
qed

lemma view_last: assumes "w \<noteq> r" shows "last (ring_view N d r w) = d (unat (w - 1) mod N)"
proof -
  have u: "unat (w - r) = Suc (unat (w - 1 - r))" using unat_succ_diff [of "w - 1" r] assms by simp
  show ?thesis unfolding ring_view_def u using end_index [of r "w - 1"] by simp
qed

lemma full_iff: "w = r + of_nat N \<longleftrightarrow> unat (w - r) = N" for r w :: u32
proof -
  have "w = r + of_nat N \<longleftrightarrow> w - r = of_nat N" by (auto simp: algebra_simps)
  also have "\<dots> \<longleftrightarrow> unat (w - r) = N"
    using N_lt by (auto simp: unat_of_nat)
  finally show ?thesis .
qed

lemma view_split: assumes "unat (w - r) \<le> unat (e - r)"
  shows "ring_view N d r e = ring_view N d r w @ ring_view N d w e"
proof -
  note e = unat_diff_add [OF assms]
  have "(unat r + (unat (w - r) + k)) mod N = (unat w + k) mod N" for k
  proof -
    have "(unat r + (unat (w - r) + k)) mod N = ((unat r + unat (w - r)) mod N + k) mod N"
      unfolding mod_add_left_eq add.assoc ..
    then show ?thesis unfolding end_index mod_add_left_eq .
  qed
  moreover have "[0..<unat (e - r)] = [0..<unat (w - r)] @ map (\<lambda>k. unat (w - r) + k) [0..<unat (e - w)]"
    using upt_add_eq_append [of 0 "unat (w - r)" "unat (e - w)"] map_add_upt [of "unat (w - r)" "unat (e - w)"]
    by (simp add: e add.commute)
  ultimately show ?thesis unfolding ring_view_def by (simp add: comp_def)
qed

end

end
