(* ===== verification/Pipe_Spec.thy ===== *)
theory Pipe_Spec
  imports Boot Ring
begin

text \<open>
  Pipes are queues: the ring buffer of \<open>pipe.c\<close> refines a list of at most PIPESIZE bytes, and a writer and
  a reader that sleep and wake each other up as the code does always transfer everything.
\<close>

section \<open>Definitions\<close>

definition pipe_q :: "pipe \<Rightarrow> u8 list" where
  "pipe_q x = ring_view PIPESIZE (pp_data x) (pp_nread x) (pp_nwrite x)"

definition pipe_ok :: "pipe \<Rightarrow> bool" where
  "pipe_ok x \<longleftrightarrow> length (pipe_q x) \<le> PIPESIZE"

text \<open>
  What the two loops do to the structure: the writer's loop until the buffer is full (the bytes that are
  left and the pipe), and the reader's loop (the bytes and the pipe).
\<close>

primrec pipe_fill :: "u8 list \<Rightarrow> pipe \<Rightarrow> u8 list \<times> pipe" where
  "pipe_fill [] x = ([], x)"
| "pipe_fill (c # cs) x =
     (if pp_nwrite x = pp_nread x + of_nat PIPESIZE then (c # cs, x) else pipe_fill cs (pipe_put c x))"

primrec pipe_take :: "nat \<Rightarrow> pipe \<Rightarrow> u8 list \<times> pipe" where
  "pipe_take 0 x = ([], x)"
| "pipe_take (Suc n) x =
     (if pp_nread x = pp_nwrite x then ([], x)
      else let (cs, y) = pipe_take n (x\<lparr>pp_nread := pp_nread x + 1\<rparr>)
           in (pp_data x (unat (pp_nread x) mod PIPESIZE) # cs, y))"

text \<open>
  A writer that writes a buffer and closes its end, and a reader that reads until the end of the file.
  Every step is one critical section of \<open>p->lock\<close>: from acquiring it, or waking up with it, to releasing
  it, by returning or in \<open>sleep\<close>.
\<close>

datatype writer = WAwake | WAsleep | WDone | WClosed

datatype reader = RAwake | RAsleep | REof

record pipe_sys =
  ps_pipe :: pipe
  ps_in :: "u8 list"
  ps_out :: "u8 list"
  ps_w :: writer
  ps_r :: reader

definition wake_reader :: "reader \<Rightarrow> reader" where
  "wake_reader r = (if r = RAsleep then RAwake else r)"

definition wake_writer :: "writer \<Rightarrow> writer" where
  "wake_writer w = (if w = WAsleep then WAwake else w)"

inductive pipe_step :: "pipe_sys \<Rightarrow> pipe_sys \<Rightarrow> bool" where
  ps_write: "ps_w s = WAwake \<Longrightarrow> pipe_fill (ps_in s) (ps_pipe s) = (cs, x) \<Longrightarrow>
    pipe_step s (s\<lparr>ps_pipe := x, ps_in := cs, ps_w := (if cs = [] then WDone else WAsleep), ps_r := wake_reader (ps_r s)\<rparr>)"
| ps_close: "ps_w s = WDone \<Longrightarrow>
    pipe_step s (s\<lparr>ps_pipe := (ps_pipe s)\<lparr>pp_writeopen := False\<rparr>, ps_w := WClosed, ps_r := wake_reader (ps_r s)\<rparr>)"
| ps_sleep: "ps_r s = RAwake \<Longrightarrow> pp_nread (ps_pipe s) = pp_nwrite (ps_pipe s) \<Longrightarrow> pp_writeopen (ps_pipe s) \<Longrightarrow>
    pipe_step s (s\<lparr>ps_r := RAsleep\<rparr>)"
| ps_read: "ps_r s = RAwake \<Longrightarrow> \<not> (pp_nread (ps_pipe s) = pp_nwrite (ps_pipe s) \<and> pp_writeopen (ps_pipe s)) \<Longrightarrow>
    0 < n \<Longrightarrow> pipe_take n (ps_pipe s) = (cs, x) \<Longrightarrow>
    pipe_step s (s\<lparr>ps_pipe := x, ps_out := ps_out s @ cs, ps_r := (if cs = [] then REof else RAwake), ps_w := wake_writer (ps_w s)\<rparr>)"

definition pipe_start :: "u8 list \<Rightarrow> pipe_sys \<Rightarrow> bool" where
  "pipe_start cs s \<longleftrightarrow> ps_in s = cs \<and> ps_out s = [] \<and> ps_w s = WAwake \<and> ps_r s = RAwake \<and>
     pp_nread (ps_pipe s) = pp_nwrite (ps_pipe s) \<and> pp_readopen (ps_pipe s) \<and> pp_writeopen (ps_pipe s)"

section \<open>The ring buffer as a queue\<close>

interpretation prg: ring "PIPESIZE"
  by unfold_locales (simp_all add: dvd_def)

lemma length_pipe_q: "length (pipe_q x) = unat (pp_nwrite x - pp_nread x)"
  by (simp add: pipe_q_def prg.length_view)

lemma pipe_full: "pp_nwrite x = pp_nread x + 512 \<longleftrightarrow> length (pipe_q x) = PIPESIZE"
  using prg.full_iff [of "pp_nwrite x" "pp_nread x"] by (simp add: length_pipe_q)

lemma pipe_empty: "pp_nread x = pp_nwrite x \<longleftrightarrow> pipe_q x = []"
  using prg.view_Nil_iff [of "pp_data x" "pp_nread x" "pp_nwrite x"] by (auto simp: pipe_q_def)

lemma pipe_q_put: "length (pipe_q x) < PIPESIZE \<Longrightarrow> pipe_q (pipe_put c x) = pipe_q x @ [c]"
  using prg.view_push [of "pp_nwrite x" "pp_nread x" "pp_data x" c]
  by (simp add: length_pipe_q) (simp add: pipe_q_def pipe_put_def)

lemma pipe_q_get:
  "pipe_q x \<noteq> [] \<Longrightarrow> pipe_q x = pp_data x (unat (pp_nread x) mod PIPESIZE) # pipe_q (x\<lparr>pp_nread := pp_nread x + 1\<rparr>)"
  using prg.view_pop [of "pp_nread x" "pp_nwrite x" "pp_data x"] pipe_empty [of x] by (simp add: pipe_q_def)

lemma pipe_put_open [simp]: "pp_readopen (pipe_put c x) = pp_readopen x" "pp_writeopen (pipe_put c x) = pp_writeopen x"
  by (simp_all add: pipe_put_def)

lemma pipe_fill_spec:
  assumes "pipe_ok x"
  shows "fst (pipe_fill cs x) = drop (PIPESIZE - length (pipe_q x)) cs \<and>
    pipe_q (snd (pipe_fill cs x)) = pipe_q x @ take (PIPESIZE - length (pipe_q x)) cs \<and>
    pp_readopen (snd (pipe_fill cs x)) = pp_readopen x \<and> pp_writeopen (snd (pipe_fill cs x)) = pp_writeopen x"
  using assms
proof (induction cs arbitrary: x)
  case (Cons c cs)
  show ?case
  proof (cases "length (pipe_q x) = PIPESIZE")
    case False
    then have l: "length (pipe_q x) < PIPESIZE" using Cons.prems by (simp add: pipe_ok_def)
    then have "PIPESIZE - length (pipe_q x) = Suc (PIPESIZE - length (pipe_q (pipe_put c x)))" by (simp add: pipe_q_put)
    moreover have "pipe_ok (pipe_put c x)" using l by (simp add: pipe_ok_def pipe_q_put)
    ultimately show ?thesis using Cons.IH [of "pipe_put c x"] l by (simp add: pipe_full pipe_q_put)
  qed (simp add: pipe_full)
qed simp

lemma pipe_take_spec:
  "fst (pipe_take n x) = take n (pipe_q x) \<and> pipe_q (snd (pipe_take n x)) = drop n (pipe_q x) \<and>
   pp_readopen (snd (pipe_take n x)) = pp_readopen x \<and> pp_writeopen (snd (pipe_take n x)) = pp_writeopen x"
proof (induction n arbitrary: x)
  case (Suc n)
  let ?y = "x\<lparr>pp_nread := pp_nread x + 1\<rparr>"
  show ?case
  proof (cases "pipe_q x = []")
    case False
    then obtain h where "pipe_q x = h # pipe_q ?y" "h = pp_data x (unat (pp_nread x) mod PIPESIZE)" using pipe_q_get by blast
    then show ?thesis using Suc [of ?y] False by (simp add: pipe_empty case_prod_beta)
  qed (simp add: pipe_empty)
qed simp

section \<open>The system calls' loops\<close>

definition set_pipe :: "u32 \<Rightarrow> pipe \<Rightarrow> 'z file_state_scheme \<Rightarrow> 'z file_state_scheme" where
  "set_pipe p x s = s\<lparr>pipes := (pipes s)(p := x)\<rparr>"

lemma set_pipe_sel [simp]:
  "mach (set_pipe p x s) = mach s" "procs (set_pipe p x s) = procs s" "pipes (set_pipe p x s) p = x"
  "set_pipe p x (set_pipe p y s) = set_pipe p x s" "set_pipe p (pipes s p) s = s"
  by (simp_all add: set_pipe_def)

lemma upd_pipe_run [simp]: "upd_pipe p g s = Inr ((), set_pipe p (g (pipes s p)) s)"
  by (simp add: upd_pipe_def upd_def set_pipe_def)

lemma rd_pipe_bnd [simp]: "bnd (rd_pipe p) f s = f (pipes s p) s"
  by (simp add: rd_pipe_def)

lemma pipewrite_loop_room:
  "fst (pipe_fill cs (pipes s p)) = [] \<Longrightarrow>
   pipewrite_loop p cs s = Inr (True, set_pipe p (snd (pipe_fill cs (pipes s p))) s)"
proof (induction cs arbitrary: s)
  case (Cons c cs)
  then show ?case using Cons.IH [of "set_pipe p (pipe_put c (pipes s p)) s"] by (simp split: if_splits)
qed (simp add: ret_def)

lemma pipewrite_loop_full:
  assumes "mach_ok (mach s)" "lk_free (mach s) LPtable" "cur_of (mach s) = Some q"
  shows "fst (pipe_fill cs (pipes s p)) \<noteq> [] \<Longrightarrow>
    pipewrite_loop p cs s =
      (if pp_readopen (pipes s p) \<and> \<not> p_killed (procs s q) then Inl (Waits ''pipewrite'')
       else Inr (False, set_pipe p (snd (pipe_fill cs (pipes s p))) s))"
  using assms
proof (induction cs arbitrary: s)
  case (Cons c cs)
  show ?case
  proof (cases "pp_nwrite (pipes s p) = pp_nread (pipes s p) + of_nat PIPESIZE")
    case True
    then show ?thesis using Cons.prems by (simp add: ret_def kerror_def)
  next
    case False
    then show ?thesis using Cons.IH [of "set_pipe p (pipe_put c (pipes s p)) s"] Cons.prems by simp
  qed
qed simp

lemma piperead_loop_run:
  "piperead_loop p n s = Inr (fst (pipe_take n (pipes s p)), set_pipe p (snd (pipe_take n (pipes s p))) s)"
proof (induction n arbitrary: s)
  case (Suc n)
  then show ?case by (simp add: ret_def case_prod_beta)
qed (simp add: ret_def)

lemma set_pipe_mach [simp]:
  "(set_pipe p x s)\<lparr>mach := m\<rparr> = set_pipe p x (s\<lparr>mach := m\<rparr>)" "(set_pipe p x s)\<lparr>procs := f\<rparr> = set_pipe p x (s\<lparr>procs := f\<rparr>)"
  "pipes (s\<lparr>mach := m\<rparr>) = pipes s" "pipes (s\<lparr>procs := f\<rparr>) = pipes s"
  by (simp_all add: set_pipe_def)

lemma pipewrite_run:
  assumes "calm s" "cur_of (mach s) = Some q"
  shows "pipewrite p cs s =
    (let (rest, x) = pipe_fill cs (pipes s p) in
     if rest = [] then Inr (int (length cs), set_pipe p x (s\<lparr>procs := wake_all (Some (ChPipeRead p)) (procs s)\<rparr>))
     else if pp_readopen (pipes s p) \<and> \<not> p_killed (procs s q) then Inl (Waits ''pipewrite'')
     else Inr (- 1, set_pipe p x s))"
proof -
  let ?s = "s\<lparr>mach := hold (LPipe p) (mach s)\<rparr>"
  show ?thesis
  proof (cases "fst (pipe_fill cs (pipes s p)) = []")
    case True
    then have "pipewrite_loop p cs ?s = Inr (True, set_pipe p (snd (pipe_fill cs (pipes s p))) ?s)"
      using pipewrite_loop_room [of cs ?s p] by simp
    then show ?thesis using assms True by (simp add: pipewrite_def ret_def case_prod_beta)
  next
    case False
    then show ?thesis using pipewrite_loop_full [of ?s q cs p] assms
      by (simp add: pipewrite_def ret_def case_prod_beta)
  qed
qed

lemma piperead_run:
  assumes "calm s" "cur_of (mach s) = Some q"
  shows "piperead p n s =
    (if pipe_q (pipes s p) = [] \<and> pp_writeopen (pipes s p)
     then if p_killed (procs s q) then Inr ((- 1, []), s) else Inl (Waits ''piperead'')
     else let (cs, x) = pipe_take (nat n) (pipes s p) in
       Inr ((int (length cs), cs), set_pipe p x (s\<lparr>procs := wake_all (Some (ChPipeWrite p)) (procs s)\<rparr>)))"
  using assms piperead_loop_run [of p "nat n" "s\<lparr>mach := hold (LPipe p) (mach s)\<rparr>"]
  by (simp add: piperead_def pipe_empty ret_def kerror_def case_prod_beta)

text \<open>
  C9: a pipe is a bounded queue. \<open>pipewrite\<close> appends the whole buffer when it fits and wakes the readers;
  when it does not, it fills the pipe and then waits, or returns -1 when no reader is left or the process
  has been killed. \<open>piperead\<close> removes the oldest bytes, as many as are asked for and there are, and wakes the
  writers; it waits on an empty pipe only while a writer is left, and otherwise returns no bytes. The
  counters may wrap around at any time.
\<close>

theorem pipe_fifo:
  assumes "calm s" "cur_of (mach s) = Some q" "pipe_ok (pipes s p)"
  shows "(length (pipe_q (pipes s p)) + length cs \<le> PIPESIZE \<longrightarrow> (\<exists>t. pipewrite p cs s = Inr (int (length cs), t) \<and>
      pipe_q (pipes t p) = pipe_q (pipes s p) @ cs \<and> procs t = wake_all (Some (ChPipeRead p)) (procs s))) \<and>
    (length (pipe_q (pipes s p)) + length cs > PIPESIZE \<longrightarrow>
      (if pp_readopen (pipes s p) \<and> \<not> p_killed (procs s q) then pipewrite p cs s = Inl (Waits ''pipewrite'')
       else \<exists>t. pipewrite p cs s = Inr (- 1, t) \<and> length (pipe_q (pipes t p)) = PIPESIZE)) \<and>
    (pipe_q (pipes s p) = [] \<and> pp_writeopen (pipes s p) \<and> \<not> p_killed (procs s q) \<longrightarrow> piperead p n s = Inl (Waits ''piperead'')) \<and>
    (\<not> (pipe_q (pipes s p) = [] \<and> pp_writeopen (pipes s p)) \<longrightarrow> (\<exists>t. piperead p n s =
        Inr ((int (length (take (nat n) (pipe_q (pipes s p)))), take (nat n) (pipe_q (pipes s p))), t) \<and>
      pipe_q (pipes t p) = drop (nat n) (pipe_q (pipes s p)) \<and> procs t = wake_all (Some (ChPipeWrite p)) (procs s)))"
  using pipe_fill_spec [OF assms(3), of cs] pipe_take_spec [of "nat n" "pipes s p"] assms(3)
  by (auto simp: pipewrite_run [OF assms(1,2)] piperead_run [OF assms(1,2)] case_prod_beta pipe_ok_def)

theorem pipe_fifo_witness:
  "\<exists>t. pipewrite 0x80800000 [104, 105] boot0 = Inr (2, t) \<and> pipe_q (pipes t 0x80800000) = [104, 105]"
  using pipe_fifo [of boot0 0 "0x80800000" "[104, 105]" 0]
  by (auto simp: pipe_ok_def pipe_q_def zero_pipe_def)

section \<open>A writer and a reader\<close>

definition pipe_inv :: "u8 list \<Rightarrow> pipe_sys \<Rightarrow> bool" where
  "pipe_inv cs s \<longleftrightarrow> pipe_ok (ps_pipe s) \<and> ps_out s @ pipe_q (ps_pipe s) @ ps_in s = cs \<and>
     (ps_w s = WAsleep \<longrightarrow> length (pipe_q (ps_pipe s)) = PIPESIZE) \<and>
     (ps_w s \<in> {WDone, WClosed} \<longrightarrow> ps_in s = []) \<and>
     (pp_writeopen (ps_pipe s) \<longleftrightarrow> ps_w s \<noteq> WClosed) \<and>
     (ps_r s = RAsleep \<longrightarrow> pipe_q (ps_pipe s) = [] \<and> ps_w s \<noteq> WClosed) \<and>
     (ps_r s = REof \<longrightarrow> pipe_q (ps_pipe s) = [] \<and> ps_w s = WClosed)"

text \<open>How much is left to do; every step lowers it.\<close>

definition pipe_left :: "pipe_sys \<Rightarrow> nat" where
  "pipe_left s = 3 * length (ps_in s) + 2 * length (pipe_q (ps_pipe s)) +
     (case ps_w s of WAwake \<Rightarrow> 5 | WAsleep \<Rightarrow> 4 | WDone \<Rightarrow> 3 | WClosed \<Rightarrow> 0) +
     (case ps_r s of RAwake \<Rightarrow> 1 | _ \<Rightarrow> 0)"

lemma pipe_q_close [simp]: "pipe_q (x\<lparr>pp_writeopen := b\<rparr>) = pipe_q x"
  by (simp add: pipe_q_def)

lemma wake_cases [simp]:
  "wake_reader r \<noteq> RAsleep" "wake_reader r = REof \<longleftrightarrow> r = REof" "wake_writer w \<noteq> WAsleep"
  "wake_writer w = WDone \<longleftrightarrow> w = WDone" "wake_writer w = WClosed \<longleftrightarrow> w = WClosed"
  by (auto simp: wake_reader_def wake_writer_def)

lemma pipe_step_inv: "pipe_step s t \<Longrightarrow> pipe_inv cs s \<Longrightarrow> pipe_inv cs t"
proof (induction rule: pipe_step.induct)
  case (ps_write s cs' x)
  then show ?case using pipe_fill_spec [of "ps_pipe s" "ps_in s"] by (auto simp: pipe_inv_def pipe_ok_def)
next
  case (ps_close s)
  then show ?case by (auto simp: pipe_inv_def pipe_ok_def)
next
  case (ps_sleep s)
  then show ?case by (auto simp: pipe_inv_def pipe_empty)
next
  case (ps_read s n cs' x)
  then show ?case using pipe_take_spec [of n "ps_pipe s"] by (auto simp: pipe_inv_def pipe_ok_def pipe_empty)
qed

lemma pipe_step_less: "pipe_step s t \<Longrightarrow> pipe_inv cs s \<Longrightarrow> pipe_left t < pipe_left s"
proof (induction rule: pipe_step.induct)
  case (ps_write s cs' x)
  then have "length (ps_in s) = length cs' + (length (pipe_q x) - length (pipe_q (ps_pipe s)))"
    and "length (pipe_q (ps_pipe s)) \<le> length (pipe_q x)" and "cs' \<noteq> [] \<Longrightarrow> length (pipe_q x) = PIPESIZE"
    using pipe_fill_spec [of "ps_pipe s" "ps_in s"] by (auto simp: pipe_inv_def pipe_ok_def)
  then show ?case using ps_write by (auto simp: pipe_left_def pipe_inv_def wake_reader_def split: reader.splits)
next
  case (ps_close s)
  then show ?case by (auto simp: pipe_left_def wake_reader_def split: reader.splits)
next
  case (ps_sleep s)
  then show ?case by (auto simp: pipe_left_def)
next
  case (ps_read s n cs' x)
  then show ?case using pipe_take_spec [of n "ps_pipe s"]
    by (cases "pipe_q (ps_pipe s)"; cases n) (auto simp: pipe_left_def pipe_inv_def wake_writer_def split: writer.splits)
qed

lemma pipe_can_step: assumes "pipe_inv cs s" "\<not> (ps_w s = WClosed \<and> ps_r s = REof)" shows "\<exists>t. pipe_step s t"
proof (cases "ps_w s = WAwake \<or> ps_w s = WDone")
  case True
  then show ?thesis using ps_write [of s] ps_close [of s] by (metis surj_pair)
next
  case False
  then have "ps_r s = RAwake" using assms by (cases "ps_w s"; cases "ps_r s") (auto simp: pipe_inv_def)
  then show ?thesis using ps_sleep [of s] ps_read [of s 1] by (metis surj_pair zero_less_one)
qed

lemma pipe_start_inv: "pipe_start cs s \<Longrightarrow> pipe_inv cs s"
  by (auto simp: pipe_start_def pipe_inv_def pipe_ok_def pipe_empty)

lemma pipe_steps_inv: "pipe_step\<^sup>*\<^sup>* s t \<Longrightarrow> pipe_inv cs s \<Longrightarrow> pipe_inv cs t"
  by (induction rule: rtranclp_induct) (blast intro: pipe_step_inv)+

text \<open>
  C10: no wakeup is missed on a pipe. A writer that writes a buffer of any length and closes its end, and a
  reader that reads until the end of the file, cannot both be asleep: in every state they reach, either
  both are finished, and the reader has received exactly the bytes written, or one of them can go on; and
  every sequence of steps is finite, with at most \<open>3 * length cs + 6\<close> steps, whoever runs when.
\<close>

theorem pipe_transfer_completes:
  assumes "pipe_start cs s" "pipe_step\<^sup>*\<^sup>* s t"
  shows "((\<exists>u. pipe_step t u) \<or> (ps_w t = WClosed \<and> ps_r t = REof \<and> ps_out t = cs)) \<and>
    ((pipe_step ^^ n) s t \<longrightarrow> n \<le> 3 * length cs + 6)"
proof -
  have inv: "pipe_inv cs s" by (rule pipe_start_inv) (rule assms(1))
  have "pipe_left s = 3 * length cs + 6" using assms(1) pipe_empty [of "ps_pipe s"] by (simp add: pipe_start_def pipe_left_def)
  moreover have "pipe_inv cs u \<and> pipe_left u + k \<le> pipe_left s" if "(pipe_step ^^ k) s u" for k u
    using that
  proof (induction k arbitrary: u)
    case (Suc k)
    then obtain v where "(pipe_step ^^ k) s v" "pipe_step v u" by auto
    then show ?case using Suc.IH [of v] pipe_step_less [of v u cs] pipe_step_inv [of v u cs] by force
  qed (simp add: inv)
  ultimately have "(pipe_step ^^ n) s t \<longrightarrow> n \<le> 3 * length cs + 6" by fastforce
  moreover have i: "pipe_inv cs t" using pipe_steps_inv [OF assms(2) inv] .
  moreover have "(\<exists>u. pipe_step t u) \<or> (ps_w t = WClosed \<and> ps_r t = REof \<and> ps_out t = cs)"
    using pipe_can_step [OF i] i by (auto simp: pipe_inv_def)
  ultimately show ?thesis by blast
qed

text \<open>Two bytes through a pipe whose counters are about to wrap around.\<close>

definition pipe_two :: pipe_sys where
  "pipe_two = \<lparr>ps_pipe = zero_pipe\<lparr>pp_nread := 0xFFFFFFFF, pp_nwrite := 0xFFFFFFFF\<rparr>, ps_in = [1, 2], ps_out = [],
     ps_w = WAwake, ps_r = RAwake\<rparr>"

theorem pipe_transfer_completes_witness:
  "(\<exists>u. pipe_step pipe_two u) \<or> (ps_w pipe_two = WClosed \<and> ps_r pipe_two = REof \<and> ps_out pipe_two = [1, 2])"
  using pipe_transfer_completes [of "[1, 2]" pipe_two pipe_two 0]
  by (simp add: pipe_start_def pipe_two_def zero_pipe_def)

end
