(* ===== verification/Console_Spec.thy ===== *)
theory Console_Spec
  imports Boot Ring
begin

text \<open>
  The console's input as a line editor on two lists: the bytes that are ready to be read and the line
  being typed. The interrupt handler refines the editor, whatever the counters of the ring buffer are,
  and what has been typed up to the newline is what a read returns.
\<close>

section \<open>Definitions\<close>

definition con_view :: "'z con_state_scheme \<Rightarrow> u8 list \<times> u8 list" where
  "con_view s = (ring_view INPUT_BUF (in_buf s) (in_r s) (in_w s), ring_view INPUT_BUF (in_buf s) (in_w s) (in_e s))"

definition con_ok :: "'z con_state_scheme \<Rightarrow> bool" where
  "con_ok s \<longleftrightarrow> unat (in_w s - in_r s) \<le> unat (in_e s - in_r s) \<and> unat (in_e s - in_r s) \<le> INPUT_BUF \<and>
     10 \<notin> set (snd (con_view s))"

definition screen_ok :: "'z con_state_scheme \<Rightarrow> bool" where
  "screen_ok s \<longleftrightarrow> \<not> panicked s \<and> unat (crt_pos s) < 24 * 80"

text \<open>The line editor: kill line, backspace, and a character, which may complete the line.\<close>

definition edit_key :: "int \<Rightarrow> u8 list \<times> u8 list \<Rightarrow> u8 list \<times> u8 list" where
  "edit_key c v = (case v of (ready, line) \<Rightarrow>
     if c = 16 then (ready, line)
     else if c = 21 then (ready, [])
     else if c = 8 \<or> c = 127 then (ready, butlast line)
     else if c = 0 \<or> length ready + length line \<ge> INPUT_BUF then (ready, line)
     else
       let c = (if c = 13 then 10 else c); line = line @ [of_int c] in
       if c = 10 \<or> c = 4 \<or> length ready + length line = INPUT_BUF then (ready @ line, [])
       else (ready, line))"

section \<open>Output\<close>

definition screen_only :: "'z con_state_scheme \<Rightarrow> 'z con_state_scheme \<Rightarrow> bool" where
  "screen_only s t \<longleftrightarrow> (\<exists>a b c. t = s\<lparr>crt := a, crt_pos := b, uart_out := c\<rparr>)"

lemma screen_only_upd [simp]:
  "screen_only s s" "screen_only s (s\<lparr>uart_out := c\<rparr>)" "screen_only s (s\<lparr>crt := a\<rparr>)"
  "screen_only s (s\<lparr>crt := a, crt_pos := b\<rparr>)"
  unfolding screen_only_def
  by (intro exI [of _ "crt s"] exI [of _ "crt_pos s"] exI [of _ "uart_out s"], simp)
    (intro exI [of _ "crt s"] exI [of _ "crt_pos s"] exI [of _ c], simp,
     intro exI [of _ a] exI [of _ "crt_pos s"] exI [of _ "uart_out s"], simp,
     intro exI [of _ a] exI [of _ b] exI [of _ "uart_out s"], simp)

lemma screen_only_trans: assumes "screen_only s t" "screen_only t u" shows "screen_only s u"
proof -
  obtain a b c where "t = s\<lparr>crt := a, crt_pos := b, uart_out := c\<rparr>" using assms(1) by (auto simp: screen_only_def)
  moreover obtain a' b' c' where "u = t\<lparr>crt := a', crt_pos := b', uart_out := c'\<rparr>" using assms(2) by (auto simp: screen_only_def)
  ultimately have "u = s\<lparr>crt := a', crt_pos := b', uart_out := c'\<rparr>" by simp
  then show ?thesis unfolding screen_only_def by blast
qed

lemma screen_onlyD:
  assumes "screen_only s t"
  shows "mach t = mach s" "procs t = procs s" "in_buf t = in_buf s" "in_r t = in_r s" "in_w t = in_w s"
    "in_e t = in_e s" "panicked t = panicked s"
  using assms by (auto simp: screen_only_def)

lemma uartputc_run:
  obtains t where "uartputc c s = Inr ((), t)" "screen_only s t" "crt_pos t = crt_pos s"
proof (rule that)
  let ?t = "if uart s then s\<lparr>uart_out := uart_out s @ [of_int c]\<rparr> else s"
  show "uartputc c s = Inr ((), ?t)" by (simp add: uartputc_def k_simps)
  show "screen_only s ?t" by simp
  show "crt_pos ?t = crt_pos s" by simp
qed

text \<open>The end of \<open>cgaputc\<close>: scrolling and the new position.\<close>

lemma cga_scroll_run:
  assumes "m \<le> 24 * 80"
  obtains f q where "bnd (if m div 80 \<ge> 24 then thn (upd (\<lambda>s. s\<lparr>crt := scroll (m - 80) (crt s)\<rparr>)) (ret (m - 80)) else ret m)
      (\<lambda>pos. upd (\<lambda>s. s\<lparr>crt_pos := of_nat pos, crt := (crt s)(pos := 0x20 OR 0x0700)\<rparr>)) s =
    Inr ((), s\<lparr>crt := f, crt_pos := of_nat q\<rparr>)" "q < 24 * 80"
proof (cases "24 \<le> m div 80")
  case True
  then show ?thesis using assms by (intro that [of "m - 80" "(scroll (m - 80) (crt s))(m - 80 := 0x20 OR 0x0700)"])
    (simp only: if_True, simp add: upd_def ret_def, linarith)
next
  case False
  moreover have "m < 80 + (m div 80) * 80" by (rule dividend_less_div_times) simp
  ultimately show ?thesis by (intro that [of m "(crt s)(m := 0x20 OR 0x0700)"])
    (simp only: if_False, simp add: upd_def ret_def, linarith)
qed

lemma cgaputc_run:
  assumes "unat (crt_pos s) < 24 * 80"
  obtains t where "cgaputc c s = Inr ((), t)" "screen_only s t" "unat (crt_pos t) < 24 * 80"
proof -
  define p where "p = unat (crt_pos s)"
  define m where "m = (if c = 10 then p + (80 - p mod 80) else if c = BACKSPACE then p - 1 else p + 1)"
  define s1 where "s1 = (if c = 10 \<or> c = BACKSPACE then s else s\<lparr>crt := (crt s)(p := of_int (c mod 256) OR 0x0700)\<rparr>)"
  have p: "p < 24 * 80" using assms by (simp add: p_def)
  then have "p div 80 < 24" using less_mult_imp_div_less [of p 24 80] by simp
  moreover have "p = 80 * (p div 80) + p mod 80" by simp
  ultimately have "p + (80 - p mod 80) \<le> 24 * 80" by linarith
  then have m: "m \<le> 24 * 80" using p unfolding m_def by auto
  obtain f q where run: "bnd (if m div 80 \<ge> 24 then thn (upd (\<lambda>s. s\<lparr>crt := scroll (m - 80) (crt s)\<rparr>)) (ret (m - 80)) else ret m)
      (\<lambda>pos. upd (\<lambda>s. s\<lparr>crt_pos := of_nat pos, crt := (crt s)(pos := 0x20 OR 0x0700)\<rparr>)) s1 =
    Inr ((), s1\<lparr>crt := f, crt_pos := of_nat q\<rparr>)" and q: "q < 24 * 80" by (rule cga_scroll_run [OF m])
  have first: "(if c = 10 then ret (p + (80 - p mod 80)) else if c = BACKSPACE then ret (p - 1)
      else thn (upd (\<lambda>s. s\<lparr>crt := (crt s)(p := of_int (c mod 256) OR 0x0700)\<rparr>)) (ret (p + 1))) s = Inr (m, s1)"
  proof -
    consider "c = 10" | "c \<noteq> 10" "c = BACKSPACE" | "c \<noteq> 10" "c \<noteq> BACKSPACE" by blast
    then show ?thesis by cases (simp_all only: m_def s1_def ret_def upd_thn if_True if_False simp_thms)
  qed
  have "\<not> m > 25 * 80" using m by linarith
  then have "cgaputc c s = Inr ((), s1\<lparr>crt := f, crt_pos := of_nat q\<rparr>)"
    unfolding cgaputc_def rd_bnd p_def [symmetric] by (simp only: bnd_Inr first if_False run)
  moreover have "s1\<lparr>crt := f, crt_pos := of_nat q\<rparr> = s\<lparr>crt := f, crt_pos := of_nat q\<rparr>" by (simp add: s1_def)
  moreover have "unat (of_nat q :: u16) = q" using q by (simp add: unat_of_nat)
  ultimately show ?thesis using q that [of "s\<lparr>crt := f, crt_pos := of_nat q\<rparr>"] by simp
qed

lemma consputc_run:
  assumes "screen_ok s"
  obtains t where "consputc c s = Inr ((), t)" "screen_only s t" "screen_ok t"
proof -
  have p: "unat (crt_pos s) < 24 * 80" "\<not> panicked s" using assms by (simp_all add: screen_ok_def)
  have "\<exists>u. (if c = BACKSPACE then thn (uartputc 8) (thn (uartputc 32) (uartputc 8)) else uartputc c) s = Inr ((), u) \<and>
      screen_only s u \<and> crt_pos u = crt_pos s"
  proof (cases "c = BACKSPACE")
    case True
    obtain t1 where 1: "uartputc 8 s = Inr ((), t1)" "screen_only s t1" "crt_pos t1 = crt_pos s" by (rule uartputc_run)
    obtain t2 where 2: "uartputc 32 t1 = Inr ((), t2)" "screen_only t1 t2" "crt_pos t2 = crt_pos t1" by (rule uartputc_run)
    obtain t3 where 3: "uartputc 8 t2 = Inr ((), t3)" "screen_only t2 t3" "crt_pos t3 = crt_pos t2" by (rule uartputc_run)
    have "screen_only s t3" using 1 2 3 screen_only_trans by blast
    then show ?thesis using 1 2 3 True by (intro exI [of _ t3]) simp
  next
    case False
    obtain u where "uartputc c s = Inr ((), u)" "screen_only s u" "crt_pos u = crt_pos s" by (rule uartputc_run)
    then show ?thesis using False by (intro exI [of _ u]) simp
  qed
  then obtain u where u: "(if c = BACKSPACE then thn (uartputc 8) (thn (uartputc 32) (uartputc 8)) else uartputc c) s = Inr ((), u)"
    "screen_only s u" "crt_pos u = crt_pos s" by blast
  obtain t where t: "cgaputc c u = Inr ((), t)" "screen_only u t" "unat (crt_pos t) < 24 * 80"
    by (rule cgaputc_run [of u]) (use p u(3) in simp_all)
  have "screen_only s t" using u(2) t(2) by (rule screen_only_trans)
  moreover have "consputc c s = Inr ((), t)" using u(1) t(1) p(2) by (simp add: consputc_def)
  ultimately show ?thesis using that p(2) t(3) screen_onlyD(7) [of s t] by (simp add: screen_ok_def)
qed

section \<open>The line editor\<close>

interpretation crg: ring "INPUT_BUF"
  by unfold_locales (simp_all add: dvd_def)

lemma con_len: "con_ok s \<Longrightarrow> length (fst (con_view s)) + length (snd (con_view s)) = unat (in_e s - in_r s)"
  using unat_diff_add [of "in_w s" "in_r s" "in_e s"] by (simp add: con_ok_def con_view_def crg.length_view)

lemma con_view_cong:
  "in_buf t = in_buf s \<Longrightarrow> in_r t = in_r s \<Longrightarrow> in_w t = in_w s \<Longrightarrow> in_e t = in_e s \<Longrightarrow> con_view t = con_view s \<and> con_ok t = con_ok s"
  by (simp add: con_view_def con_ok_def)

lemma con_back:
  assumes "con_ok s" "in_e s \<noteq> in_w s"
  shows "con_ok (s\<lparr>in_e := in_e s - 1\<rparr>)" "con_view (s\<lparr>in_e := in_e s - 1\<rparr>) = (fst (con_view s), butlast (snd (con_view s)))"
proof -
  show v: "con_view (s\<lparr>in_e := in_e s - 1\<rparr>) = (fst (con_view s), butlast (snd (con_view s)))"
    using crg.view_drop_last [OF assms(2)] by (simp add: con_view_def)
  have l: "unat (in_e s - in_r s) = unat (in_w s - in_r s) + unat (in_e s - in_w s)"
    using assms(1) unat_diff_add by (simp add: con_ok_def)
  have "unat (in_e s - in_w s) > 0" using assms(2) unat_diff_zero [of "in_e s" "in_w s"] by simp
  with l have "in_e s \<noteq> in_r s" by auto
  then have "unat (in_e s - in_r s) = Suc (unat (in_e s - 1 - in_r s))" using unat_succ_diff [of "in_e s - 1" "in_r s"] by simp
  then show "con_ok (s\<lparr>in_e := in_e s - 1\<rparr>)"
    using assms(1) l \<open>unat (in_e s - in_w s) > 0\<close> v by (auto simp: con_ok_def dest: in_set_butlastD)
qed

lemma con_put:
  assumes "con_ok s" "unat (in_e s - in_r s) < INPUT_BUF"
  shows "ring_view INPUT_BUF ((in_buf s)(input_at (in_e s) := b)) (in_r s) (in_e s + 1) = fst (con_view s) @ snd (con_view s) @ [b]"
    "ring_view INPUT_BUF ((in_buf s)(input_at (in_e s) := b)) (in_r s) (in_w s) = fst (con_view s)"
    "ring_view INPUT_BUF ((in_buf s)(input_at (in_e s) := b)) (in_w s) (in_e s + 1) = snd (con_view s) @ [b]"
    "unat (in_e s + 1 - in_r s) = Suc (unat (in_e s - in_r s))"
proof -
  let ?d = "(in_buf s)(input_at (in_e s) := b)"
  have o: "unat (in_w s - in_r s) \<le> unat (in_e s - in_r s)" using assms(1) by (simp add: con_ok_def)
  show a: "ring_view INPUT_BUF ?d (in_r s) (in_e s + 1) = fst (con_view s) @ snd (con_view s) @ [b]"
    using crg.view_push [OF assms(2), of "in_buf s" b] crg.view_split [OF o, of "in_buf s"]
    by (simp add: con_view_def input_at_def)
  have l: "length (ring_view INPUT_BUF ?d (in_r s) (in_e s + 1)) = unat (in_e s + 1 - in_r s)" by (rule crg.length_view)
  then show e: "unat (in_e s + 1 - in_r s) = Suc (unat (in_e s - in_r s))"
    using con_len [OF assms(1)] unfolding a by simp
  then have "unat (in_w s - in_r s) \<le> unat (in_e s + 1 - in_r s)" using o by simp
  from crg.view_split [OF this, of ?d]
  have "fst (con_view s) @ snd (con_view s) @ [b] = ring_view INPUT_BUF ?d (in_r s) (in_w s) @ ring_view INPUT_BUF ?d (in_w s) (in_e s + 1)"
    unfolding a .
  moreover have "length (fst (con_view s)) = length (ring_view INPUT_BUF ?d (in_r s) (in_w s))" by (simp add: con_view_def crg.length_view)
  ultimately show "ring_view INPUT_BUF ?d (in_r s) (in_w s) = fst (con_view s)"
    and "ring_view INPUT_BUF ?d (in_w s) (in_e s + 1) = snd (con_view s) @ [b]" by auto
qed

lemma kill_line_run:
  assumes "screen_ok s" "10 \<notin> set (ring_view INPUT_BUF (in_buf s) (in_w s) (in_e s))" "unat (in_e s - in_w s) < fuel"
  shows "\<exists>t. kill_line fuel s = Inr ((), t) \<and> screen_ok t \<and> mach t = mach s \<and> in_buf t = in_buf s \<and> in_r t = in_r s \<and>
    in_w t = in_w s \<and> in_e t = in_w s"
  using assms
proof (induction fuel arbitrary: s)
  case (Suc fuel)
  show ?case
  proof (cases "in_e s = in_w s")
    case True
    then show ?thesis using Suc.prems by (intro exI [of _ s]) (simp add: k_simps)
  next
    case False
    let ?v = "ring_view INPUT_BUF (in_buf s) (in_w s) (in_e s)" let ?u = "s\<lparr>in_e := in_e s - 1\<rparr>"
    have "?v \<noteq> []" using False by (simp add: crg.view_Nil_iff)
    then have "last ?v \<in> set ?v" by simp
    then have c: "in_buf s (input_at (in_e s - 1)) \<noteq> 10" using Suc.prems(2) crg.view_last [OF False, of "in_buf s"] by (metis input_at_def)
    have "screen_ok ?u" using Suc.prems(1) by (simp add: screen_ok_def)
    then obtain t where t: "consputc BACKSPACE ?u = Inr ((), t)" "screen_only ?u t" "screen_ok t" by (rule consputc_run)
    have "10 \<notin> set (ring_view INPUT_BUF (in_buf t) (in_w t) (in_e t))"
      using Suc.prems(2) crg.view_drop_last [OF False, of "in_buf s"] screen_onlyD [OF t(2)] by (auto dest: in_set_butlastD)
    moreover have "unat (in_e s - in_w s) = Suc (unat (in_e s - 1 - in_w s))" using unat_succ_diff [of "in_e s - 1" "in_w s"] False by simp
    ultimately obtain w where "kill_line fuel t = Inr ((), w)" "screen_ok w \<and> mach w = mach s \<and> in_buf w = in_buf s \<and> in_r w = in_r s \<and>
        in_w w = in_w s \<and> in_e w = in_w s"
      using Suc.IH [OF t(3)] Suc.prems(3) screen_onlyD [OF t(2)] by auto
    then show ?thesis using c False t(1) by (intro exI [of _ w]) (simp add: whn_def)
  qed
qed simp

text \<open>What a step of the handler keeps and does.\<close>

definition key_ok :: "'z con_state_scheme \<Rightarrow> u8 list \<times> u8 list \<Rightarrow> 'z con_state_scheme \<Rightarrow> bool" where
  "key_ok s v t \<longleftrightarrow> con_ok t \<and> screen_ok t \<and> mach t = mach s \<and> con_view t = v"

lemma of_int_10: "0 \<le> c \<Longrightarrow> c < 256 \<Longrightarrow> (of_int c :: u8) = 10 \<longleftrightarrow> c = 10"
proof -
  assume "0 \<le> c" "c < 256"
  then have "uint (of_int c :: u8) = c" by (simp add: unsigned_of_int take_bit_int_eq_self)
  moreover have "uint (10 :: u8) = 10" by simp
  ultimately show ?thesis by (metis word_of_int_numeral)
qed

lemma con_ok_put:
  assumes "con_ok s" "unat (in_e s - in_r s) < INPUT_BUF" "b \<noteq> 10"
  shows "con_ok (s\<lparr>in_buf := (in_buf s)(input_at (in_e s) := b), in_e := in_e s + 1\<rparr>)"
  using assms con_put(1-3) [OF assms(1,2), of b] con_put(4) [OF assms(1,2)] by (simp add: con_ok_def con_view_def)

lemma con_ok_commit:
  assumes "con_ok s" "unat (in_e s - in_r s) < INPUT_BUF"
  shows "con_ok (s\<lparr>in_buf := (in_buf s)(input_at (in_e s) := b), in_e := in_e s + 1, in_w := in_e s + 1\<rparr>)"
  using assms con_put(1-3) [OF assms, of b] con_put(4) [OF assms] by (simp add: con_ok_def con_view_def)

lemma input_char_run:
  assumes "con_ok s" "screen_ok s" "mach_ok (mach s)" "lk_free (mach s) LPtable" "0 \<le> c" "c < 256" "c \<notin> {16, 21, 8, 127}"
  shows "\<exists>t. input_key c s = Inr (False, t) \<and> key_ok s (edit_key c (con_view s)) t"
proof (cases "c = 0 \<or> unat (in_e s - in_r s) \<ge> INPUT_BUF")
  case True
  then have "edit_key c (con_view s) = con_view s" using assms(7) con_len [OF assms(1)] by (auto simp: edit_key_def split: prod.splits)
  then show ?thesis using True assms by (intro exI [of _ s]) (auto simp: input_key_def k_simps key_ok_def)
next
  case False
  define d where "d = (if c = 13 then 10 else c)"
  define u where "u = s\<lparr>in_buf := (in_buf s)(input_at (in_e s) := of_int d), in_e := in_e s + 1\<rparr>"
  have l: "unat (in_e s - in_r s) < INPUT_BUF" using False by simp
  have "screen_ok u" using assms(2) by (simp add: screen_ok_def u_def)
  then obtain t where t: "consputc d u = Inr ((), t)" "screen_only u t" "screen_ok t" by (rule consputc_run)
  note tu = screen_onlyD [OF t(2)]
  note pv = con_put(1-3) [OF assms(1) l, of "of_int d"] con_put(4) [OF assms(1) l]
  have full: "in_e t = in_r t + 128 \<longleftrightarrow> Suc (unat (in_e s - in_r s)) = INPUT_BUF"
    using crg.full_iff [of "in_e t" "in_r t"] pv(4) tu by (simp add: u_def)
  have ek: "edit_key c (con_view s) = (if d = 10 \<or> d = 4 \<or> Suc (unat (in_e s - in_r s)) = INPUT_BUF
      then (fst (con_view s) @ snd (con_view s) @ [of_int d], []) else (fst (con_view s), snd (con_view s) @ [of_int d]))"
    using False assms(7) con_len [OF assms(1)] by (auto simp: edit_key_def d_def Let_def split: prod.splits)
  have run: "input_key c s = thn (whn (d = 10 \<or> d = 4 \<or> in_e t = in_r t + 128)
      (thn (upd (\<lambda>s. s\<lparr>in_w := in_e s\<rparr>)) (wakeup ChInput))) (ret False) t"
    using False assms(7) t(1) by (simp add: input_key_def d_def [symmetric] u_def thn_def bnd_assoc whn_def)
  show ?thesis
  proof (cases "d = 10 \<or> d = 4 \<or> in_e t = in_r t + 128")
    case True
    let ?w = "t\<lparr>in_w := in_e t, procs := wake_all (Some ChInput) (procs t)\<rparr>"
    have "input_key c s = Inr (False, ?w)" using run True tu assms(3,4) by (simp add: whn_def u_def ret_def)
    moreover have "con_view ?w = edit_key c (con_view s)" using ek True full tu pv(1) by (simp add: con_view_def u_def)
    moreover have "con_ok ?w" using con_ok_commit [OF assms(1) l, of "of_int d"] tu by (simp add: con_ok_def con_view_def u_def)
    ultimately show ?thesis using t(3) tu by (intro exI [of _ ?w]) (simp add: key_ok_def screen_ok_def u_def)
  next
    case False
    then have "of_int d \<noteq> (10 :: u8)" using assms(5,6) of_int_10 [of d] by (auto simp: d_def split: if_splits)
    then have "con_ok t" using con_ok_put [OF assms(1) l, of "of_int d"] tu by (simp add: con_ok_def con_view_def u_def)
    moreover have "con_view t = edit_key c (con_view s)" using ek False full tu pv(2,3) by (simp add: con_view_def u_def)
    ultimately show ?thesis using run False t(3) tu by (intro exI [of _ t]) (simp add: whn_def ret_def key_ok_def u_def)
  qed
qed

lemma input_key_run:
  assumes "con_ok s" "screen_ok s" "mach_ok (mach s)" "lk_free (mach s) LPtable" "0 \<le> c" "c < 256"
  shows "\<exists>t. input_key c s = Inr (c = 16, t) \<and> key_ok s (edit_key c (con_view s)) t"
proof -
  consider "c = 16" | "c = 21" | "c = 8 \<or> c = 127" "in_e s = in_w s" | "c = 8 \<or> c = 127" "in_e s \<noteq> in_w s" | "c \<notin> {16, 21, 8, 127}" by blast
  then show ?thesis
  proof cases
    case 1
    then show ?thesis using assms by (intro exI [of _ s]) (simp add: input_key_def ret_def key_ok_def edit_key_def split: prod.splits)
  next
    case 2
    obtain t where t: "kill_line (unat (in_e s - in_w s) + 1) s = Inr ((), t)" "screen_ok t" "mach t = mach s" "in_buf t = in_buf s"
      "in_r t = in_r s" "in_w t = in_w s" "in_e t = in_w s"
      using kill_line_run [OF assms(2), of "unat (in_e s - in_w s) + 1"] assms(1) by (auto simp: con_ok_def con_view_def)
    moreover have "con_view t = edit_key c (con_view s)" using t 2 by (simp add: con_view_def edit_key_def)
    moreover have "con_ok t" using assms(1) t by (simp add: con_ok_def con_view_def)
    ultimately show ?thesis using 2 by (intro exI [of _ t]) (simp add: input_key_def ret_def key_ok_def)
  next
    case 3
    then have "snd (con_view s) = []" by (simp add: con_view_def)
    then have "edit_key c (con_view s) = con_view s" using 3 by (auto simp: edit_key_def split: prod.splits)
    then show ?thesis using 3 assms by (intro exI [of _ s]) (auto simp: input_key_def k_simps key_ok_def)
  next
    case 4
    let ?u = "s\<lparr>in_e := in_e s - 1\<rparr>"
    have "screen_ok ?u" using assms(2) by (simp add: screen_ok_def)
    then obtain t where t: "consputc BACKSPACE ?u = Inr ((), t)" "screen_only ?u t" "screen_ok t" by (rule consputc_run)
    have "con_view t = con_view ?u \<and> con_ok t = con_ok ?u" using screen_onlyD [OF t(2)] by (intro con_view_cong) simp_all
    moreover have "con_view ?u = edit_key c (con_view s)" using 4 con_back(2) [OF assms(1) 4(2)] by (auto simp: edit_key_def split: prod.splits)
    ultimately have "key_ok s (edit_key c (con_view s)) t" using con_back(1) [OF assms(1) 4(2)] t(3) screen_onlyD [OF t(2)] by (simp add: key_ok_def)
    moreover have "input_key c s = Inr (c = 16, t)" using 4 t(1) by (auto simp: input_key_def whn_def ret_def)
    ultimately show ?thesis by blast
  next
    case 5
    then show ?thesis using input_char_run [OF assms 5] by auto
  qed
qed

lemma input_keys_run:
  assumes "con_ok s" "screen_ok s" "mach_ok (mach s)" "lk_free (mach s) LPtable" "\<forall>c\<in>set cs. 0 \<le> c \<and> c < 256"
  shows "\<exists>t. input_keys cs s = Inr (16 \<in> set cs, t) \<and> key_ok s (fold edit_key cs (con_view s)) t"
  using assms
proof (induction cs arbitrary: s)
  case (Cons c cs)
  obtain t where t: "input_key c s = Inr (c = 16, t)" "key_ok s (edit_key c (con_view s)) t"
    using input_key_run [of s c] Cons.prems by auto
  then obtain u where "input_keys cs t = Inr (16 \<in> set cs, u)" "key_ok t (fold edit_key cs (con_view t)) u"
    using Cons.IH [of t] Cons.prems by (auto simp: key_ok_def)
  then show ?case using t by (intro exI [of _ u]) (auto simp: ret_def key_ok_def)
qed (simp add: ret_def key_ok_def)

lemma con_mach [simp]:
  "con_ok (s\<lparr>mach := m\<rparr>) = con_ok s" "screen_ok (s\<lparr>mach := m\<rparr>) = screen_ok s" "con_view (s\<lparr>mach := m\<rparr>) = con_view s"
  by (simp_all add: con_ok_def con_view_def screen_ok_def)

lemma consoleintr_run:
  assumes "calm s" "con_ok s" "screen_ok s" "\<forall>c\<in>set cs. 0 \<le> c \<and> c < 256"
  shows "\<exists>t. consoleintr dump cs s = (if 16 \<in> set cs then dump t else Inr ((), t)) \<and>
    con_view t = fold edit_key cs (con_view s) \<and> con_ok t \<and> screen_ok t \<and> mach t = mach s"
proof -
  let ?s = "s\<lparr>mach := hold LCons (mach s)\<rparr>"
  obtain t where t: "input_keys cs ?s = Inr (16 \<in> set cs, t)" "key_ok ?s (fold edit_key cs (con_view s)) t"
    using input_keys_run [of ?s cs] assms by auto
  have m: "mach t = hold LCons (mach s)" using t(2) by (simp add: key_ok_def)
  have "consoleintr dump cs s = (if 16 \<in> set cs then dump (t\<lparr>mach := mach s\<rparr>) else Inr ((), t\<lparr>mach := mach s\<rparr>))"
    using t(1) m assms(1) by (simp add: consoleintr_def whn_def ret_def)
  then show ?thesis using t(2) by (intro exI [of _ "t\<lparr>mach := mach s\<rparr>"]) (simp add: key_ok_def)
qed

text \<open>
  C26: the keyboard and serial interrupt handler is a line editor. For every series of input bytes it
  returns (after calling \<open>procdump\<close> when control-P was among them), the bytes ready for readers and the line
  being typed are what the editor makes of them (control-U clears the line, backspace removes its last
  byte, a newline, control-D or a full buffer completes it, input beyond the buffer is dropped), the counters
  stay in order, \<open>r\<close> before \<open>w\<close> before \<open>e\<close> and at most INPUT_BUF apart however often they wrapped around, and
  the cursor stays on the screen.
\<close>

theorem console_edits_line:
  assumes "calm s" "con_ok s" "screen_ok s" "\<forall>c\<in>set cs. 0 \<le> c \<and> c < 256"
  shows "\<exists>t. consoleintr dump cs s = (if 16 \<in> set cs then dump t else Inr ((), t)) \<and>
    con_view t = fold edit_key cs (con_view s) \<and> con_ok t \<and> screen_ok t \<and> mach t = mach s"
  by (rule consoleintr_run) (use assms in auto)

theorem console_edits_line_witness:
  "\<exists>t. consoleintr (ret ()) [97, 98, 8, 13] boot0 = Inr ((), t) \<and> con_view t = ([97, 10], [])"
  using console_edits_line [of boot0 "[97, 98, 8, 13]" "ret ()"]
  by (auto simp: con_ok_def con_view_def screen_ok_def edit_key_def)

section \<open>Reading what was typed\<close>

lemma read_line_run:
  assumes "ring_view INPUT_BUF (in_buf s) (in_r s) (in_w s) = xs @ [10]" "10 \<notin> set xs" "4 \<notin> set xs" "length xs < n"
  shows "consoleread_loop target n s = Inr ((xs @ [10], Some (n - length xs - 1)), s\<lparr>in_r := in_w s\<rparr>)"
  using assms
proof (induction xs arbitrary: n s)
  case Nil
  then obtain m where n: "n = Suc m" by (cases n) auto
  have ne: "in_r s \<noteq> in_w s" using Nil.prems(1) by auto
  note v = crg.view_pop [OF ne, of "in_buf s"]
  then have "in_buf s (input_at (in_r s)) = 10" "ring_view INPUT_BUF (in_buf s) (in_r s + 1) (in_w s) = []"
    using Nil.prems(1) by (simp_all add: input_at_def)
  then have "in_buf s (input_at (in_r s)) = 10" "in_w s = in_r s + 1" by (simp_all add: crg.view_Nil_iff)
  then show ?case using ne n by (simp add: ret_def)
next
  case (Cons x xs)
  then obtain m where n: "n = Suc m" by (cases n) auto
  have ne: "in_r s \<noteq> in_w s" using Cons.prems(1) by auto
  note v = crg.view_pop [OF ne, of "in_buf s"]
  then have "in_buf s (input_at (in_r s)) = x" "ring_view INPUT_BUF (in_buf s) (in_r s + 1) (in_w s) = xs @ [10]"
    using Cons.prems(1) by (simp_all add: input_at_def)
  then show ?case using ne n Cons.prems(2-) Cons.IH [of "s\<lparr>in_r := in_r s + 1\<rparr>" m] by (simp add: ret_def)
qed

abbreviation plain :: "int \<Rightarrow> bool" where
  "plain c \<equiv> 0 < c \<and> c < 256 \<and> c \<notin> {4, 8, 10, 13, 16, 21, 127}"

lemma edit_plain:
  assumes "\<forall>c\<in>set cs. plain c" "length l + length cs < INPUT_BUF"
  shows "fold edit_key cs ([], l) = ([], l @ map of_int cs)"
  using assms by (induction cs arbitrary: l) (auto simp: edit_key_def Let_def)

lemma of_int_4: "0 < c \<Longrightarrow> c < 256 \<Longrightarrow> (of_int c :: u8) = 4 \<longleftrightarrow> c = 4"
proof -
  assume "0 < c" "c < 256"
  then have "uint (of_int c :: u8) = c" by (simp add: unsigned_of_int take_bit_int_eq_self)
  moreover have "uint (4 :: u8) = 4" by simp
  ultimately show ?thesis by (metis word_of_int_numeral)
qed

text \<open>
  C27: a line that is typed is the line that is read. When the buffer is empty and a line of ordinary
  characters that fits into it is typed and ended by Enter, then the next read with room for it returns
  exactly the line, with the carriage return turned into a newline, and leaves the buffer empty.
\<close>

theorem console_line_roundtrip:
  assumes "calm s" "con_ok s" "screen_ok s" "con_view s = ([], [])" "\<forall>c\<in>set cs. plain c" "length cs < n" "n < INPUT_BUF"
  shows "\<exists>t u. consoleintr dump (cs @ [13]) s = Inr ((), t) \<and>
    consoleread_loop n n t = Inr ((map of_int cs @ [10], Some (n - length cs - 1)), u) \<and> con_view u = ([], [])"
proof -
  have p: "0 < c \<and> c < 256 \<and> c \<noteq> 16 \<and> c \<noteq> 10 \<and> c \<noteq> 4" if "c \<in> set cs" for c using bspec [OF assms(5) that] by simp
  then have r: "\<forall>c\<in>set (cs @ [13]). 0 \<le> c \<and> c < 256" and "16 \<notin> set cs" by force+
  then have d: "16 \<notin> set (cs @ [13])" by simp
  obtain t where t: "consoleintr dump (cs @ [13]) s = Inr ((), t)" "con_view t = fold edit_key (cs @ [13]) ([], [])"
    using consoleintr_run [OF assms(1-3) r, of dump] unfolding if_not_P [OF d] assms(4) by blast
  have "fold edit_key cs ([], []) = ([], map of_int cs)" using edit_plain [OF assms(5), of "[]"] assms(6,7) by simp
  then have v: "con_view t = (map of_int cs @ [10], [])" using t(2) assms(6,7) by (simp add: edit_key_def)
  have "(of_int c :: u8) \<noteq> 10 \<and> (of_int c :: u8) \<noteq> 4" if "c \<in> set cs" for c
    using p [OF that] of_int_10 [of c] of_int_4 [of c] by simp
  then have "10 \<notin> set (map of_int cs :: u8 list)" "4 \<notin> set (map of_int cs :: u8 list)" by force+
  then have "consoleread_loop n n t = Inr ((map of_int cs @ [10], Some (n - length cs - 1)), t\<lparr>in_r := in_w t\<rparr>)"
    using read_line_run [of t "map of_int cs" n n] v assms(6) by (simp add: con_view_def)
  moreover have "con_view (t\<lparr>in_r := in_w t\<rparr>) = ([], [])" using v by (simp add: con_view_def)
  ultimately show ?thesis using t(1) by blast
qed

theorem console_line_roundtrip_witness:
  "\<exists>t u. consoleintr (ret ()) ([108, 115] @ [13]) boot0 = Inr ((), t) \<and>
    consoleread_loop 100 100 t = Inr ((map of_int [108, 115] @ [10], Some 97), u) \<and> con_view u = ([], [])"
  using console_line_roundtrip [of boot0 "[108, 115]" 100 "ret ()"]
  by (simp add: con_ok_def con_view_def screen_ok_def)

end
