(* ===== verification/Inode_Spec.thy ===== *)
theory Inode_Spec
  imports Boot
begin

text \<open>
  Block allocation and on-disk inodes: inside a transaction, an edit of a cached block changes that block
  and nothing else, \<open>balloc\<close> takes the first free block of the bitmap and clears it, \<open>bfree\<close> gives a block
  back, and what \<open>iupdate\<close> stores is what \<open>ilock\<close> loads.
\<close>

unbundle bit_operations_syntax

section \<open>Editing a block in a transaction\<close>

text \<open>An operation is under way and the log has room for \<open>k\<close> more blocks; no buffer is locked.\<close>

definition tx :: "nat \<Rightarrow> 'z log_state_scheme \<Rightarrow> bool" where
  "tx k s \<longleftrightarrow> log_inv s \<and> held s = {} \<and> 1 \<le> lg_outstanding s \<and> lh_n s + int k \<le> 29 \<and> lh_n s + int k \<le> lg_size s - 1"

text \<open>What reading and logging blocks leaves alone.\<close>

definition fs_keep :: "'z fs_state_scheme \<Rightarrow> 'z fs_state_scheme \<Rightarrow> bool" where
  "fs_keep s t \<longleftrightarrow> sb t = sb s \<and> icache t = icache s \<and> lg_start t = lg_start s \<and> lg_size t = lg_size s \<and>
     lg_outstanding t = lg_outstanding s \<and> disksize t = disksize s \<and> disk t = disk s \<and> wlog t = wlog s \<and> larea t = larea s \<and>
     (\<forall>j. slocks t (SInode j) = slocks s (SInode j))"

lemma fs_keep_refl [simp]: "fs_keep s s"
  by (simp add: fs_keep_def)

lemma fs_keep_trans: "fs_keep s t \<Longrightarrow> fs_keep t u \<Longrightarrow> fs_keep s u"
  by (simp add: fs_keep_def)

lemma io_frame_keep:
  fixes s t :: "'z fs_state_scheme"
  assumes "io_frame s t" "disk t = disk s" "wlog t = wlog s"
  shows "fs_keep s t" "lbs t = lbs s" "lh_n t = lh_n s" "lg_dev t = lg_dev s"
proof -
  obtain P B L S D W where "t = s\<lparr>procs := P, bufs := B, lru := L, slocks := S, disk := D, wlog := W\<rparr>"
    "\<forall>l. (\<forall>i. l \<noteq> SBuf i) \<longrightarrow> S l = slocks s l"
    using assms(1) unfolding io_frame_def by blast
  then have "sb t = sb s" "icache t = icache s" "disksize t = disksize s" "\<forall>j. slocks t (SInode j) = slocks s (SInode j)" by simp_all
  then show "fs_keep s t" using assms(2,3) io_frame_log [OF assms(1)] by (simp add: fs_keep_def)
qed (use io_frame_log [OF assms(1)] in simp_all)

lemma log_inv_keep:
  fixes s t :: "'z fs_state_scheme"
  assumes "log_inv s" "bio_inv t" "io_frame s t" "disk t = disk s" "wlog t = wlog s" "dblocks t = dblocks s"
  shows "log_inv t"
  using assms(1,2,6) io_frame_keep [OF assms(3-5)] io_frame_log [OF assms(3)]
  unfolding log_inv_def log_geo_def fs_keep_def by (elim conjE) (intro conjI; simp)

lemma tx_read:
  fixes s :: "'z fs_state_scheme"
  assumes "tx k s" "unat b < disksize s" "k \<le> 29"
  obtains i t where "bread 1 b s = Inr (i, t)" "log_inv t" "held t = {i}" "b_blockno (bufs t i) = b" "b_data (bufs t i) = blk s b"
    "blk t = blk s" "fs_keep s t" "lbs t = lbs s" "lh_n t = lh_n s" "b_dirty (bufs t i) \<or> blk s b = disk s (unat b)"
proof -
  have s: "log_inv s" "held s = {}" "lh_n s + int k \<le> 29" using assms(1) by (simp_all add: tx_def)
  have "card (held s \<union> dirties s) < NBUF" using log_invD(4-6) [OF s(1)] s(2) by simp
  then obtain i t where t: "bread 1 b s = Inr (i, t)" "bio_inv t" "io_frame s t" "disk t = disk s" "wlog t = wlog s"
    "i < NBUF" "i \<notin> held s" "held t = insert i (held s)" "\<forall>j. j \<noteq> i \<longrightarrow> bufs t j = bufs s j" "b_blockno (bufs t i) = b"
    "b_data (bufs t i) = blk s b" "blk t = blk s" "dirties t = dirties s" "dblocks t = dblocks s"
    "b_dirty (bufs t i) \<or> blk s b = disk s (unat b)"
    using bread_run_ok [OF log_invD(1) [OF s(1)] assms(2)] s(2) by auto
  show ?thesis using t s(2) log_inv_keep [OF s(1) t(2-5) t(14)] io_frame_keep [OF t(3-5)] by (intro that [of i t]) simp_all
qed

lemma tx_release:
  fixes s t :: "'z fs_state_scheme"
  assumes "tx k s" "log_inv t" "held t = {i}" "fs_keep s t" "lbs t = lbs s" "lh_n t = lh_n s"
    "b_dirty (bufs t i) \<or> b_data (bufs t i) = disk t (unat (b_blockno (bufs t i)))"
  obtains u where "brelse i t = Inr ((), u)" "tx k u" "blk u = blk t" "fs_keep s u"
proof -
  have i: "i \<in> held t" using assms(3) by simp
  obtain u where u: "brelse i t = Inr ((), u)" "bio_inv u" "io_frame t u" "disk u = disk t" "wlog u = wlog t" "held u = held t - {i}"
    "blk u = blk t" "bufs u = (bufs t)(i := (bufs t i)\<lparr>b_refcnt := 0\<rparr>)" "dirties u = dirties t" "dblocks u = dblocks t"
    by (rule brelse_run_ok [OF log_invD(1) [OF assms(2)] i assms(7)])
  note k = io_frame_keep [OF u(3-5)]
  have "tx k u" using assms(1,3,4,6) log_inv_keep [OF assms(2) u(2-5) u(10)] u(6) k by (simp add: tx_def fs_keep_def)
  then show ?thesis using u(1,7) fs_keep_trans [OF assms(4) k(1)] by (intro that)
qed

lemma tx_edit:
  fixes s t :: "'z fs_state_scheme"
  assumes "tx (Suc k) s" "log_inv t" "held t = {i}" "fs_keep s t" "lbs t = lbs s" "lh_n t = lh_n s" "blk t = blk s"
    "unat (b_blockno (bufs t i)) \<notin> larea s"
  obtains u where "thn (set_bdata i d) (thn (log_write i) (thn (brelse i) m)) t = m u" "tx k u"
    "blk u = (blk s)(b_blockno (bufs t i) := d)" "fs_keep s u"
proof -
  let ?b = "b_blockno (bufs t i)"
  have i: "i \<in> held t" using assms(3) by simp
  obtain t1 where t1: "set_bdata i d t = Inr ((), t1)" "bio_inv t1" "io_frame t t1" "disk t1 = disk t" "wlog t1 = wlog t" "held t1 = held t"
    "blk t1 = (blk t)(b_blockno (bufs t i) := d)" "bufs t1 = (bufs t)(i := (bufs t i)\<lparr>b_data := d\<rparr>)" "dirties t1 = dirties t"
    "dblocks t1 = dblocks t" by (rule set_bdata_run_ok [OF log_invD(1) [OF assms(2)] i])
  have l1: "log_inv t1" by (rule log_inv_keep [OF assms(2) t1(2-5) t1(10)])
  note k1 = io_frame_keep [OF t1(3-5)] fs_keep_trans [OF assms(4) io_frame_keep(1) [OF t1(3-5)]]
  have n1: "lh_n t1 < 29" "lh_n t1 < lg_size t1 - 1" "1 \<le> lg_outstanding t1" "unat (b_blockno (bufs t1 i)) \<notin> larea t1"
    using assms(1,6,8) k1 t1(8) by (simp_all add: tx_def fs_keep_def)
  obtain t2 where t2: "log_write i t1 = Inr ((), t2)" "log_inv t2" "held t2 = held t1" "blk t2 = blk t1"
    "bufs t2 = (bufs t1)(i := (bufs t1 i)\<lparr>b_dirty := True\<rparr>)"
    "lbs t2 = (if b_blockno (bufs t1 i) \<in> set (lbs t1) then lbs t1 else lbs t1 @ [b_blockno (bufs t1 i)])"
    "t2 = t1\<lparr>bufs := bufs t2, lh_n := lh_n t2, lh_block := lh_block t2\<rparr>"
    by (rule log_write_run_ok [OF l1 _ n1]) (use t1(6) i in simp)
  have i2: "i \<in> held t2" using i t1(6) t2(3) by simp
  obtain u where u: "brelse i t2 = Inr ((), u)" "bio_inv u" "io_frame t2 u" "disk u = disk t2" "wlog u = wlog t2" "held u = held t2 - {i}"
    "blk u = blk t2" "bufs u = (bufs t2)(i := (bufs t2 i)\<lparr>b_refcnt := 0\<rparr>)" "dirties u = dirties t2" "dblocks u = dblocks t2"
    by (rule brelse_run_ok [OF log_invD(1) [OF t2(2)] i2]) (use t2(5) in simp)
  note ku = io_frame_keep [OF u(3-5)]
  obtain B n L where "t2 = t1\<lparr>bufs := B, lh_n := n, lh_block := L\<rparr>" using t2(7) by blast
  then have k2: "fs_keep t1 t2" by (simp add: fs_keep_def larea_def)
  have "length (lbs t2) \<le> length (lbs t1) + 1" using t2(6) by simp
  then have "lh_n t2 \<le> lh_n t1 + 1" using log_invD(4) [OF t2(2)] log_invD(4) [OF l1] by (simp add: lbs_def)
  moreover have "held u = {}" using u(6) t2(3) t1(6) assms(3) by simp
  ultimately have "tx k u" using assms(1,6) k1 k2 ku log_inv_keep [OF t2(2) u(2-5) u(10)] by (simp add: tx_def fs_keep_def)
  moreover have "fs_keep s u" using k1(5) k2 ku(1) fs_keep_trans by blast
  ultimately show ?thesis using that [of u] t1(1,7) t2(1,4) u(1,7) assms(7) by simp
qed

section \<open>The free-block bitmap\<close>

definition bm_used :: "'z fs_state_scheme \<Rightarrow> nat \<Rightarrow> bool" where
  "bm_used s b \<longleftrightarrow> blk s (BBLOCK (of_nat b) (sb s)) (b mod BPB div 8) AND push_bit (b mod BPB mod 8) 1 \<noteq> 0"

definition nblks :: "'z fs_state_scheme \<Rightarrow> nat" where
  "nblks s = unat (sb_size (sb s))"

text \<open>
  The layout \<open>mkfs\<close> makes: the bitmap lies on the disk, outside the log, and its bits are set for the
  log's blocks and its own.
\<close>

definition bm_geo :: "'z fs_state_scheme \<Rightarrow> bool" where
  "bm_geo s \<longleftrightarrow> nblks s \<le> disksize s \<and> unat (sb_bmapstart (sb s)) + nblks s div BPB < 2 ^ 32 \<and>
     (\<forall>b<nblks s. unat (BBLOCK (of_nat b) (sb s)) < disksize s \<and> unat (BBLOCK (of_nat b) (sb s)) \<notin> larea s) \<and>
     (\<forall>b<nblks s. \<not> bm_used s b \<longrightarrow> b \<notin> larea s \<and> (\<forall>c<nblks s. BBLOCK (of_nat c) (sb s) \<noteq> of_nat b))"

lemma nblks_less: "nblks s < 2 ^ 32"
  using unsigned_less [of "sb_size (sb s)"] by (simp add: nblks_def)

lemma BBLOCK_nat: "b < 2 ^ 32 \<Longrightarrow> BBLOCK (of_nat b) q = of_nat (b div BPB) + sb_bmapstart q"
proof -
  assume b: "b < 2 ^ 32"
  then have "b div BPB < 2 ^ 32" by (meson div_le_dividend le_less_trans)
  then have "unat (of_nat b div of_nat BPB :: u32) = unat (of_nat (b div BPB) :: u32)"
    using b by (simp add: unat_div unat_of_nat)
  then have "(of_nat b div of_nat BPB :: u32) = of_nat (b div BPB)" by (simp add: word_unat_eq_iff)
  then show ?thesis by (simp add: BBLOCK_def)
qed

lemma BBLOCK_inj:
  assumes "bm_geo s" "b < nblks s" "c < nblks s"
  shows "BBLOCK (of_nat b) (sb s) = BBLOCK (of_nat c) (sb s) \<longleftrightarrow> b div BPB = c div BPB"
proof -
  have "b div BPB < 2 ^ 32" "c div BPB < 2 ^ 32" using assms(2,3) nblks_less [of s] by (meson div_le_dividend le_less_trans less_trans)+
  then have "(of_nat (b div BPB) :: u32) = of_nat (c div BPB) \<longleftrightarrow> b div BPB = c div BPB"
    by (simp add: word_unat_eq_iff unat_of_nat)
  moreover have "b < 2 ^ 32" "c < 2 ^ 32" using assms(2,3) nblks_less [of s] by linarith+
  ultimately show ?thesis by (simp add: BBLOCK_nat)
qed

lemma thn_ret_unit: "thn m (ret ()) = (m :: ('s, unit) kop)"
  by (rule ext) (simp add: thn_def bnd_def ret_def split: sum.splits)

lemma bzero_run:
  assumes "tx (Suc k) s" "unat b < disksize s" "unat b \<notin> larea s"
  obtains t where "bzero 1 b s = Inr ((), t)" "tx k t" "blk t = (blk s)(b := (\<lambda>_. 0))" "fs_keep s t"
proof -
  have "Suc k \<le> 29" using assms(1) log_invD(4) [of s] by (auto simp: tx_def)
  then obtain i t where t: "bread 1 b s = Inr (i, t)" "log_inv t" "held t = {i}" "b_blockno (bufs t i) = b" "b_data (bufs t i) = blk s b"
    "blk t = blk s" "fs_keep s t" "lbs t = lbs s" "lh_n t = lh_n s" "b_dirty (bufs t i) \<or> blk s b = disk s (unat b)"
    using tx_read [OF assms(1,2)] by blast
  obtain u where u: "thn (set_bdata i (\<lambda>_. 0)) (thn (log_write i) (thn (brelse i) (ret ()))) t = ret () u" "tx k u"
    "blk u = (blk s)(b_blockno (bufs t i) := (\<lambda>_. 0))" "fs_keep s u"
    by (rule tx_edit [OF assms(1) t(2,3,7,8,9,6)]) (use assms(3) t(4) in simp)
  show ?thesis using that [of u] u t(1,4) by (simp add: bzero_def thn_ret_unit) (simp add: ret_def)
qed

definition taken :: "nat \<Rightarrow> bview \<Rightarrow> bview" where
  "taken bi d = d(bi div 8 := d (bi div 8) OR push_bit (bi mod 8) 1)"

lemma bm_same:
  assumes "fs_keep s u" "blk u = blk s"
  shows "bm_used u = bm_used s" "nblks u = nblks s" "bm_geo u = bm_geo s"
  using assms by (simp_all add: fs_keep_def bm_used_def [abs_def] nblks_def bm_geo_def)

lemma bm_used_at:
  assumes "bm_geo s" "k * BPB < nblks s" "bi < BPB" "k * BPB + bi < nblks s"
  shows "BBLOCK (of_nat (k * BPB + bi)) (sb s) = BBLOCK (of_nat (k * BPB)) (sb s)"
    "bm_used s (k * BPB + bi) \<longleftrightarrow> blk s (BBLOCK (of_nat (k * BPB)) (sb s)) (bi div 8) AND push_bit (bi mod 8) 1 \<noteq> 0"
proof -
  have "(k * BPB + bi) div BPB = k" using assms(3) by simp
  then show a: "BBLOCK (of_nat (k * BPB + bi)) (sb s) = BBLOCK (of_nat (k * BPB)) (sb s)"
    using BBLOCK_inj [OF assms(1,4,2)] by simp
  have m: "(k * BPB + bi) mod BPB = bi" using assms(3) by simp
  show "bm_used s (k * BPB + bi) \<longleftrightarrow> blk s (BBLOCK (of_nat (k * BPB)) (sb s)) (bi div 8) AND push_bit (bi mod 8) 1 \<noteq> 0"
    unfolding bm_used_def a m ..
qed

lemma balloc_found:
  assumes "tx 2 s" "bm_geo s" "b < nblks s" "\<not> bm_used s b" "log_inv t" "held t = {i}" "b_blockno (bufs t i) = BBLOCK (of_nat b) (sb s)"
    "blk t = blk s" "fs_keep s t" "lbs t = lbs s" "lh_n t = lh_n s"
  shows "\<exists>u. thn (set_bdata i d) (thn (log_write i) (thn (brelse i) (thn (bzero 1 (of_nat b)) (ret x)))) t = Inr (x, u) \<and>
    tx 0 u \<and> fs_keep s u \<and> blk u = (blk s)(BBLOCK (of_nat b) (sb s) := d, of_nat b := (\<lambda>_. 0))"
proof -
  let ?B = "BBLOCK (of_nat b) (sb s)"
  have g: "unat ?B \<notin> larea s" "b \<notin> larea s" "b < disksize s" using assms(2-4) by (auto simp: bm_geo_def)
  have b: "unat (of_nat b :: u32) = b" using assms(3) nblks_less [of s] by (simp add: unat_of_nat)
  have s2: "tx (Suc 1) s" using assms(1) by (simp add: numeral_2_eq_2)
  obtain u where u: "thn (set_bdata i d) (thn (log_write i) (thn (brelse i) (thn (bzero 1 (of_nat b)) (ret x)))) t =
      thn (bzero 1 (of_nat b)) (ret x) u" "tx 1 u" "blk u = (blk s)(?B := d)" "fs_keep s u"
    using tx_edit [OF s2 assms(5,6,9,10,11,8)] g(1) assms(7) by metis
  have u1: "tx (Suc 0) u" using u(2) by simp
  obtain w where "bzero 1 (of_nat b) u = Inr ((), w)" "tx 0 w" "blk w = (blk u)(of_nat b := (\<lambda>_. 0))" "fs_keep u w"
    by (rule bzero_run [OF u1, of "of_nat b"]) (use g b u(4) in \<open>simp_all add: fs_keep_def\<close>)
  then show ?thesis using u fs_keep_trans [OF u(4)] by (intro exI [of _ w]) (simp add: ret_def)
qed

lemma balloc_scan_run:
  assumes "tx 2 s" "bm_geo s" "n * BPB \<ge> nblks s" "k \<le> n" "\<forall>b<k * BPB. b < nblks s \<longrightarrow> bm_used s b" "\<exists>b<nblks s. \<not> bm_used s b"
    "n * BPB < nblks s + BPB"
  shows "\<exists>b t. balloc_scan 1 (map (\<lambda>k. k * BPB) [k..<n]) s = Inr (of_nat b, t) \<and> b < nblks s \<and> \<not> bm_used s b \<and> (\<forall>c<b. bm_used s c) \<and>
    tx 0 t \<and> fs_keep s t \<and>
    blk t = (blk s)(BBLOCK (of_nat b) (sb s) := taken (b mod BPB) (blk s (BBLOCK (of_nat b) (sb s))), of_nat b := (\<lambda>_. 0))"
  using assms
proof (induction "n - k" arbitrary: k s)
  case 0
  then have "k = n" by simp
  then show ?case using "0.prems"(3,5,6) by (meson less_le_trans)
next
  case (Suc m)
  let ?B = "BBLOCK (of_nat (k * BPB)) (sb s)" let ?d = "blk s ?B"
  have kn: "k < n" using Suc.hyps(2) by simp
  then have "Suc k * BPB \<le> n * BPB" by (intro mult_le_mono1) simp
  then have base: "k * BPB < nblks s" using Suc.prems(7) by simp
  have mk: "m = n - Suc k" using Suc.hyps(2) by simp
  have lst: "map (\<lambda>k. k * BPB) [k..<n] = k * BPB # map (\<lambda>k. k * BPB) [Suc k..<n]" using kn by (simp add: upt_conv_Cons)
  have dsk: "unat ?B < disksize s" using Suc.prems(2) base by (auto simp: bm_geo_def)
  obtain i t where t: "bread 1 ?B s = Inr (i, t)" "log_inv t" "held t = {i}" "b_blockno (bufs t i) = ?B" "b_data (bufs t i) = ?d"
    "blk t = blk s" "fs_keep s t" "lbs t = lbs s" "lh_n t = lh_n s" "b_dirty (bufs t i) \<or> ?d = disk s (unat ?B)"
    by (rule tx_read [OF Suc.prems(1) dsk], simp)
  define p where "p bi \<longleftrightarrow> k * BPB + bi < nblks s \<and> ?d (bi div 8) AND push_bit (bi mod 8) 1 = 0" for bi
  note at = bm_used_at [OF Suc.prems(2) base]
  have pe: "(\<lambda>bi. k * BPB + bi < unat (sb_size (sb s)) \<and> ?d (bi div 8) AND push_bit (bi mod 8) 1 = 0) = p"
    by (rule ext) (simp only: p_def nblks_def)
  have scan: "balloc_scan 1 (map (\<lambda>k. k * BPB) [k..<n]) s = (case first_idx p BPB of
      Some bi \<Rightarrow> thn (set_bdata i (taken bi ?d)) (thn (log_write i) (thn (brelse i)
        (thn (bzero 1 (of_nat (k * BPB + bi))) (ret (of_nat (k * BPB + bi))))))
    | None \<Rightarrow> thn (brelse i) (balloc_scan 1 (map (\<lambda>k. k * BPB) [Suc k..<n]))) t"
    unfolding lst balloc_scan.simps rd_bnd by (simp only: bnd_Inr t(1,5) bdata_def rd_bnd pe taken_def)
  show ?case
  proof (cases "first_idx p BPB")
    case None
    obtain u where u: "brelse i t = Inr ((), u)" "tx 2 u" "blk u = blk t" "fs_keep s u"
      by (rule tx_release [OF Suc.prems(1) t(2,3,7,8,9)]) (use t(4,5,7,10) in \<open>auto simp: fs_keep_def\<close>)
    have bu: "blk u = blk s" using u(3) t(6) by simp
    note same = bm_same [OF u(4) bu]
    have "\<forall>b<Suc k * BPB. b < nblks s \<longrightarrow> bm_used s b"
    proof (intro allI impI)
      fix b assume b: "b < Suc k * BPB" "b < nblks s"
      show "bm_used s b"
      proof (cases "b < k * BPB")
        case False
        then have e: "b = k * BPB + (b - k * BPB)" and l: "b - k * BPB < BPB" using b(1) by simp_all
        from None l have "\<not> p (b - k * BPB)" by (simp add: first_idx_None)
        then show ?thesis using at(2) [OF l] b(2) e by (simp add: p_def)
      qed (use Suc.prems(5) b in blast)
    qed
    then obtain b w where "balloc_scan 1 (map (\<lambda>k. k * BPB) [Suc k..<n]) u = Inr (of_nat b, w)" "b < nblks s" "\<not> bm_used s b"
      "\<forall>c<b. bm_used s c" "tx 0 w" "fs_keep u w"
      "blk w = (blk s)(BBLOCK (of_nat b) (sb u) := taken (b mod BPB) (blk s (BBLOCK (of_nat b) (sb u))), of_nat b := (\<lambda>_. 0))"
      using Suc.hyps(1) [OF mk u(2)] Suc.prems(2,3,6,7) kn same bu by auto
    moreover have "sb u = sb s" using u(4) by (simp add: fs_keep_def)
    ultimately show ?thesis using u(1) fs_keep_trans [OF u(4)] unfolding scan None
      by (intro exI [of _ b] exI [of _ w]) simp
  next
    case (Some bi)
    note f = first_idx_SomeD [OF Some]
    let ?b = "k * BPB + bi"
    have bi: "bi < BPB" "p bi" "\<forall>j<bi. \<not> p j" using f by blast+
    have b: "?b < nblks s" "\<not> bm_used s ?b" "BBLOCK (of_nat ?b) (sb s) = ?B" "?b mod BPB = bi" using at [OF bi(1)] bi(1,2) by (auto simp: p_def)
    have "bm_used s c" if "c < ?b" for c
    proof (cases "c < k * BPB")
      case True
      then show ?thesis using Suc.prems(5) b(1) by simp
    next
      case False
      then have e: "c = k * BPB + (c - k * BPB)" and l: "c - k * BPB < bi" using that by simp_all
      then show ?thesis using at(2) [of "c - k * BPB"] bi(1,3) b(1) that by (auto simp: p_def)
    qed
    moreover obtain u where "thn (set_bdata i (taken bi ?d)) (thn (log_write i) (thn (brelse i) (thn (bzero 1 (of_nat ?b)) (ret (of_nat ?b :: u32))))) t =
        Inr (of_nat ?b, u)" "tx 0 u" "fs_keep s u" "blk u = (blk s)(?B := taken bi ?d, of_nat ?b := (\<lambda>_. 0))"
      using balloc_found [OF Suc.prems(1,2) b(1,2) t(2,3) _ t(6,7,8,9), of "taken bi ?d" "of_nat ?b :: u32"] t(4) unfolding b(3) by auto
    ultimately show ?thesis using b unfolding scan Some option.case
      by (intro exI [of _ ?b] exI [of _ u] conjI allI impI) (simp_all only: b(3,4) simp_thms)
  qed
qed

lemma balloc_scan_full:
  assumes "tx 2 s" "bm_geo s" "k \<le> n" "\<forall>b<nblks s. bm_used s b" "n * BPB < nblks s + BPB"
  shows "balloc_scan 1 (map (\<lambda>k. k * BPB) [k..<n]) s = Inl (Panic ''balloc: out of blocks'')"
  using assms
proof (induction "n - k" arbitrary: k s)
  case 0
  then show ?case by (simp add: kerror_def)
next
  case (Suc m)
  let ?B = "BBLOCK (of_nat (k * BPB)) (sb s)" let ?d = "blk s ?B"
  have kn: "k < n" using Suc.hyps(2) by simp
  then have "Suc k * BPB \<le> n * BPB" by (intro mult_le_mono1) simp
  then have base: "k * BPB < nblks s" using Suc.prems(5) by simp
  have mk: "m = n - Suc k" using Suc.hyps(2) by simp
  have lst: "map (\<lambda>k. k * BPB) [k..<n] = k * BPB # map (\<lambda>k. k * BPB) [Suc k..<n]" using kn by (simp add: upt_conv_Cons)
  have dsk: "unat ?B < disksize s" using Suc.prems(2) base by (auto simp: bm_geo_def)
  obtain i t where t: "bread 1 ?B s = Inr (i, t)" "log_inv t" "held t = {i}" "b_blockno (bufs t i) = ?B" "b_data (bufs t i) = ?d"
    "blk t = blk s" "fs_keep s t" "lbs t = lbs s" "lh_n t = lh_n s" "b_dirty (bufs t i) \<or> ?d = disk s (unat ?B)"
    by (rule tx_read [OF Suc.prems(1) dsk], simp)
  have none: "first_idx (\<lambda>bi. k * BPB + bi < unat (sb_size (sb s)) \<and> ?d (bi div 8) AND push_bit (bi mod 8) 1 = 0) BPB = None"
    using bm_used_at(2) [OF Suc.prems(2) base] Suc.prems(4) unfolding first_idx_None nblks_def by blast
  obtain u where u: "brelse i t = Inr ((), u)" "tx 2 u" "blk u = blk t" "fs_keep s u"
    by (rule tx_release [OF Suc.prems(1) t(2,3,7,8,9)]) (use t(4,5,7,10) in \<open>auto simp: fs_keep_def\<close>)
  have bu: "blk u = blk s" using u(3) t(6) by simp
  have "balloc_scan 1 (map (\<lambda>k. k * BPB) [k..<n]) s = thn (brelse i) (balloc_scan 1 (map (\<lambda>k. k * BPB) [Suc k..<n])) t"
    unfolding lst balloc_scan.simps rd_bnd by (simp only: bnd_Inr t(1,5) bdata_def rd_bnd none option.case)
  moreover have "balloc_scan 1 (map (\<lambda>k. k * BPB) [Suc k..<n]) u = Inl (Panic ''balloc: out of blocks'')"
    using Suc.hyps(1) [OF mk u(2)] Suc.prems(2-5) kn bm_same [OF u(4) bu] by simp
  ultimately show ?case using u(1) by simp
qed

lemma and_push_bit: "x AND push_bit k 1 = 0 \<longleftrightarrow> \<not> bit x k" for x :: u8
  by (simp add: push_bit_of_1 and_exp_eq_0_iff_not_bit)

lemma bm_used_bit: "bm_used s b \<longleftrightarrow> bit (blk s (BBLOCK (of_nat b) (sb s)) (b mod BPB div 8)) (b mod BPB mod 8)"
  by (simp only: bm_used_def and_push_bit not_not)

lemma bit_index: "k < 8 \<Longrightarrow> 8 * j + k = b \<longleftrightarrow> b div 8 = j \<and> b mod 8 = (k :: nat)"
  by auto

text \<open>A bitmap block with one bit changed: the other bits, of this block and the others, stay.\<close>

lemma bm_used_edit:
  assumes "bm_geo s" "b < nblks s" "c < nblks s" "sb t = sb s"
    "blk t (BBLOCK (of_nat c) (sb s)) = ((blk s)(BBLOCK (of_nat b) (sb s) := d)) (BBLOCK (of_nat c) (sb s))"
    "\<And>j k. k < 8 \<Longrightarrow> bit (d j) k = (if 8 * j + k = b mod BPB then v else bit (blk s (BBLOCK (of_nat b) (sb s)) j) k)"
  shows "bm_used t c = (if c = b then v else bm_used s c)"
proof (cases "c div BPB = b div BPB")
  case True
  then have e: "BBLOCK (of_nat c) (sb s) = BBLOCK (of_nat b) (sb s)" using BBLOCK_inj [OF assms(1,3,2)] by simp
  have "c = b \<longleftrightarrow> c mod BPB = b mod BPB" using True by (metis div_mult_mod_eq)
  moreover have "8 * (c mod BPB div 8) + c mod BPB mod 8 = c mod BPB" by simp
  ultimately show ?thesis using assms(5) assms(6) [of "c mod BPB mod 8" "c mod BPB div 8"] unfolding bm_used_bit assms(4) e by simp
next
  case False
  then have "BBLOCK (of_nat c) (sb s) \<noteq> BBLOCK (of_nat b) (sb s)" "c \<noteq> b" using BBLOCK_inj [OF assms(1,3,2)] by auto
  then show ?thesis using assms(5) unfolding bm_used_bit assms(4) by simp
qed

lemma bit_taken: "k < 8 \<Longrightarrow> bit (taken bi d j) k = (if 8 * j + k = bi then True else bit (d j) k)"
  unfolding taken_def by (auto simp: bit_or_iff push_bit_of_1 bit_exp_iff bit_index)

text \<open>
  C19: the block allocator takes the first block whose bit in the bitmap is clear. In a transaction with room
  for two blocks, \<open>balloc\<close> returns a block that was free, all lower ones being in use; afterwards its
  bit is set and no other bit has changed, the block reads as zeros, and every block other than it and
  its bitmap block is as before; nothing has reached the disk. With no free block it panics.
\<close>

theorem balloc_spec:
  assumes "tx 2 s" "bm_geo s"
  shows "if \<exists>b<nblks s. \<not> bm_used s b
    then \<exists>b t. balloc 1 s = Inr (of_nat b, t) \<and> b < nblks s \<and> \<not> bm_used s b \<and> (\<forall>c<b. bm_used s c) \<and>
      (\<forall>c<nblks s. bm_used t c \<longleftrightarrow> bm_used s c \<or> c = b) \<and> blk t (of_nat b) = (\<lambda>_. 0) \<and>
      (\<forall>a. a \<noteq> of_nat b \<and> a \<noteq> BBLOCK (of_nat b) (sb s) \<longrightarrow> blk t a = blk s a) \<and> disk t = disk s \<and> wlog t = wlog s
    else balloc 1 s = Inl (Panic ''balloc: out of blocks'')"
proof -
  let ?n = "(nblks s + BPB - 1) div BPB"
  have n: "?n * BPB < nblks s + BPB" "nblks s \<le> ?n * BPB"
    using div_times_less_eq_dividend [of "nblks s + BPB - 1" BPB] dividend_less_div_times [of BPB "nblks s + BPB - 1"] by linarith+
  have run: "balloc 1 s = balloc_scan 1 (map (\<lambda>k. k * BPB) [0..<?n]) s" unfolding balloc_def rd_bnd nblks_def ..
  show ?thesis
  proof (cases "\<exists>b<nblks s. \<not> bm_used s b")
    case True
    obtain b t where t: "balloc 1 s = Inr (of_nat b, t)" "b < nblks s" "\<not> bm_used s b" "\<forall>c<b. bm_used s c" "fs_keep s t"
      "blk t = (blk s)(BBLOCK (of_nat b) (sb s) := taken (b mod BPB) (blk s (BBLOCK (of_nat b) (sb s))), of_nat b := (\<lambda>_. 0))"
      using balloc_scan_run [OF assms n(2) le0 _ True n(1)] unfolding run by auto
    have "bm_used t c = (if c = b then True else bm_used s c)" if "c < nblks s" for c
    proof (rule bm_used_edit [OF assms(2) t(2) that, where d = "taken (b mod BPB) (blk s (BBLOCK (of_nat b) (sb s)))"])
      show "sb t = sb s" using t(5) by (simp add: fs_keep_def)
      have "BBLOCK (of_nat c) (sb s) \<noteq> of_nat b" using assms(2) t(2,3) that by (auto simp: bm_geo_def)
      then show "blk t (BBLOCK (of_nat c) (sb s)) = ((blk s)(BBLOCK (of_nat b) (sb s) :=
        taken (b mod BPB) (blk s (BBLOCK (of_nat b) (sb s))))) (BBLOCK (of_nat c) (sb s))" unfolding t(6) by simp
    qed (rule bit_taken)
    moreover have "disk t = disk s" "wlog t = wlog s" using t(5) by (simp_all add: fs_keep_def)
    ultimately show ?thesis unfolding if_P [OF True] using t(1-4,6) by (intro exI [of _ b] exI [of _ t]) auto
  next
    case False
    then show ?thesis using balloc_scan_full [OF assms le0 _ n(1)] unfolding run by auto
  qed
qed

text \<open>A disk whose bitmap has the first 64 blocks in use.\<close>

definition alloc_st :: trap_state where
  "alloc_st = boot0\<lparr>lg_outstanding := 1, disk := (\<lambda>_ _. 0)(58 := (\<lambda>k. if k < 8 then 255 else 0))\<rparr>"

lemma alloc_st_sel [simp]: "mach alloc_st = boot_mach" "bufs alloc_st = (\<lambda>_. zero_buf)" "lru alloc_st = rev [0..<NBUF]"
  "disk alloc_st = (\<lambda>_ _. 0)(58 := (\<lambda>k. if k < 8 then 255 else 0))" "disksize alloc_st = 1000" "lg_start alloc_st = 2"
  "lg_size alloc_st = 30" "lg_dev alloc_st = 1" "lh_n alloc_st = 0" "lg_outstanding alloc_st = 1" "held alloc_st = {}" "sb alloc_st = sb boot0"
  by (simp_all add: alloc_st_def held_def)

lemma alloc_st_bio: "bio_inv alloc_st" "dirties alloc_st = {}" "blk alloc_st = (\<lambda>b. disk alloc_st (unat b))"
proof -
  have "bio_ok alloc_st \<and> dirties alloc_st = {} \<and> blk alloc_st = (\<lambda>b. disk alloc_st (unat b))"
    by (rule empty_cache_ok) (simp_all add: lessThan_atLeast0)
  then show "bio_inv alloc_st" "dirties alloc_st = {}" "blk alloc_st = (\<lambda>b. disk alloc_st (unat b))" by (simp_all add: bio_inv_def)
qed

lemma alloc_st_tx: "tx 2 alloc_st"
  using alloc_st_bio by (simp add: tx_def log_inv_def log_geo_def lbs_def dblocks_def)

lemma alloc_st_used: assumes "b < 1000" shows "bm_used alloc_st b \<longleftrightarrow> b < 64"
proof -
  have "BBLOCK (of_nat b) (sb alloc_st) = 58" using assms BBLOCK_nat [of b "sb alloc_st"] by simp
  moreover have "b mod BPB = b" using assms by simp
  moreover have "bit (255 :: u8) (b mod 8)"
  proof -
    have "(255 :: u8) = mask 8" by (simp add: mask_eq_exp_minus_1)
    then show ?thesis by (simp only: bit_mask_iff) simp
  qed
  moreover have "b div 8 < 8 \<longleftrightarrow> b < 64" by (simp add: div_less_iff_less_mult)
  ultimately show ?thesis unfolding bm_used_bit alloc_st_bio(3) by simp
qed

lemma alloc_st_geo: "bm_geo alloc_st"
proof -
  have n: "nblks alloc_st = 1000" by (simp add: nblks_def)
  have B: "BBLOCK (of_nat b) (sb alloc_st) = 58" if "b < 1000" for b using that BBLOCK_nat [of b "sb alloc_st"] by simp
  have "(58 :: u32) \<noteq> of_nat b" if "\<not> b < 64" "b < 1000" for b
  proof
    assume "(58 :: u32) = of_nat b"
    then have "unat (58 :: u32) = unat (of_nat b :: u32)" by simp
    then show False using that by (simp add: unat_of_nat)
  qed
  then show ?thesis unfolding bm_geo_def n using B alloc_st_used by (auto simp: larea_def)
qed

theorem balloc_spec_witness:
  "\<exists>t. balloc 1 alloc_st = Inr (64, t) \<and> blk t 64 = (\<lambda>_. 0) \<and> bm_used t 64"
proof -
  have n: "nblks alloc_st = 1000" by (simp add: nblks_def)
  have ex: "\<exists>b<1000. \<not> bm_used alloc_st b" using alloc_st_used by (intro exI [of _ 64]) simp
  obtain b t where t: "balloc 1 alloc_st = Inr (of_nat b, t)" "b < 1000" "\<not> bm_used alloc_st b" "\<forall>c<b. bm_used alloc_st c"
    "\<forall>c<1000. bm_used t c \<longleftrightarrow> bm_used alloc_st c \<or> c = b" "blk t (of_nat b) = (\<lambda>_. 0)"
    using balloc_spec [OF alloc_st_tx alloc_st_geo] unfolding n if_P [OF ex] by blast
  have "\<not> b < 64" using t(2,3) alloc_st_used by simp
  moreover have "\<not> 64 < b" using t(4) alloc_st_used [of 64] by auto
  ultimately have "b = 64" by simp
  then show ?thesis using t by auto
qed

end
