(* ===== verification/Dinode_Spec.thy ===== *)
theory Dinode_Spec
  imports Inode_Spec
begin

text \<open>
  On-disk inodes: the sixteen-byte header and the block addresses that \<open>iupdate\<close> writes into an inode's
  64 bytes of its block are what \<open>ilock\<close> reads back, and the other seven inodes of the block keep theirs.
\<close>

section \<open>The layout\<close>

text \<open>The fields that live on the disk, taken from \<open>i\<close>, the others from \<open>j\<close>.\<close>

definition stored :: "inode \<Rightarrow> inode \<Rightarrow> inode" where
  "stored i j = j\<lparr>i_type := i_type i, i_major := i_major i, i_minor := i_minor i, i_nlink := i_nlink i, i_size := i_size i,
     i_addrs := (\<lambda>k. if k \<le> NDIRECT then i_addrs i k else i_addrs j k)\<rparr>"

lemma fold_addrs:
  "ld32 (fold (\<lambda>k d. st32 d (off + 12 + 4 * k) (a k)) [0..<n] d) (off + 12 + 4 * j) =
     (if j < n then a j else ld32 d (off + 12 + 4 * j))"
  by (induction n) (auto simp: ld32_st32_other less_Suc_eq)

lemma fold_addrs_other:
  "b + 4 \<le> off + 12 \<or> off + 12 + 4 * n \<le> b \<Longrightarrow>
   ld32 (fold (\<lambda>k d. st32 d (off + 12 + 4 * k) (a k)) [0..<n] d) b = ld32 d b"
  by (induction n) (auto simp: ld32_st32_other)

lemma fold_addrs_other16:
  "b + 2 \<le> off + 12 \<or> off + 12 + 4 * n \<le> b \<Longrightarrow>
   ld16 (fold (\<lambda>k d. st32 d (off + 12 + 4 * k) (a k)) [0..<n] d) b = ld16 d b"
  by (induction n) (auto simp: ld16_st32_other)

lemma get_put_dinode: "get_dinode off (put_dinode i off d) j = stored i j"
  unfolding get_dinode_def put_dinode_def put_addrs_def stored_def
  by (simp add: fold_addrs fold_addrs_other fold_addrs_other16 mem_simps cong: if_cong del: upt_Suc)

lemma get_put_other:
  assumes "off + 64 \<le> off' \<or> off' + 64 \<le> off"
  shows "get_dinode off' (put_dinode i off d) j = get_dinode off' d j"
proof -
  have a: "ld32 (put_dinode i off d) (off' + 12 + 4 * k) = ld32 d (off' + 12 + 4 * k)" if "k \<le> NDIRECT" for k
    using assms that unfolding put_dinode_def put_addrs_def by (subst fold_addrs_other) (auto simp: mem_simps)
  have b: "ld16 (put_dinode i off d) (off' + k) = ld16 d (off' + k)" if "k \<le> 6" for k
    using assms that unfolding put_dinode_def put_addrs_def by (subst fold_addrs_other16) (auto simp: mem_simps)
  have c: "ld32 (put_dinode i off d) (off' + 8) = ld32 d (off' + 8)"
    using assms unfolding put_dinode_def put_addrs_def by (subst fold_addrs_other) (auto simp: mem_simps)
  show ?thesis using b [of 0] b [of 2] b [of 4] b [of 6] c unfolding get_dinode_def by (simp add: a cong: if_cong)
qed

lemma dinode_off_apart:
  "dinode_off m \<noteq> dinode_off n \<Longrightarrow> dinode_off n + 64 \<le> dinode_off m \<or> dinode_off m + 64 \<le> dinode_off n"
  by (auto simp: dinode_off_def)

section \<open>Storing and loading\<close>

lemma tx_cong:
  assumes "mach t = mach s" "bufs t = bufs s" "lru t = lru s" "\<forall>i. slocks t (SBuf i) = slocks s (SBuf i)" "disk t = disk s"
    "disksize t = disksize s" "lg_start t = lg_start s" "lg_size t = lg_size s" "lg_outstanding t = lg_outstanding s"
    "lg_dev t = lg_dev s" "lh_n t = lh_n s" "lh_block t = lh_block s"
  shows "tx k t = tx k s" "blk t = blk s"
proof -
  have h: "held t = held s" "dirties t = dirties s" using assms by (simp_all add: held_def dirties_def)
  then have "dblocks t = dblocks s" using assms by (simp add: dblocks_def)
  moreover have "calm t = calm s" using assms(1) unfolding calm_def by simp
  then have "bio_inv t = bio_inv s" using assms h by (simp add: bio_inv_def bio_ok_def)
  moreover have "lbs t = lbs s" "larea t = larea s" using assms by (simp_all add: lbs_def larea_def)
  ultimately show "tx k t = tx k s" using assms h by (simp add: tx_def log_inv_def log_geo_def)
  show "blk t = blk s" by (rule blk_cong) (simp_all add: assms)
qed

lemma iupdate_run:
  assumes "tx 1 s" "i_dev (icache s ip) = 1" "b = IBLOCK (i_inum (icache s ip)) (sb s)" "unat b < disksize s" "unat b \<notin> larea s"
  obtains t where "iupdate ip s = Inr ((), t)" "tx 0 t" "fs_keep s t"
    "blk t = (blk s)(b := put_dinode (icache s ip) (dinode_off (i_inum (icache s ip))) (blk s b))"
proof -
  let ?i = "icache s ip"
  have s1: "tx (Suc 0) s" using assms(1) by simp
  obtain i t where t: "bread 1 b s = Inr (i, t)" "log_inv t" "held t = {i}" "b_blockno (bufs t i) = b" "b_data (bufs t i) = blk s b"
    "blk t = blk s" "fs_keep s t" "lbs t = lbs s" "lh_n t = lh_n s" "b_dirty (bufs t i) \<or> blk s b = disk s (unat b)"
    by (rule tx_read [OF assms(1,4)], simp)
  let ?d = "put_dinode ?i (dinode_off (i_inum ?i)) (blk s b)"
  obtain u where u: "thn (set_bdata i ?d) (thn (log_write i) (thn (brelse i) (ret ()))) t = ret () u" "tx 0 u"
    "blk u = (blk s)(b_blockno (bufs t i) := ?d)" "fs_keep s u"
    by (rule tx_edit [OF s1 t(2,3,7,8,9,6)]) (use assms(5) t(4) in simp)
  have "iupdate ip s = Inr ((), u)"
    using u(1) t(1,5) assms(2,3) by (simp add: iupdate_def rd_inode_def bdata_def thn_ret_unit) (simp add: ret_def)
  then show ?thesis using that u t(4) by simp
qed

lemma icache_upd:
  fixes t :: "'z fs_state_scheme"
  shows "held (t\<lparr>icache := c\<rparr>) = held t" "blk (t\<lparr>icache := c\<rparr>) = blk t" "log_inv (t\<lparr>icache := c\<rparr>) = log_inv t"
    "lbs (t\<lparr>icache := c\<rparr>) = lbs t" "larea (t\<lparr>icache := c\<rparr>) = larea t"
proof -
  note s = bio_same [of "t\<lparr>icache := c\<rparr>" t]
  show "held (t\<lparr>icache := c\<rparr>) = held t" "blk (t\<lparr>icache := c\<rparr>) = blk t" by (rule s(1,3); simp)+
  show l: "lbs (t\<lparr>icache := c\<rparr>) = lbs t" "larea (t\<lparr>icache := c\<rparr>) = larea t" by (simp_all add: lbs_def larea_def)
  have "bio_inv (t\<lparr>icache := c\<rparr>) = bio_inv t" "dblocks (t\<lparr>icache := c\<rparr>) = dblocks t" by (rule s(2,5); simp)+
  then show "log_inv (t\<lparr>icache := c\<rparr>) = log_inv t" using l by (simp add: log_inv_def log_geo_def)
qed

lemma ilock_loads:
  fixes s :: "'z fs_state_scheme"
  assumes "tx 0 s" "i_ref (icache s ip) \<ge> 1" "\<not> i_valid (icache s ip)" "i_dev (icache s ip) = 1" "\<not> sl_locked (slocks s (SInode ip))"
    "b = IBLOCK (i_inum (icache s ip)) (sb s)" "unat b < disksize s"
    "v = (get_dinode (dinode_off (i_inum (icache s ip))) (blk s b) (icache s ip))\<lparr>i_valid := True\<rparr>" "i_type v \<noteq> 0"
  shows "\<exists>t. ilock (Some ip) s = Inr ((), t) \<and> icache t = (icache s)(ip := v) \<and> tx 0 t \<and> blk t = blk s"
proof -
  have bi: "bio_inv s" using assms(1) by (simp add: tx_def log_inv_def)
  then obtain p where p: "cur_of (mach s) = Some p" "calm s" by (auto simp: bio_inv_def)
  let ?s = "s\<lparr>slocks := (slocks s)(SInode ip := \<lparr>sl_locked = True, sl_pid = p_pid (procs s p)\<rparr>)\<rparr>"
  have acq: "acquiresleep (SInode ip) s = Inr ((), ?s)" using p assms(5) by simp
  have s0: "tx 0 ?s" "blk ?s = blk s" using tx_cong [of ?s s] assms(1) by simp_all
  have dsk: "unat b < disksize ?s" using assms(7) by simp
  obtain i t where t: "bread 1 b ?s = Inr (i, t)" "log_inv t" "held t = {i}" "b_blockno (bufs t i) = b" "b_data (bufs t i) = blk ?s b"
    "blk t = blk ?s" "fs_keep ?s t" "lbs t = lbs ?s" "lh_n t = lh_n ?s" "b_dirty (bufs t i) \<or> blk ?s b = disk ?s (unat b)"
    by (rule tx_read [OF s0(1) dsk], simp)
  let ?i = "icache s ip" let ?off = "dinode_off (i_inum (icache s ip))"
  define c where "c = (icache s)(ip := get_dinode ?off (blk s b) ?i)"
  have ic: "icache t = icache s" using t(7) by (simp add: fs_keep_def)
  have k: "fs_keep (?s\<lparr>icache := c\<rparr>) (t\<lparr>icache := c\<rparr>)" using t(7) by (simp add: fs_keep_def larea_def)
  have dd: "b_dirty (bufs t i) \<or> b_data (bufs t i) = disk t (unat (b_blockno (bufs t i)))"
    using t(4,5,7,10) by (auto simp: fs_keep_def)
  have "tx 0 (?s\<lparr>icache := c\<rparr>)" using tx_cong(1) [of "?s\<lparr>icache := c\<rparr>" s] assms(1) by simp
  then obtain u where u: "brelse i (t\<lparr>icache := c\<rparr>) = Inr ((), u)" "tx 0 u" "blk u = blk (t\<lparr>icache := c\<rparr>)" "fs_keep (?s\<lparr>icache := c\<rparr>) u"
    by (rule tx_release [OF _ _ _ k]) (use dd t(2,3,8,9) in \<open>simp_all add: icache_upd\<close>)
  let ?w = "u\<lparr>icache := (icache s)(ip := v)\<rparr>"
  have uc: "icache u = c" using u(4) by (simp add: fs_keep_def)
  have "ilock (Some ip) s = Inr ((), ?w)"
    using assms(2-4,9) acq t(1,5) u(1) s0(2) uc ic assms(6) [symmetric] unfolding assms(8)
    by (simp add: ilock_def rd_inode_def upd_inode_def bdata_def whn_def ret_def upd_def c_def)
  moreover have "tx 0 ?w" "blk ?w = blk s" using tx_cong [of ?w u] u(2,3) t(6) s0(2) by (simp_all add: icache_upd)
  ultimately show ?thesis by auto
qed

text \<open>
  C20: an inode survives the round trip through its disk block. \<open>iupdate\<close> returns, and afterwards \<open>ilock\<close> of any
  cache entry for the same inode number that has not been read yet loads exactly the fields that were
  stored (type, device numbers, link count, size and block addresses), and loading any other inode still
  gives what it gave before.
\<close>

theorem iupdate_ilock_roundtrip:
  fixes s :: "'z fs_state_scheme"
  assumes "tx 1 s" "i_dev (icache s ip) = 1" "unat (IBLOCK (i_inum (icache s ip)) (sb s)) < disksize s"
    "unat (IBLOCK (i_inum (icache s ip)) (sb s)) \<notin> larea s" "i_type (icache s ip) \<noteq> 0"
    "j = \<lparr>i_dev = 1, i_inum = i_inum (icache s ip), i_ref = 1, i_valid = False, i_type = 0, i_major = 0, i_minor = 0, i_nlink = 0,
      i_size = 0, i_addrs = a\<rparr>"
  shows "\<exists>t. iupdate ip s = Inr ((), t) \<and>
    (\<forall>jp. \<not> sl_locked (slocks s (SInode jp)) \<longrightarrow> (\<exists>u. ilock (Some jp) (t\<lparr>icache := (icache t)(jp := j)\<rparr>) = Inr ((), u) \<and>
      icache u jp = (stored (icache s ip) j)\<lparr>i_valid := True\<rparr>)) \<and>
    (\<forall>n x. IBLOCK n (sb s) \<noteq> IBLOCK (i_inum (icache s ip)) (sb s) \<or> dinode_off n \<noteq> dinode_off (i_inum (icache s ip)) \<longrightarrow>
      get_dinode (dinode_off n) (blk t (IBLOCK n (sb t))) x = get_dinode (dinode_off n) (blk s (IBLOCK n (sb s))) x)"
proof -
  let ?i = "icache s ip" let ?b = "IBLOCK (i_inum ?i) (sb s)" let ?off = "dinode_off (i_inum ?i)"
  obtain t where t: "iupdate ip s = Inr ((), t)" "tx 0 t" "fs_keep s t" "blk t = (blk s)(?b := put_dinode ?i ?off (blk s ?b))"
    by (rule iupdate_run [OF assms(1,2) refl assms(3,4)])
  have sbt: "sb t = sb s" "disksize t = disksize s" using t(3) by (simp_all add: fs_keep_def)
  have "\<exists>u. ilock (Some jp) (t\<lparr>icache := (icache t)(jp := j)\<rparr>) = Inr ((), u) \<and> icache u jp = (stored ?i j)\<lparr>i_valid := True\<rparr>"
    if "\<not> sl_locked (slocks s (SInode jp))" for jp
  proof -
    have l: "\<not> sl_locked (slocks t (SInode jp))" using that t(3) by (simp add: fs_keep_def)
    let ?t = "t\<lparr>icache := (icache t)(jp := j)\<rparr>"
    have x: "tx 0 ?t" using tx_cong(1) [of ?t t] t(2) by simp
    have g: "get_dinode ?off (blk ?t ?b) j = stored ?i j" using t(4) by (simp add: icache_upd get_put_dinode)
    have "\<exists>u. ilock (Some jp) ?t = Inr ((), u) \<and> icache u = (icache ?t)(jp := (stored ?i j)\<lparr>i_valid := True\<rparr>) \<and> tx 0 u \<and> blk u = blk ?t"
      by (rule ilock_loads [OF x, where b = ?b]) (use assms(3,5) l g sbt in \<open>simp_all add: assms(6) stored_def\<close>)
    then show ?thesis by auto
  qed
  moreover have "get_dinode (dinode_off n) (blk t (IBLOCK n (sb t))) x = get_dinode (dinode_off n) (blk s (IBLOCK n (sb s))) x"
    if "IBLOCK n (sb s) \<noteq> ?b \<or> dinode_off n \<noteq> ?off" for n x
    using that get_put_other [OF dinode_off_apart [of n "i_inum ?i"]] unfolding t(4) sbt by auto
  ultimately show ?thesis using t(1) by blast
qed

definition inode_st :: trap_state where
  "inode_st = alloc_st\<lparr>icache := (icache alloc_st)(0 := zero_inode\<lparr>i_dev := 1, i_inum := 9, i_ref := 1, i_valid := True, i_type := 2,
     i_size := 700\<rparr>)\<rparr>"

lemma inode_st_ok: "tx 1 inode_st" "icache inode_st 0 = zero_inode\<lparr>i_dev := 1, i_inum := 9, i_ref := 1, i_valid := True, i_type := 2, i_size := 700\<rparr>"
  "sb inode_st = sb boot0" "disksize inode_st = 1000" "larea inode_st = {2..32}" "slocks inode_st = (\<lambda>_. \<lparr>sl_locked = False, sl_pid = 0\<rparr>)"
proof -
  have "tx 1 alloc_st" using alloc_st_tx by (auto simp: tx_def)
  then show "tx 1 inode_st" using tx_cong(1) [of inode_st alloc_st 1] by (simp add: inode_st_def)
qed (simp_all add: inode_st_def larea_def alloc_st_def)

theorem iupdate_ilock_roundtrip_witness:
  "\<exists>t u. iupdate 0 inode_st = Inr ((), t) \<and> ilock (Some 1) (t\<lparr>icache := (icache t)(1 := zero_inode\<lparr>i_dev := 1, i_inum := 9, i_ref := 1\<rparr>)\<rparr>) =
     Inr ((), u) \<and> i_size (icache u 1) = 700"
proof -
  have j: "zero_inode\<lparr>i_dev := 1, i_inum := 9, i_ref := 1\<rparr> = \<lparr>i_dev = 1, i_inum = i_inum (icache inode_st 0), i_ref = 1, i_valid = False, i_type = 0,
      i_major = 0, i_minor = 0, i_nlink = 0, i_size = 0, i_addrs = (\<lambda>_. 0)\<rparr>" by (simp add: inode_st_ok(2) zero_inode_def)
  have b: "IBLOCK 9 (sb boot0) = 33" by (simp add: IBLOCK_def)
  from iupdate_ilock_roundtrip [OF inode_st_ok(1) _ _ _ _ j] obtain t where t: "iupdate 0 inode_st = Inr ((), t)"
    "\<forall>jp. \<not> sl_locked (slocks inode_st (SInode jp)) \<longrightarrow> (\<exists>u. ilock (Some jp) (t\<lparr>icache := (icache t)(jp :=
      zero_inode\<lparr>i_dev := 1, i_inum := 9, i_ref := 1\<rparr>)\<rparr>) = Inr ((), u) \<and>
      icache u jp = (stored (icache inode_st 0) (zero_inode\<lparr>i_dev := 1, i_inum := 9, i_ref := 1\<rparr>))\<lparr>i_valid := True\<rparr>)"
    using b by (auto simp: inode_st_ok)
  have "\<not> sl_locked (slocks inode_st (SInode 1))" by (simp add: inode_st_ok(6))
  then obtain u where "ilock (Some 1) (t\<lparr>icache := (icache t)(1 := zero_inode\<lparr>i_dev := 1, i_inum := 9, i_ref := 1\<rparr>)\<rparr>) = Inr ((), u)"
    "icache u 1 = (stored (icache inode_st 0) (zero_inode\<lparr>i_dev := 1, i_inum := 9, i_ref := 1\<rparr>))\<lparr>i_valid := True\<rparr>" using t(2) by blast
  then show ?thesis using t(1) by (auto simp: stored_def inode_st_ok(2))
qed

end
