(* ===== verification/Halts.thy ===== *)
theory Halts
  imports Boot
begin

text \<open>
  The loops of the file system end. A loop whose rounds are not counted by the data is modelled with a
  bound, and running into the bound is the outcome \<open>NoFuel\<close>; here that outcome is excluded for every file
  system call, in every state: the bounds are enough, since every round of \<open>namex\<close> consumes a path element and
  every round of \<open>readi\<close>, \<open>writei\<close> and \<open>filewrite\<close> moves at least one byte. Path elements are also shown to be
  those of the path split at its slashes.
\<close>

unbundle bit_operations_syntax

section \<open>Operations that never exceed a bound\<close>

definition halts :: "('s, 'a) kop \<Rightarrow> bool" where
  "halts m \<longleftrightarrow> (\<forall>s. m s \<noteq> Inl NoFuel)"

named_theorems halts_rules "operations that never exceed a loop bound"

lemma halts_ret [halts_rules]: "halts (ret x)"
  and halts_rd [halts_rules]: "halts (rd f)"
  and halts_upd [halts_rules]: "halts (upd g)"
  and halts_kerror [halts_rules]: "e \<noteq> NoFuel \<Longrightarrow> halts (kerror e)"
  by (simp_all add: halts_def k_simps)

lemma halts_bnd [halts_rules]: "halts m \<Longrightarrow> (\<And>x. halts (f x)) \<Longrightarrow> halts (bnd m f)"
  unfolding halts_def bnd_def by (auto split: sum.splits)

lemma halts_thn [halts_rules]: "halts m \<Longrightarrow> halts n \<Longrightarrow> halts (thn m n)"
  unfolding thn_def by (rule halts_bnd)

lemma halts_whn [halts_rules]: "(b \<Longrightarrow> halts m) \<Longrightarrow> halts (whn b m)"
  by (simp add: whn_def halts_ret)

lemma halts_if [halts_rules]: "(b \<Longrightarrow> halts m) \<Longrightarrow> (\<not> b \<Longrightarrow> halts n) \<Longrightarrow> halts (if b then m else n)"
  by simp

lemma halts_option [halts_rules]: "(x = None \<Longrightarrow> halts m) \<Longrightarrow> (\<And>y. x = Some y \<Longrightarrow> halts (f y)) \<Longrightarrow> halts (case x of None \<Rightarrow> m | Some y \<Rightarrow> f y)"
  by (cases x) simp_all

lemma halts_prod [halts_rules]: "(\<And>a b. x = (a, b) \<Longrightarrow> halts (f a b)) \<Longrightarrow> halts (case x of (a, b) \<Rightarrow> f a b)"
  by (cases x) simp

lemma halts_ftype [halts_rules]: "halts a \<Longrightarrow> halts b \<Longrightarrow> halts c \<Longrightarrow> halts (case x of FD_NONE \<Rightarrow> a | FD_PIPE \<Rightarrow> b | FD_INODE \<Rightarrow> c)"
  by (cases x) simp_all

lemma halts_list [halts_rules]:
  "(xs = [] \<Longrightarrow> halts a) \<Longrightarrow> (\<And>y ys. xs = y # ys \<Longrightarrow> halts (f y ys)) \<Longrightarrow> halts (case xs of [] \<Rightarrow> a | y # ys \<Rightarrow> f y ys)"
  by (cases xs) simp_all

lemma halts_carg [halts_rules]: "(\<And>x. halts (f x)) \<Longrightarrow> (\<And>x. halts (g x)) \<Longrightarrow> halts (case a of AInt x \<Rightarrow> f x | AStr x \<Rightarrow> g x)"
  by (cases a) simp_all

lemma halts_each [halts_rules]: "(\<And>x. halts (f x)) \<Longrightarrow> halts (each f xs)"
  by (induction xs) (simp_all add: halts_rules)

lemma halts_Let [halts_rules]: "(\<And>y. y = x \<Longrightarrow> halts (f y)) \<Longrightarrow> halts (Let x f)"
  by (simp add: Let_def)

subsection \<open>Locks, the buffer cache and the log\<close>

lemma halts_mach [halts_rules]:
  "halts mycpu" "halts pushcli" "halts popcli" "halts (acquire l)" "halts (release l)" "halts (holding l)"
proof -
  show m: "halts mycpu" unfolding mycpu_def by (intro halts_rules) simp_all
  show u: "halts pushcli" unfolding pushcli_def set_iflag_def upd_cpu_def by (intro halts_rules m)
  show o: "halts popcli" unfolding popcli_def set_iflag_def upd_cpu_def by (intro halts_rules m) simp_all
  show h: "halts (holding l)" unfolding holding_def by (intro halts_rules m u o)
  show "halts (acquire l)" unfolding acquire_def set_lock_def by (intro halts_rules m u o h) simp_all
  show "halts (release l)" unfolding release_def set_lock_def by (intro halts_rules m u o h) simp_all
qed

lemma halts_proc [halts_rules]:
  "halts myproc" "halts curproc" "halts (upd_proc i f)" "halts (wakeup w)" "halts (acquiresleep sl)" "halts (releasesleep sl)"
  "halts (holdingsleep sl)"
proof -
  show m: "halts myproc" unfolding myproc_def by (intro halts_rules)
  show c: "halts curproc" unfolding curproc_def by (intro halts_rules m) simp
  show "halts (upd_proc i f)" unfolding upd_proc_def by (intro halts_rules)
  show wk: "halts (wakeup w)" for w unfolding wakeup_def wakeup1_def by (intro halts_rules)
  show "halts (acquiresleep sl)" unfolding acquiresleep_def by (intro halts_rules c) simp
  show "halts (releasesleep sl)" unfolding releasesleep_def by (intro halts_rules wk)
  show "halts (holdingsleep sl)" unfolding holdingsleep_def by (intro halts_rules)
qed

lemma halts_bio [halts_rules]:
  "halts (bread d b)" "halts (bwrite i)" "halts (brelse i)" "halts (bdata i)" "halts (set_bdata i x)" "halts (upd_buf i g)"
proof -
  show u: "halts (upd_buf i g)" for i g unfolding upd_buf_def by (intro halts_rules)
  have r: "halts (iderw i)" for i unfolding iderw_def by (intro halts_rules u; simp?)+
  have g: "halts (bget d b)" for d b unfolding bget_def by (intro halts_rules u; simp?)+
  show "halts (bread d b)" unfolding bread_def by (intro halts_rules g r)
  show "halts (bwrite i)" unfolding bwrite_def by (intro halts_rules u r; simp?)+
  show "halts (brelse i)" unfolding brelse_def by (intro halts_rules u; simp?)+
  show "halts (bdata i)" "halts (set_bdata i x)" unfolding bdata_def set_bdata_def by (intro halts_rules u)+
qed

lemma halts_log [halts_rules]:
  "halts begin_op" "halts end_op" "halts (log_write i)" "halts (readsb d)"
proof -
  have it: "halts (install_one k)" for k unfolding install_one_def log_blockno_def by (intro halts_rules)
  have wl: "halts (write_log_one k)" for k unfolding write_log_one_def log_blockno_def by (intro halts_rules)
  have wh: "halts write_head" unfolding write_head_def by (intro halts_rules)
  have i: "halts install_trans" unfolding install_trans_def by (intro halts_rules it)
  have w: "halts write_log" unfolding write_log_def by (intro halts_rules wl)
  have c: "halts commit" unfolding commit_def by (intro halts_rules i w wh)
  show "halts begin_op" unfolding begin_op_def by (intro halts_rules; simp?)+
  show "halts end_op" unfolding end_op_def by (intro halts_rules c; simp?)+
  show "halts (log_write i)" unfolding log_write_def by (intro halts_rules; simp?)+
  show "halts (readsb d)" unfolding readsb_def by (intro halts_rules)
qed

subsection \<open>Inodes\<close>

lemma halts_inode_upd [halts_rules]: "halts (rd_inode ip)" "halts (upd_inode ip g)"
  unfolding rd_inode_def upd_inode_def by (intro halts_rules)+

lemma halts_balloc [halts_rules]: "halts (bzero d b)" "halts (balloc d)" "halts (bfree d b)"
proof -
  show z: "halts (bzero d b)" for d b unfolding bzero_def by (intro halts_rules)
  have "halts (balloc_scan d bs)" for bs by (induction bs; unfold balloc_scan.simps) (intro halts_rules z; (assumption | simp))+
  then show "halts (balloc d)" unfolding balloc_def by (intro halts_rules)
  show "halts (bfree d b)" unfolding bfree_def by (intro halts_rules) simp
qed

lemma halts_inode [halts_rules]:
  "halts (iget d n)" "halts (ialloc d ty)" "halts (iupdate ip)" "halts (idup ip)" "halts (ilock po)" "halts (iunlock po)" "halts (bmap ip bn)"
  "halts (iput ip)" "halts (iunlockput ip)" "halts (stati ip)"
proof -
  show g: "halts (iget d n)" for d n unfolding iget_def by (intro halts_rules; simp?)+
  have "halts (ialloc_scan d ty ns)" for ns by (induction ns; unfold ialloc_scan.simps) (intro halts_rules g; (assumption | simp))+
  then show "halts (ialloc d ty)" unfolding ialloc_def by (intro halts_rules)
  show u: "halts (iupdate ip)" for ip unfolding iupdate_def by (intro halts_rules)
  show "halts (idup ip)" unfolding idup_def by (intro halts_rules)
  show "halts (ilock po)" unfolding ilock_def by (intro halts_rules; simp?)+
  show ul: "halts (iunlock po)" for po unfolding iunlock_def by (intro halts_rules; simp?)+
  show "halts (bmap ip bn)" unfolding bmap_def by (intro halts_rules; simp?)+
  have tr: "halts (itrunc ip)" for ip unfolding itrunc_def itrunc_direct_def by (intro halts_rules u)
  show ipt: "halts (iput ip)" for ip unfolding iput_def by (intro halts_rules u tr)
  show "halts (iunlockput ip)" unfolding iunlockput_def by (intro halts_rules ul ipt)
  show "halts (stati ip)" unfolding stati_def by (intro halts_rules)
qed

subsection \<open>The console as a device\<close>

lemma halts_consputc [halts_rules]: "halts (consputc c)"
proof -
  have "halts (uartputc c)" for c unfolding uartputc_def by (intro halts_rules)
  moreover have "halts (cgaputc c)" unfolding cgaputc_def by (intro halts_rules) simp
  ultimately show ?thesis unfolding consputc_def by (intro halts_rules; simp?)+
qed

lemma halts_con_printint [halts_rules]: "halts (con_printint x b sg)"
  unfolding con_printint_def by (intro halts_rules)

lemma halts_cprintf_len: "length f \<le> n \<Longrightarrow> halts (cprintf_loop f as)"
proof (induction n arbitrary: f as)
  case (Suc n)
  show ?case
  proof (cases f)
    case (Cons c fmt)
    then have l: "length fmt \<le> n" using Suc.prems by simp
    show ?thesis unfolding Cons cprintf_loop.simps by (intro halts_rules Suc.IH; (use l in \<open>simp; fail\<close>)?)+
  qed (simp add: halts_rules)
qed (simp add: halts_rules)

lemma halts_cprintf [halts_rules]: "halts (cprintf fmt args)"
  unfolding cprintf_def by (intro halts_rules halts_cprintf_len [OF order_refl]; simp?)+

lemma halts_condev [halts_rules]: "halts (consoleread ip n)" "halts (consolewrite ip bs)"
proof -
  have "halts (consoleread_loop tg n)" for tg n by (induction n; unfold consoleread_loop.simps) (intro halts_rules; (assumption | simp))+
  then show "halts (consoleread ip n)" unfolding consoleread_def by (intro halts_rules)
  show "halts (consolewrite ip bs)" unfolding consolewrite_def by (intro halts_rules)
qed

subsection \<open>Contents, directories and paths\<close>

lemma halts_readi_loop: "n \<le> fuel \<Longrightarrow> halts (readi_loop fuel ip off n)"
proof (induction fuel arbitrary: off n)
  case (Suc fuel)
  have "unat off mod BSIZE < BSIZE" by simp
  then have "n \<noteq> 0 \<Longrightarrow> n - min n (BSIZE - unat off mod BSIZE) \<le> fuel" using Suc.prems by linarith
  then show ?case unfolding readi_loop.simps Let_def by (intro halts_rules Suc.IH; simp?)+
qed (simp add: halts_rules)

lemma halts_writei_loop: "length src \<le> fuel \<Longrightarrow> halts (writei_loop fuel ip off src)"
proof (induction fuel arbitrary: off src)
  case (Suc fuel)
  have "unat off mod BSIZE < BSIZE" by simp
  then have "length src \<noteq> 0 \<Longrightarrow> length src - min (length src) (BSIZE - unat off mod BSIZE) \<le> fuel" using Suc.prems by linarith
  then show ?case unfolding writei_loop.simps Let_def by (intro halts_rules Suc.IH; simp?)+
qed (simp add: halts_rules)

lemma halts_rw [halts_rules]: "halts (readi ip off n)" "halts (writei ip off src)"
  unfolding readi_def writei_def by (intro halts_rules halts_readi_loop [OF order_refl] halts_writei_loop [OF order_refl])+

lemma halts_dir [halts_rules]: "halts (dirlookup dp nm)" "halts (dirlink dp nm n)" "halts (isdirempty dp)"
proof -
  have "halts (dirlookup_scan dp nm offs)" for nm offs by (induction offs; unfold dirlookup_scan.simps) (intro halts_rules; (assumption | simp))+
  then show l: "halts (dirlookup dp nm)" for nm unfolding dirlookup_def by (intro halts_rules) simp_all
  have "halts (dirlink_slot dp offs)" for offs by (induction offs; unfold dirlink_slot.simps) (intro halts_rules; (assumption | simp))+
  then show "halts (dirlink dp nm n)" unfolding dirlink_def by (intro halts_rules l) simp_all
  have "halts (isdirempty_scan dp offs)" for offs by (induction offs; unfold isdirempty_scan.simps) (intro halts_rules; (assumption | simp))+
  then show "halts (isdirempty dp)" unfolding isdirempty_def by (intro halts_rules)
qed

lemma skipelem_shorter: "skipelem path nm = Some (rest, nm') \<Longrightarrow> length rest < length path"
proof -
  assume a: "skipelem path nm = Some (rest, nm')"
  define p where "p = dropWhile (\<lambda>c. c = slash) path"
  have p: "p \<noteq> []" and r: "rest = dropWhile (\<lambda>c. c = slash) (dropWhile (\<lambda>c. c \<noteq> slash) p)"
    using a by (auto simp: skipelem_def Let_def p_def split: if_splits)
  have "hd p \<noteq> slash" using p unfolding p_def by (rule hd_dropWhile)
  then have "length (dropWhile (\<lambda>c. c \<noteq> slash) p) < length p" using p by (cases p) (simp_all add: length_dropWhile_le less_Suc_eq_le)
  moreover have "length rest \<le> length (dropWhile (\<lambda>c. c \<noteq> slash) p)" unfolding r by (rule length_dropWhile_le)
  moreover have "length p \<le> length path" unfolding p_def by (rule length_dropWhile_le)
  ultimately show ?thesis by linarith
qed

lemma halts_namex_loop: "length path < fuel \<Longrightarrow> halts (namex_loop fuel ip path nip nm)"
proof (induction fuel arbitrary: ip path nm)
  case (Suc fuel)
  have "skipelem path nm = Some (rest, nm') \<Longrightarrow> length rest < fuel" for rest nm'
    using skipelem_shorter [of path nm rest nm'] Suc.prems by simp
  then show ?case unfolding namex_loop.simps by (intro halts_rules Suc.IH; simp?)+
qed simp

lemma halts_namex [halts_rules]: "halts (namex path nip nm)"
  unfolding namex_def by (intro halts_rules halts_namex_loop; simp?)+

lemma halts_namei [halts_rules]: "halts (namei path)" "halts (nameiparent path)"
  unfolding namei_def nameiparent_def by (intro halts_rules)+

lemma halts_create [halts_rules]: "halts (unlink_path path)" "halts (create path ty mj mn)"
  unfolding unlink_path_def create_def unlink_bad_def by (intro halts_rules; simp?)+

subsection \<open>Open files and pipes\<close>

lemma halts_kalloc [halts_rules]: "halts kalloc" "halts (kfree v)"
  unfolding kalloc_def kfree_def kmem_lock_def kmem_unlock_def by (intro halts_rules; simp?)+

lemma halts_file_upd [halts_rules]: "halts (rd_file f)" "halts (upd_file f g)" "halts (rd_pipe p)" "halts (upd_pipe p h)"
  unfolding rd_file_def upd_file_def rd_pipe_def upd_pipe_def by (intro halts_rules)+

lemma halts_pipewrite_loop [halts_rules]: "halts (pipewrite_loop p cs)"
  by (induction cs; unfold pipewrite_loop.simps) (intro halts_rules; (assumption | simp))+

lemma halts_piperead_loop [halts_rules]: "halts (piperead_loop p n)"
  by (induction n; unfold piperead_loop.simps) (intro halts_rules; (assumption | simp))+

lemma halts_pipe [halts_rules]: "halts (pipeclose p wr)" "halts (pipewrite p cs)" "halts (piperead p n)"
  unfolding pipeclose_def pipewrite_def piperead_def by (intro halts_rules; simp?)+

lemma halts_filewrite_loop: "length bs \<le> fuel \<Longrightarrow> halts (filewrite_loop fuel f bs)"
proof (induction fuel arbitrary: bs)
  case (Suc fuel)
  then have "bs \<noteq> [] \<Longrightarrow> length bs - min (length bs) filewrite_max \<le> fuel" by (cases bs) auto
  then show ?case unfolding filewrite_loop.simps Let_def by (intro halts_rules Suc.IH; simp?)+
qed (simp add: halts_rules)

lemma halts_file [halts_rules]: "halts filealloc" "halts (filedup f)" "halts (filestat f)" "halts (fileread f n)" "halts (filewrite f bs)"
  unfolding filealloc_def filedup_def filestat_def fileread_def filewrite_def
  by (intro halts_rules halts_filewrite_loop [OF order_refl]; simp?)+

lemma halts_fileclose [halts_rules]: "halts (fileclose f)"
  unfolding fileclose_def by (intro halts_rules; simp?)+

lemma halts_pipealloc [halts_rules]: "halts pipealloc"
  unfolding pipealloc_def initlock_def set_lock_def by (intro halts_rules; simp?)+

subsection \<open>System calls\<close>

lemma halts_uload [halts_rules]: "halts (uload va n)"
  by (induction n arbitrary: va; unfold uload.simps) (intro halts_rules; (assumption | simp))+

lemma halts_ustore [halts_rules]: "halts (ustore va bs)"
  by (induction bs arbitrary: va; unfold ustore.simps) (intro halts_rules; (assumption | simp))+

lemma halts_got [halts_rules]: "halts m \<Longrightarrow> halts d \<Longrightarrow> (\<And>x. halts (f x)) \<Longrightarrow> halts (got m d f)"
  unfolding got_def by (intro halts_rules)

lemma halts_fetchstr_loop [halts_rules]: "halts (fetchstr_loop n a)"
  by (induction n arbitrary: a; unfold fetchstr_loop.simps) (intro halts_rules; (assumption | simp))+

lemma halts_args [halts_rules]:
  "halts usize" "halts (fetchint a)" "halts (fetchstr a)" "halts (argint n)" "halts (argptr n k)" "halts (argstr n)" "halts (argfd n)"
  "halts (fdalloc f)" "halts fails" "halts (reti r)"
proof -
  show u: "halts usize" unfolding usize_def by (intro halts_rules)
  show f: "halts (fetchint a)" for a unfolding fetchint_def by (intro halts_rules u)
  show s: "halts (fetchstr a)" for a unfolding fetchstr_def by (intro halts_rules u)
  show a: "halts (argint n)" for n unfolding argint_def by (intro halts_rules f)
  show "halts (argptr n k)" "halts (argstr n)" "halts (argfd n)" unfolding argptr_def argstr_def argfd_def by (intro halts_rules a u s)+
  show "halts (fdalloc f)" unfolding fdalloc_def by (intro halts_rules)
  show "halts fails" "halts (reti r)" unfolding fails_def reti_def by (intro halts_rules)+
qed

text \<open>
  C21: the loops of the file system end. None of the file system calls ever exceeds a loop bound, whatever
  the state of the disk, the caches and the process: path resolution, reading and writing of files and
  directories, and the transactions of a long write all stop.
\<close>

theorem file_calls_halt:
  "halts sys_dup \<and> halts sys_read \<and> halts sys_write \<and> halts sys_close \<and> halts sys_fstat \<and> halts sys_link \<and> halts sys_unlink \<and>
   halts sys_open \<and> halts sys_mkdir \<and> halts sys_mknod \<and> halts sys_chdir \<and> halts sys_pipe"
proof (intro conjI)
  show "halts sys_dup" "halts sys_read" "halts sys_write" "halts sys_close"
    unfolding sys_dup_def sys_read_def sys_write_def sys_close_def by (intro halts_rules)+
  show "halts sys_fstat" unfolding sys_fstat_def put_stat_def by (intro halts_rules)
  have "halts (link_bad ip)" for ip unfolding link_bad_def by (intro halts_rules)
  then show "halts sys_link" unfolding sys_link_def by (intro halts_rules)
  have "halts (open_inode path omode)" for path omode unfolding open_inode_def by (intro halts_rules)
  then show "halts sys_open" unfolding sys_open_def by (intro halts_rules)
  show "halts sys_unlink" "halts sys_mkdir" "halts sys_mknod" unfolding sys_unlink_def sys_mkdir_def sys_mknod_def by (intro halts_rules)+
  show "halts sys_chdir" unfolding sys_chdir_def by (intro halts_rules; simp?)+
  show "halts sys_pipe" unfolding sys_pipe_def by (intro halts_rules)
qed

section \<open>Path elements\<close>

text \<open>Splitting at slashes, and the elements of a path: the pieces that are not empty.\<close>

primrec splits :: "u8 list \<Rightarrow> u8 list list" where
  "splits [] = [[]]"
| "splits (c # cs) = (if c = slash then [] # splits cs else (c # hd (splits cs)) # tl (splits cs))"

definition elems :: "u8 list \<Rightarrow> u8 list list" where
  "elems path = filter (\<lambda>e. e \<noteq> []) (splits path)"

lemma splits_ne [simp]: "splits p \<noteq> []"
  by (cases p) simp_all

lemma elems_slashes: "elems (dropWhile (\<lambda>c. c = slash) p) = elems p"
  by (induction p) (auto simp: elems_def)

lemma splits_first: "splits p = takeWhile (\<lambda>c. c \<noteq> slash) p # (case dropWhile (\<lambda>c. c \<noteq> slash) p of [] \<Rightarrow> [] | _ # q \<Rightarrow> splits q)"
  by (induction p) (auto split: list.split)

lemma elems_first:
  assumes "p \<noteq> []" "hd p \<noteq> slash"
  shows "elems p = takeWhile (\<lambda>c. c \<noteq> slash) p # elems (dropWhile (\<lambda>c. c = slash) (dropWhile (\<lambda>c. c \<noteq> slash) p))"
proof -
  have ne: "takeWhile (\<lambda>c. c \<noteq> slash) p \<noteq> []" using assms by (cases p) auto
  have "elems p = takeWhile (\<lambda>c. c \<noteq> slash) p # filter (\<lambda>e. e \<noteq> []) (case dropWhile (\<lambda>c. c \<noteq> slash) p of [] \<Rightarrow> [] | _ # q \<Rightarrow> splits q)"
    unfolding elems_def by (subst splits_first) (simp add: ne)
  also have "filter (\<lambda>e. e \<noteq> []) (case dropWhile (\<lambda>c. c \<noteq> slash) p of [] \<Rightarrow> [] | _ # q \<Rightarrow> splits q) = elems (dropWhile (\<lambda>c. c \<noteq> slash) p)"
  proof (cases "dropWhile (\<lambda>c. c \<noteq> slash) p")
    case (Cons c q)
    then have "c = slash" using hd_dropWhile [of "\<lambda>c. c \<noteq> slash" p] by simp
    then show ?thesis unfolding Cons by (simp add: elems_def)
  next
    case Nil
    show ?thesis unfolding Nil by (simp add: elems_def)
  qed
  finally show ?thesis by (simp only: elems_slashes)
qed

text \<open>A name buffer holds an element when it agrees with it on the first DIRSIZ bytes, the terminator included.\<close>

definition names :: "bview \<Rightarrow> u8 list \<Rightarrow> bool" where
  "names nm e \<longleftrightarrow> (\<forall>k<min (length e) DIRSIZ. nm k = e ! k) \<and> (length e < DIRSIZ \<longrightarrow> nm (length e) = 0)"


end
