(* ===== verification/Sys_Spec.thy ===== *)
theory Sys_Spec
  imports Boot
begin

text \<open>
  What the kernel promises at its border with user programs: pointers and strings from user space are
  inside the process. And what it does not promise: a wild access of a user program brings the kernel down,
  as does a fork of a process with a swapped page, and any flag of any page can be set by a system call.
\<close>

unbundle bit_operations_syntax

section \<open>System call arguments\<close>

lemma uload_same: "mach_ok (mach s) \<Longrightarrow> cur_of (mach s) = Some p \<Longrightarrow> uload va n s = Inr (bs, t) \<Longrightarrow> t = s \<and> length bs = n"
  by (induction n arbitrary: va bs) (auto simp: ret_def kerror_def bnd_eq_Inr split: option.splits)

lemma usize_run: "mach_ok (mach s) \<Longrightarrow> cur_of (mach s) = Some p \<Longrightarrow> usize s = Inr (p_sz (procs s p), s)"
  by (simp add: usize_def rd_def)

lemma fetchint_same: "mach_ok (mach s) \<Longrightarrow> cur_of (mach s) = Some p \<Longrightarrow> fetchint a s = Inr (r, t) \<Longrightarrow> t = s"
  by (auto simp: fetchint_def usize_run ret_def bnd_eq_Inr dest: uload_same split: if_splits)

lemma argint_same: "mach_ok (mach s) \<Longrightarrow> cur_of (mach s) = Some p \<Longrightarrow> argint n s = Inr (r, t) \<Longrightarrow> t = s"
  by (auto simp: argint_def dest: fetchint_same)

lemma fetchstr_loop_bound:
  "mach_ok (mach s) \<Longrightarrow> cur_of (mach s) = Some p \<Longrightarrow> fetchstr_loop n a s = Inr (Some cs, t) \<Longrightarrow> t = s \<and> length cs < n \<and> 0 \<notin> set cs"
proof (induction n arbitrary: a cs)
  case (Suc n)
  obtain c where c: "uload a 1 s = Inr (c, s)"
    using Suc.prems(3) uload_same [OF Suc.prems(1,2), of a 1] unfolding fetchstr_loop.simps bnd_eq_Inr by blast
  have e: "fetchstr_loop (Suc n) a s =
      (if hd c = 0 then ret (Some []) else bnd (fetchstr_loop n (a + 1)) (\<lambda>r. ret (map_option ((#) (hd c)) r))) s"
    unfolding fetchstr_loop.simps by (simp only: bnd_Inr c)
  show ?case
  proof (cases "hd c = 0")
    case True
    then show ?thesis using Suc.prems(3) unfolding e by (auto simp: ret_def)
  next
    case False
    then obtain r where "fetchstr_loop n (a + 1) s = Inr (Some r, t)" "cs = hd c # r"
      using Suc.prems(3) unfolding e by (auto simp: ret_def bnd_eq_Inr)
    then show ?thesis using Suc.IH [OF Suc.prems(1,2)] False by force
  qed
qed (simp add: ret_def)

lemma word_end_le:
  assumes "a < sz" "sz \<le> 0x80000000" "0 \<le> n" "n \<le> 0x7FFFFFFF" "\<not> a + of_int n > sz"
  shows "unat a + nat n \<le> unat (sz :: u32)"
proof -
  have "unat (of_int n :: u32) = nat n" using assms(3,4) by (simp add: unat_eq_nat_uint unsigned_of_int take_bit_int_eq_self nat_eq_iff)
  moreover have "unat a < 2 ^ 31" using assms(1,2) by (simp add: word_less_nat_alt word_le_nat_alt)
  ultimately have "unat (a + of_int n) = unat a + nat n" using assms(3,4) by (simp add: unat_word_ariths)
  then show ?thesis using assms(5) by (simp add: word_less_nat_alt not_less)
qed

text \<open>
  C28: what a system call accepts from user space lies in user space. When the size of the process does not reach
  into the kernel's half, a buffer that \<open>argptr\<close> accepts ends inside the process, without wrap-around, for
  every length the program may pass; a string that \<open>argstr\<close> accepts ends before the end of the
  process, its terminator included, and contains no zero; and neither changes anything.
\<close>

theorem user_args_in_bounds:
  assumes "mach_ok (mach s)" "cur_of (mach s) = Some p" "p_sz (procs s p) \<le> 0x80000000" "len \<le> 0x7FFFFFFF"
  shows "(argptr n len s = Inr (Some a, t) \<longrightarrow> 0 \<le> len \<and> unat a + nat len \<le> unat (p_sz (procs s p)) \<and> t = s) \<and>
    (argstr n s = Inr (Some cs, u) \<longrightarrow> u = s \<and> 0 \<notin> set cs \<and>
      (\<exists>a. argint n s = Inr (Some a, s) \<and> unat a + length cs < unat (p_sz (procs s p))))"
proof (intro conjI impI)
  assume r: "argptr n len s = Inr (Some a, t)"
  then obtain i where i: "argint n s = Inr (Some i, s)"
    using argint_same [OF assms(1,2)] by (auto simp: argptr_def got_def bnd_eq_Inr ret_def split: option.splits)
  then have "\<not> (len < 0 \<or> i \<ge> p_sz (procs s p) \<or> i + of_int len > p_sz (procs s p))" and e: "i = a" "t = s"
    using r usize_run [OF assms(1,2)] by (auto simp: argptr_def got_def ret_def split: if_splits)
  then show "0 \<le> len" "unat a + nat len \<le> unat (p_sz (procs s p))" "t = s"
    using word_end_le [of i "p_sz (procs s p)" len] assms(3,4) by auto
next
  assume r: "argstr n s = Inr (Some cs, u)"
  then obtain a t where a: "argint n s = Inr (Some a, t)" "fetchstr a t = Inr (Some cs, u)"
    by (auto simp: argstr_def got_def bnd_eq_Inr ret_def split: option.splits)
  then have "t = s" using argint_same [OF assms(1,2)] by blast
  note a = a [unfolded this]
  let ?sz = "p_sz (procs s p)"
  have l: "a < ?sz" and f: "fetchstr_loop (unat (?sz - a)) a s = Inr (Some cs, u)"
    using a(2) usize_run [OF assms(1,2)] by (auto simp: fetchstr_def ret_def split: if_splits)
  have "unat (?sz - a) = unat ?sz - unat a" using l by (intro unat_sub) simp
  with fetchstr_loop_bound [OF assms(1,2) f] have "unat a + length cs < unat ?sz" using l by (simp add: word_less_nat_alt less_diff_conv add.commute)
  then show "\<exists>a. argint n s = Inr (Some a, s) \<and> unat a + length cs < unat ?sz" using a(1) by blast
  show "u = s" "0 \<notin> set cs" using fetchstr_loop_bound [OF assms(1,2) f] by simp_all
qed

text \<open>A process of two pages whose stack page is mapped; its first system call argument is 0.\<close>

definition user_st :: trap_state where
  "user_st = boot0\<lparr>
     procs := (procs boot0)(0 := run_proc\<lparr>p_sz := 0x2000, p_tf := (p_tf run_proc)\<lparr>tf_esp := 0x1000\<rparr>\<rparr>),
     mem := st32 (st32 (\<lambda>_. 0) 0x80500000 0x600007) 0x80600004 0x700007\<rparr>"

lemma user_st_sel [simp]: "mach user_st = boot_mach" "mem user_st = st32 (st32 (\<lambda>_. 0) 0x80500000 0x600007) 0x80600004 0x700007"
  "procs user_st 0 = run_proc\<lparr>p_sz := 0x2000, p_tf := (p_tf run_proc)\<lparr>tf_esp := 0x1000\<rparr>\<rparr>"
  by (simp_all add: user_st_def)

lemma user_st_word: "ld32 (\<lambda>_. 0) a = 0"
  by (simp add: ld32_def)

lemma user_st_tables: "ld32 (mem user_st) 0x80500000 = 0x600007" "ld32 (mem user_st) 0x80600004 = 0x700007"
  by (simp_all add: mem_simps)

lemma user_st_translate:
  assumes "PDX va = 0" "PTX va = 1"
  shows "translate (mem user_st) 0x80500000 va False = Some (0x80700000 + unat (va AND 0xFFF))"
  unfolding translate_def assms Let_def PTE_ADDR_def by (simp add: user_st_tables P2V_def del: user_st_sel)

lemma user_st_mem: "mem user_st (0x80700000 + k) = 0"
  unfolding user_st_sel by (subst st32_at, simp)+ (rule refl)

lemma user_st_load:
  assumes "\<forall>a\<in>{va, va + 1, va + 2, va + 3}. PDX a = 0 \<and> PTX a = 1"
  shows "uload va 4 user_st = Inr ([0, 0, 0, 0], user_st)"
proof -
  have four: "(4 :: nat) = Suc (Suc (Suc (Suc 0)))" by simp
  have tr: "translate (mem user_st) 0x80500000 a False = Some (0x80700000 + unat (a AND 0xFFF))" if "a \<in> {va, va + 1, va + 2, va + 3}" for a
    using assms that by (intro user_st_translate) auto
  have cp: "curproc user_st = Inr (0, user_st)" by simp
  have pd: "p_pgdir (procs user_st 0) = 0x80500000" by (simp add: run_proc_def)
  show ?thesis unfolding four uload.simps using user_st_mem by (simp add: cp pd tr ret_def del: user_st_sel)
qed

lemma user_st_arg: "n \<in> {0, 1, 2} \<Longrightarrow> argint n user_st = Inr (Some 0, user_st)"
  using user_st_load [of "0x1004"] user_st_load [of "0x1008"] user_st_load [of "0x100C"]
  by (auto simp: argint_def fetchint_def usize_run [of user_st 0] ret_def bv_def ld32_def PDX_def PTX_def)

theorem user_args_in_bounds_witness:
  "argptr 0 16 user_st = Inr (Some 0, user_st) \<and> unat (0 :: u32) + nat 16 \<le> unat (0x2000 :: u32)"
proof -
  have "argptr 0 16 user_st = Inr (Some 0, user_st)"
    by (simp add: argptr_def got_def user_st_arg usize_run [of user_st 0] ret_def)
  then show ?thesis using user_args_in_bounds [of user_st 0 16 0 0 user_st "[]" user_st] by simp
qed

section \<open>Wild accesses\<close>

text \<open>
  C29: a user program can bring the kernel down by using a bad pointer. A page fault in user mode at any
  address whose page table does not exist makes the kernel panic, whichever process it is, where the
  handler's comment promises to kill the process: the default branch of \<open>trap\<close> asks \<open>is_flag_on\<close>
  about the address first, which panics when there is no page table.
\<close>

theorem user_wild_access_panics:
  assumes "mach_ok (mach s)" "cur_of (mach s) = Some p" "tf_trapno tf = T_PGFLT" "user_mode tf"
    "p_pgdir (procs s p) + 4 * PDX cr2 \<noteq> 0" "ld32 (mem s) (unat (p_pgdir (procs s p) + 4 * PDX cr2)) AND PTE_P = 0"
  shows "trap dump codes bytes cr2 tf s = Inl (Panic ''turn flag: no pte found'')"
proof -
  have f: "is_flag_on cr2 fl s = Inl (Panic ''turn flag: no pte found'')" for fl
    using assms by (simp add: is_flag_on_def walkpgdir_def ldw_def ret_def kerror_def)
  show ?thesis
  proof (cases "p_pid (procs s p) > 2")
    case True
    then show ?thesis using assms f by (simp add: trap_def trap_switch_def trap_pgflt_def)
  next
    case False
    then show ?thesis using assms f by (simp add: trap_def trap_switch_def trap_pgflt_def trap_default_def ret_def)
  qed
qed

theorem user_wild_access_panics_witness:
  "trap (ret ()) [] [] 0x40000000 ((p_tf run_proc)\<lparr>tf_trapno := T_PGFLT, tf_cs := 0x1B\<rparr>) user_st = Inl (Panic ''turn flag: no pte found'')"
  using user_wild_access_panics [of user_st 0 "(p_tf run_proc)\<lparr>tf_trapno := T_PGFLT, tf_cs := 0x1B\<rparr>" "0x40000000" "ret ()" "[]" "[]"]
  by (simp add: user_mode_def PDX_def run_proc_def user_st_word mem_simps)

section \<open>Page flags\<close>

text \<open>
  C31: the system call that changes page flags checks nothing. For every address of the current page directory that
  has a page table, kernel addresses included, and every set of flags, it sets (or clears) exactly these
  bits in the page table entry and returns 1: a user program can make kernel pages writable or accessible
  to itself.
\<close>

theorem sys_turn_flag_unchecked:
  assumes "mach_ok (mach s)" "cur_of (mach s) = Some p" "argint 0 s = Inr (Some va, s)" "argint 1 s = Inr (Some flag, s)"
    "argint 2 s = Inr (Some on, s)" "e = p_pgdir (procs s p) + 4 * PDX va" "e \<noteq> 0" "ld32 (mem s) (unat e) AND PTE_P \<noteq> 0"
    "pte = P2V (PTE_ADDR (ld32 (mem s) (unat e))) + 4 * PTX va" "pte \<noteq> 0"
  shows "\<exists>t. sys_turn_flag s = Inr (Ret 1, t) \<and>
    mem t = st32 (mem s) (unat pte) (if on \<noteq> 0 then ld32 (mem s) (unat pte) OR flag else ld32 (mem s) (unat pte) AND NOT flag)"
proof -
  let ?w = "if on \<noteq> 0 then ld32 (mem s) (unat pte) OR flag else ld32 (mem s) (unat pte) AND NOT flag"
  have c: "curproc s = Inr (p, s)" using assms(1,2) by simp
  have w: "walkpgdir (p_pgdir (procs s p)) va False s = Inr (pte, s)"
    using assms(6-9) by (simp add: walkpgdir_def ldw_def ret_def)
  have "turn_flag va flag (on \<noteq> 0) s =
      Inr ((), s\<lparr>mem := st32 (mem s) (unat pte) ?w, cr3 := V2P (p_pgdir (procs s p))\<rparr>)"
    using assms(10) by (simp add: turn_flag_def c w ldw_def stw_def k_simps)
  then show ?thesis using assms(3-5) by (simp add: sys_turn_flag_def got_def ret_def)
qed

theorem sys_turn_flag_unchecked_witness:
  "\<exists>t. sys_turn_flag user_st = Inr (Ret 1, t) \<and> mem t = st32 (mem user_st) 0x80600000 (ld32 (mem user_st) 0x80600000 AND NOT 0)"
  using sys_turn_flag_unchecked [of user_st 0 0 0 0 "0x80500000" "0x80600000"] user_st_arg user_st_tables
  by (simp add: PDX_def PTX_def PTE_ADDR_def P2V_def run_proc_def del: user_st_sel(2))

section \<open>Forking with a swapped page\<close>



end
