(* ===== verification/Exec_Spec.thy ===== *)
theory Exec_Spec
  imports Sys_Spec
begin

text \<open>
  The stack a new program starts with. \<open>exec\<close> writes it through the page directory of the new image, into the
  last page below the size of the process; the page below that one is not accessible to the user. The
  lemmas follow \<open>copyout\<close> into the frame of the stack page and \<open>push_args\<close> down the stack.
\<close>

unbundle bit_operations_syntax

section \<open>The stack page\<close>

definition same_outside :: "u32 \<Rightarrow> bmem \<Rightarrow> bmem \<Rightarrow> bool" where
  "same_outside K m m' \<longleftrightarrow> (\<forall>a. a < unat K \<or> unat K + 4096 \<le> a \<longrightarrow> m' a = m a)"

text \<open>
  The page that ends at \<open>sz\<close> is at the kernel address \<open>K\<close> and the one below it is refused, and this does not
  depend on the contents of the stack page.
\<close>

definition stack_ok :: "u32 \<Rightarrow> u32 \<Rightarrow> u32 \<Rightarrow> 'z kmem_state_scheme \<Rightarrow> bool" where
  "stack_ok pgdir sz K s \<longleftrightarrow> 4096 dvd unat sz \<and> 8192 \<le> unat sz \<and> K \<noteq> 0 \<and>
     (\<forall>m. same_outside K (mem s) m \<longrightarrow>
        uva2ka pgdir (sz - 4096) (s\<lparr>mem := m\<rparr>) = Inr (K, s\<lparr>mem := m\<rparr>) \<and>
        uva2ka pgdir (sz - 8192) (s\<lparr>mem := m\<rparr>) = Inr (0, s\<lparr>mem := m\<rparr>))"

text \<open>The byte at a user address of the stack page.\<close>

definition stk :: "u32 \<Rightarrow> u32 \<Rightarrow> bmem \<Rightarrow> nat \<Rightarrow> u8" where
  "stk sz K m a = m (unat K + (a - (unat sz - 4096)))"

lemma same_outside_refl [simp]: "same_outside K m m"
  by (simp add: same_outside_def)

lemma same_outside_trans: "same_outside K m m' \<Longrightarrow> same_outside K m' m'' \<Longrightarrow> same_outside K m m''"
  by (simp add: same_outside_def)

lemma stack_ok_write: "stack_ok pgdir sz K s \<Longrightarrow> same_outside K (mem s) m \<Longrightarrow> stack_ok pgdir sz K (s\<lparr>mem := m\<rparr>)"
  unfolding stack_ok_def using same_outside_trans by fastforce

lemma put_bytes_Nil [simp]: "put_bytes a [] m = m"
  by (rule ext) (auto simp: put_bytes_def)

lemma uva2ka_run:
  assumes "e = pgdir + 4 * PDX va" "e \<noteq> 0" "ld32 (mem s) (unat e) AND PTE_P \<noteq> 0"
    "t = P2V (PTE_ADDR (ld32 (mem s) (unat e))) + 4 * PTX va" "t \<noteq> 0"
  shows "uva2ka pgdir va s = Inr (if ld32 (mem s) (unat t) AND PTE_P = 0 \<or> ld32 (mem s) (unat t) AND PTE_U = 0 then 0
      else P2V (PTE_ADDR (ld32 (mem s) (unat t))), s)"
  using assms by (simp add: uva2ka_def walkpgdir_def ldw_def ret_def)

lemma same_outside_ld32:
  assumes "same_outside K m m'" "a + 4 \<le> unat K \<or> unat K + 4096 \<le> a"
  shows "ld32 m' a = ld32 m a"
  using assms by (intro ld32_cong) (auto simp: same_outside_def)

text \<open>The page tables that make the stack page accessible and the page below it not.\<close>

lemma stack_ok_tables:
  assumes "4096 dvd unat sz" "8192 \<le> unat sz"
    and e: "e = pgdir + 4 * PDX (sz - 4096)" "e \<noteq> 0" "ld32 (mem s) (unat e) AND PTE_P \<noteq> 0"
    and t: "t = P2V (PTE_ADDR (ld32 (mem s) (unat e))) + 4 * PTX (sz - 4096)" "t \<noteq> 0"
    and pt: "ld32 (mem s) (unat t) AND PTE_P \<noteq> 0" "ld32 (mem s) (unat t) AND PTE_U \<noteq> 0" "K = P2V (PTE_ADDR (ld32 (mem s) (unat t)))" "K \<noteq> 0"
    and e': "e' = pgdir + 4 * PDX (sz - 8192)" "e' \<noteq> 0" "ld32 (mem s) (unat e') AND PTE_P \<noteq> 0"
    and t': "t' = P2V (PTE_ADDR (ld32 (mem s) (unat e'))) + 4 * PTX (sz - 8192)" "t' \<noteq> 0" "ld32 (mem s) (unat t') AND PTE_U = 0"
    and out: "\<forall>a\<in>{e, t, e', t'}. unat a + 4 \<le> unat K \<or> unat K + 4096 \<le> unat a"
  shows "stack_ok pgdir sz K s"
proof -
  have "uva2ka pgdir (sz - 4096) (s\<lparr>mem := m\<rparr>) = Inr (K, s\<lparr>mem := m\<rparr>) \<and> uva2ka pgdir (sz - 8192) (s\<lparr>mem := m\<rparr>) = Inr (0, s\<lparr>mem := m\<rparr>)"
    if m: "same_outside K (mem s) m" for m
  proof -
    have l: "ld32 m (unat a) = ld32 (mem s) (unat a)" if "a \<in> {e, t, e', t'}" for a
      using same_outside_ld32 [OF m] out that by blast
    show ?thesis
      using uva2ka_run [of e pgdir "sz - 4096" "s\<lparr>mem := m\<rparr>" t] uva2ka_run [of e' pgdir "sz - 8192" "s\<lparr>mem := m\<rparr>" t'] e t pt e' t' l
      by simp
  qed
  then show ?thesis using assms(1,2) pt(4) unfolding stack_ok_def by blast
qed

lemma page_below:
  assumes "stack_ok pgdir sz K s"
  shows "unat (sz - 4096) = unat sz - 4096" "unat (sz - 8192) = unat sz - 8192"
  using assms by (simp_all add: stack_ok_def unat_sub word_le_nat_alt)

lemma stack_ok_uva:
  assumes "stack_ok pgdir sz K s"
  shows "uva2ka pgdir (sz - 4096) s = Inr (K, s)" "uva2ka pgdir (sz - 8192) s = Inr (0, s)" "K \<noteq> 0"
proof -
  have "s\<lparr>mem := mem s\<rparr> = s" by simp
  then show "uva2ka pgdir (sz - 4096) s = Inr (K, s)" "uva2ka pgdir (sz - 8192) s = Inr (0, s)" "K \<noteq> 0"
    using assms same_outside_refl [of K "mem s"] unfolding stack_ok_def by fastforce+
qed

lemma copyout_stack:
  assumes ok: "stack_ok pgdir sz K s" and va: "unat sz - 4096 \<le> unat va" "unat va + length bs \<le> unat sz"
  shows "copyout pgdir va bs s = Inr (0, s\<lparr>mem := put_bytes (unat K + (unat va - (unat sz - 4096))) bs (mem s)\<rparr>)"
proof (cases "bs = []")
  case True
  then show ?thesis by (simp add: copyout_def ret_def)
next
  case False
  obtain k where k: "unat sz = 4096 * k" "2 \<le> k" using ok by (auto simp: stack_ok_def elim!: dvdE)
  have "unat va < unat sz" using False va(2) by (cases bs) auto
  then have "unat va div 4096 = k - 1" using va(1) k by (intro div_nat_eqI) auto
  then have r: "PGROUNDDOWN va = sz - 4096"
    using k page_below [OF ok] by (simp add: word_unat_eq_iff unat_PGROUNDDOWN diff_mult_distrib)
  have "sz - 4096 \<le> va" using va(1) page_below [OF ok] by (simp add: word_le_nat_alt)
  then have o: "unat (va - (sz - 4096)) = unat va - (unat sz - 4096)" using page_below [OF ok] by (simp add: unat_sub)
  have n: "min (PGSIZE - (unat va - (unat sz - 4096))) (length bs) = length bs" using va k by simp
  have e: "copyout_loop pgdir a [] = ret 0" for a by (rule ext) simp
  show ?thesis
    unfolding copyout_def using False stack_ok_uva(3) [OF ok]
    by (subst copyout_loop.simps) (simp add: r n o e stack_ok_uva [OF ok] Let_def ret_def del: copyout_loop.simps)
qed

lemma copyout_guard:
  assumes ok: "stack_ok pgdir sz K s" and va: "unat sz - 8192 \<le> unat va" "unat va < unat sz - 4096" "bs \<noteq> []"
  shows "copyout pgdir va bs s = Inr (- 1, s)"
proof -
  have "4096 dvd unat sz - 8192" using ok by (simp add: stack_ok_def dvd_diff_nat)
  then obtain k where k: "unat sz - 8192 = 4096 * k" by (elim dvdE)
  moreover have "8192 \<le> unat sz" using ok by (simp add: stack_ok_def)
  ultimately have "4096 * k \<le> unat va" "unat va < 4096 * Suc k" using va(1,2) unfolding mult_Suc_right by linarith+
  then have "unat va div 4096 = k" by (rule div_nat_eqI)
  then have "unat (PGROUNDDOWN va) = unat (sz - 8192)" using k page_below(2) [OF ok] by (simp only: unat_PGROUNDDOWN mult.commute)
  then have r: "PGROUNDDOWN va = sz - 8192" by (simp only: word_unat_eq_iff)
  show ?thesis
    unfolding copyout_def using va(3) by (subst copyout_loop.simps) (simp add: r stack_ok_uva [OF ok] Let_def ret_def del: copyout_loop.simps)
qed

section \<open>Argument strings\<close>

text \<open>Where the strings go: each below the one before, at a multiple of four.\<close>

primrec arg_places :: "nat \<Rightarrow> u8 list list \<Rightarrow> nat list" where
  "arg_places p [] = []"
| "arg_places p (a # as) = (let q = (p - (length a + 1)) div 4 * 4 in q # arg_places q as)"

lemma unat_and_not_3: "unat (a AND NOT 3 :: u32) = unat a div 4 * 4"
proof -
  have m: "(3 :: u32) = mask 2" by (simp add: mask_eq_exp_minus_1)
  have s: "Suc (Suc (n - 2)) = n" if "2 \<le> n" for n using that by simp
  have "a AND NOT 3 = push_bit 2 (drop_bit 2 a)"
    unfolding m by (rule bit_word_eqI) (auto simp: bit_simps not_less s)
  moreover have "unat a div 4 * 4 < 2 ^ 32"
    using unsigned_less [of a, where 'a = nat] by (simp add: order.strict_trans1 [OF div_times_less_eq_dividend])
  ultimately show ?thesis
    by (simp add: drop_bit_eq_div push_bit_eq_mult unat_word_ariths(2) unat_div)
qed

text \<open>The next place is where \<open>push_args\<close> copies the string to, and it is at most a page down.\<close>

lemma next_place:
  assumes "4096 \<le> unat sp" "length a \<le> 4092"
  shows "unat ((sp - (of_nat (length a) + 1)) AND NOT 3 :: u32) = (unat sp - (length a + 1)) div 4 * 4"
    and "(unat sp - (length a + 1)) div 4 * 4 + length a + 1 \<le> unat sp"
    and "unat sp \<le> (unat sp - (length a + 1)) div 4 * 4 + 4096"
proof -
  have l: "unat (of_nat (length a) + 1 :: u32) = length a + 1" using assms(2) by (simp add: unat_word_ariths unat_of_nat)
  then have "unat (sp - (of_nat (length a) + 1)) = unat sp - (length a + 1)"
    using assms by (subst unat_sub) (simp_all add: word_le_nat_alt)
  then show "unat ((sp - (of_nat (length a) + 1)) AND NOT 3 :: u32) = (unat sp - (length a + 1)) div 4 * 4"
    by (simp only: unat_and_not_3)
  let ?d = "unat sp - (length a + 1)"
  have "?d div 4 * 4 \<le> ?d" "?d < ?d div 4 * 4 + 4" using dividend_less_div_times [of 4 ?d] by (simp_all add: add.commute)
  then show "?d div 4 * 4 + length a + 1 \<le> unat sp" "unat sp \<le> ?d div 4 * 4 + 4096" using assms by linarith+
qed

definition strings_at :: "u32 \<Rightarrow> u32 \<Rightarrow> bmem \<Rightarrow> nat list \<Rightarrow> u8 list list \<Rightarrow> bool" where
  "strings_at sz K m = list_all2 (\<lambda>q a. \<forall>k\<le>length a. stk sz K m (q + k) = (a @ [0]) ! k)"

lemma stk_put:
  assumes "unat sz - 4096 \<le> q" "unat sz - 4096 \<le> a"
  shows "stk sz K (put_bytes (unat K + (q - (unat sz - 4096))) bs m) a = (if q \<le> a \<and> a < q + length bs then bs ! (a - q) else stk sz K m a)"
  using assms by (auto simp: stk_def put_bytes_def)

lemma put_in_page:
  assumes "unat sz - 4096 \<le> q" "q + length bs \<le> unat sz"
  shows "same_outside K m (put_bytes (unat K + (q - (unat sz - 4096))) bs m)"
  using assms by (auto simp: same_outside_def put_bytes_def)

text \<open>What \<open>push_args\<close> has done: \<open>r\<close> is its result, \<open>m\<close> the memory it leaves.\<close>

definition pushed :: "u32 \<Rightarrow> u32 \<Rightarrow> u8 list list \<Rightarrow> nat \<Rightarrow> u32 \<Rightarrow> bmem \<Rightarrow> (u32 \<times> u32 list) option \<Rightarrow> bmem \<Rightarrow> bool" where
  "pushed sz K argv argc sp m0 r m \<longleftrightarrow> same_outside K m0 m \<and>
     (let ps = arg_places (unat sp) argv in
      if argc + length argv \<le> MAXARG \<and> (\<forall>q\<in>set ps. unat sz - 4096 \<le> q)
      then (\<exists>sp' us. r = Some (sp', us) \<and> map unat us = ps \<and> unat sp' = last (unat sp # ps)) \<and>
        strings_at sz K m ps argv \<and> (\<forall>a. unat sp \<le> a \<and> a < unat sz \<longrightarrow> stk sz K m a = stk sz K m0 a)
      else r = None)"

lemma pushed_Cons:
  assumes p: "pushed sz K argv (Suc argc) sp1 m1 r m" and q: "unat sp1 = (unat sp - (length a + 1)) div 4 * 4"
    "unat sp1 + length a + 1 \<le> unat sp" "unat sz - 4096 \<le> unat sp1" "unat sp \<le> unat sz"
    and m1: "m1 = put_bytes (unat K + (unat sp1 - (unat sz - 4096))) (a @ [0]) m0"
  shows "pushed sz K (a # argv) argc sp m0 (map_option (\<lambda>(sp', us). (sp', sp1 # us)) r) m"
proof -
  let ?ps = "arg_places (unat sp1) argv"
  let ?fit = "Suc argc + length argv \<le> MAXARG \<and> (\<forall>q\<in>set ?ps. unat sz - 4096 \<le> q)"
  have ps: "arg_places (unat sp) (a # argv) = unat sp1 # ?ps" using q(1) by (simp add: Let_def)
  have so: "same_outside K m0 m"
    using p put_in_page [OF q(3), of "a @ [0]" K m0] q(2,4) m1 unfolding pushed_def by (auto intro: same_outside_trans)
  show ?thesis
  proof (cases ?fit)
    case True
    then have r: "\<exists>sp' us. r = Some (sp', us) \<and> map unat us = ?ps \<and> unat sp' = last (unat sp1 # ?ps)" "strings_at sz K m ?ps argv"
      and fr: "\<And>x. unat sp1 \<le> x \<Longrightarrow> x < unat sz \<Longrightarrow> stk sz K m x = stk sz K m1 x"
      using p unfolding pushed_def Let_def by auto
    have at: "stk sz K m x = (if x < unat sp1 + length a + 1 then (a @ [0]) ! (x - unat sp1) else stk sz K m0 x)"
      if "unat sp1 \<le> x" "x < unat sz" for x
      using fr [OF that] stk_put [OF q(3), of x K "a @ [0]" m0] q(3) that by (simp add: m1)
    have "stk sz K m (unat sp1 + k) = (a @ [0]) ! k" if "k \<le> length a" for k
      using at [of "unat sp1 + k"] that q(2,4) by simp
    then have "strings_at sz K m (unat sp1 # ?ps) (a # argv)" using r(2) by (simp add: strings_at_def)
    moreover have "stk sz K m x = stk sz K m0 x" if "unat sp \<le> x" "x < unat sz" for x
      using at [of x] that q(2) by simp
    ultimately show ?thesis using True r(1) so q(3) unfolding pushed_def ps Let_def by auto
  next
    case False
    then have "r = None" using p unfolding pushed_def Let_def by (simp split: if_splits)
    then show ?thesis using False so unfolding pushed_def ps Let_def by auto
  qed
qed

lemma push_args_run:
  assumes "stack_ok pgdir sz K s" "unat sz - 4096 \<le> unat sp" "unat sp \<le> unat sz" "\<forall>a\<in>set argv. length a \<le> 4092" "argc \<le> MAXARG"
  shows "\<exists>r m. push_args pgdir argv argc sp s = Inr (r, s\<lparr>mem := m\<rparr>) \<and> pushed sz K argv argc sp (mem s) r m"
  using assms
proof (induction argv arbitrary: argc sp s)
  case Nil
  then show ?case by (intro exI [of _ "Some (sp, [])"] exI [of _ "mem s"]) (simp add: ret_def pushed_def strings_at_def)
next
  case (Cons a argv)
  define sp1 where "sp1 = (sp - (of_nat (length a) + 1)) AND NOT 3"
  define q where "q = (unat sp - (length a + 1)) div 4 * 4"
  have sz: "8192 \<le> unat sz" using Cons.prems(1) by (simp add: stack_ok_def)
  have q: "unat sp1 = q" "q + length a + 1 \<le> unat sp" "unat sp \<le> q + 4096"
    using next_place [of sp a] Cons.prems(2,4) sz unfolding sp1_def q_def by simp_all
  have ps: "arg_places (unat sp) (a # argv) = q # arg_places q argv" by (simp add: q_def Let_def)
  have pa: "push_args pgdir (a # argv) argc sp s = (if argc \<ge> MAXARG then ret None
      else bnd (copyout pgdir sp1 (a @ [0])) (\<lambda>r. if r < 0 then ret None
        else bnd (push_args pgdir argv (Suc argc) sp1) (\<lambda>o'. ret (map_option (\<lambda>(sp', us). (sp', sp1 # us)) o')))) s"
    by (simp only: push_args.simps sp1_def Let_def)
  consider "argc \<ge> MAXARG" | "argc < MAXARG" "q < unat sz - 4096" | "argc < MAXARG" "unat sz - 4096 \<le> q" by linarith
  then show ?case
  proof cases
    case 1
    then show ?thesis unfolding pa by (intro exI [of _ None] exI [of _ "mem s"]) (simp add: ret_def pushed_def)
  next
    case 2
    have "copyout pgdir sp1 (a @ [0]) s = Inr (- 1, s)" using 2(2) q Cons.prems(2) by (intro copyout_guard [OF Cons.prems(1)]) simp_all
    then show ?thesis using 2 unfolding pa pushed_def ps by (intro exI [of _ None] exI [of _ "mem s"]) (simp add: ret_def)
  next
    case 3
    define m1 where "m1 = put_bytes (unat K + (q - (unat sz - 4096))) (a @ [0]) (mem s)"
    have c: "copyout pgdir sp1 (a @ [0]) s = Inr (0, s\<lparr>mem := m1\<rparr>)"
      using copyout_stack [OF Cons.prems(1), of sp1 "a @ [0]"] 3(2) q Cons.prems(3) by (simp add: m1_def)
    have so: "same_outside K (mem s) m1" using put_in_page [OF 3(2), of "a @ [0]" K "mem s"] q Cons.prems(3) by (simp add: m1_def)
    obtain r m where r: "push_args pgdir argv (Suc argc) sp1 (s\<lparr>mem := m1\<rparr>) = Inr (r, s\<lparr>mem := m\<rparr>)" "pushed sz K argv (Suc argc) sp1 m1 r m"
      using Cons.IH [OF stack_ok_write [OF Cons.prems(1) so], of sp1 "Suc argc"] q 3 Cons.prems(3,4) by auto
    have "push_args pgdir (a # argv) argc sp s = Inr (map_option (\<lambda>(sp', us). (sp', sp1 # us)) r, s\<lparr>mem := m\<rparr>)"
      unfolding pa using 3(1) c r(1) by (simp add: ret_def)
    moreover have "pushed sz K (a # argv) argc sp (mem s) (map_option (\<lambda>(sp', us). (sp', sp1 # us)) r) m"
      using 3(2) q Cons.prems(3) by (intro pushed_Cons [OF r(2)]) (simp_all add: m1_def q_def)
    ultimately show ?thesis by blast
  qed
qed

section \<open>The frame of main\<close>

text \<open>The word at a user address of the stack page.\<close>

definition stkw :: "u32 \<Rightarrow> u32 \<Rightarrow> bmem \<Rightarrow> nat \<Rightarrow> u32" where
  "stkw sz K m a = ld32 m (unat K + (a - (unat sz - 4096)))"

lemma length_words: "length (concat (map word_bytes ws)) = 4 * length ws"
  by (induction ws) (simp_all add: word_bytes_def)

lemma nth_words: "i < length ws \<Longrightarrow> j < 4 \<Longrightarrow> concat (map word_bytes ws) ! (4 * i + j) = word_bytes (ws ! i) ! j"
proof (induction ws arbitrary: i)
  case (Cons w ws)
  have l: "length (word_bytes w) = 4" by (simp add: word_bytes_def)
  show ?case using Cons.IH [of "i - 1"] Cons.prems by (cases i) (simp_all add: nth_append l)
qed simp

lemma ld32_word_bytes:
  assumes "\<And>j. j < 4 \<Longrightarrow> m (a + j) = word_bytes w ! j"
  shows "ld32 m a = w"
proof -
  have "m (a + j) = st32 m a w (a + j)" if "j < 4" for j
  proof -
    consider "j = 0" | "j = 1" | "j = 2" | "j = 3" using \<open>j < 4\<close> by linarith
    then show ?thesis using assms [OF that] by cases (simp_all add: st32_def word_bytes_def)
  qed
  then have "ld32 m a = ld32 (st32 m a w) a" by (rule ld32_cong)
  then show ?thesis by simp
qed

lemma ld32_put_words:
  assumes "i < length ws"
  shows "ld32 (put_bytes a (concat (map word_bytes ws)) m) (a + 4 * i) = ws ! i"
proof (rule ld32_word_bytes)
  fix j :: nat assume j: "j < 4"
  then have "4 * i + j < 4 * length ws" using assms by linarith
  then show "put_bytes a (concat (map word_bytes ws)) m (a + 4 * i + j) = word_bytes (ws ! i) ! j"
    using nth_words [OF assms j] by (simp add: put_bytes_def length_words add.assoc)
qed

lemma arg_places_last: "last (p # arg_places p as) \<le> p"
proof (induction as arbitrary: p)
  case (Cons a as)
  have "(p - (length a + 1)) div 4 * 4 \<le> p" by (meson div_times_less_eq_dividend diff_le_self le_trans)
  then show ?case using Cons.IH [of "(p - (length a + 1)) div 4 * 4"] by (simp add: Let_def)
qed simp

lemma arg_places_above: "q \<in> set (arg_places p as) \<Longrightarrow> last (p # arg_places p as) \<le> q"
proof (induction as arbitrary: p)
  case (Cons a as)
  define p' where "p' = (p - (length a + 1)) div 4 * 4"
  have ps: "arg_places p (a # as) = p' # arg_places p' as" by (simp add: p'_def Let_def)
  then have "q = p' \<or> q \<in> set (arg_places p' as)" using Cons.prems by simp
  then show ?case unfolding ps using Cons.IH [of p'] arg_places_last [of p' as] by (simp del: arg_places.simps) fastforce
qed simp

lemma length_arg_places [simp]: "length (arg_places p as) = length as"
  by (induction as arbitrary: p) (simp_all add: Let_def)

lemma nth_ustack:
  "ustack sp us ! 0 = 0xFFFFFFFF" "ustack sp us ! 1 = of_nat (length us)" "ustack sp us ! 2 = sp - (of_nat (length us) + 1) * 4"
  "i < length us \<Longrightarrow> ustack sp us ! (3 + i) = us ! i" "ustack sp us ! (3 + length us) = 0" "length (ustack sp us) = length us + 4"
  by (simp_all add: ustack_def nth_append numeral_2_eq_2 numeral_3_eq_3)

text \<open>A fake return address, \<open>argc\<close>, \<open>argv\<close>, the vector of string addresses with its terminator, and the strings.\<close>

definition main_frame :: "u32 \<Rightarrow> u32 \<Rightarrow> bmem \<Rightarrow> u8 list list \<Rightarrow> nat \<Rightarrow> bool" where
  "main_frame sz K m argv fp \<longleftrightarrow> (let ps = arg_places (unat sz) argv; n = length argv in
     stkw sz K m fp = 0xFFFFFFFF \<and> stkw sz K m (fp + 4) = of_nat n \<and> stkw sz K m (fp + 8) = of_nat (fp + 12) \<and>
     (\<forall>i<n. stkw sz K m (fp + 12 + 4 * i) = of_nat (ps ! i)) \<and> stkw sz K m (fp + 12 + 4 * n) = 0 \<and>
     strings_at sz K m ps argv)"

definition stack_fits :: "u32 \<Rightarrow> u8 list list \<Rightarrow> bool" where
  "stack_fits sz argv \<longleftrightarrow> (let ps = arg_places (unat sz) argv in
     length argv \<le> MAXARG \<and> (\<forall>q\<in>set ps. unat sz - 4096 \<le> q) \<and> unat sz - 4096 + 4 * (length argv + 4) \<le> last (unat sz # ps))"

lemma main_frame_put:
  assumes len: "length us = length argv" "length argv \<le> MAXARG" and us: "map unat us = arg_places (unat sz) argv"
    and sp: "unat sp = last (unat sz # arg_places (unat sz) argv)" and fp: "unat sp = fp + 4 * (length argv + 4)" "unat sz - 4096 \<le> fp"
    and str: "strings_at sz K m (arg_places (unat sz) argv) argv"
  shows "main_frame sz K (put_bytes (unat K + (fp - (unat sz - 4096))) (concat (map word_bytes (ustack sp us))) m) argv fp"
    (is "main_frame sz K ?m argv fp")
proof -
  have w: "stkw sz K ?m (fp + 4 * i) = ustack sp us ! i" if "i < length argv + 4" for i
  proof -
    have "unat K + (fp + 4 * i - (unat sz - 4096)) = unat K + (fp - (unat sz - 4096)) + 4 * i" using fp(2) by linarith
    then show ?thesis unfolding stkw_def using that len(1) by (simp only: ld32_put_words nth_ustack(6))
  qed
  have av: "sp - (of_nat (length us) + 1) * 4 = of_nat (fp + 12)"
  proof -
    have "of_nat (unat sp) = (of_nat (fp + 4 * (length argv + 4)) :: u32)" using fp(1) by simp
    then show ?thesis using len(1) by (simp add: algebra_simps)
  qed
  have at: "us ! i = of_nat (arg_places (unat sz) argv ! i)" if "i < length argv" for i
  proof -
    have "arg_places (unat sz) argv ! i = unat (us ! i)" using that len(1) by (simp flip: us)
    then show ?thesis by simp
  qed
  have keep: "stk sz K ?m a = stk sz K m a" if "unat sp \<le> a" for a
    using stk_put [OF fp(2), of a K _ m] that fp len(1) by (simp add: length_words nth_ustack(6))
  have "strings_at sz K ?m (arg_places (unat sz) argv) argv"
    using str arg_places_above [of _ "unat sz" argv] unfolding strings_at_def sp [symmetric]
    by (auto simp: list_all2_conv_all_nth keep trans_le_add1)
  then show ?thesis
    using w [of 0] w [of 1] w [of 2] w [of "3 + length argv"] w [of "3 + i" for i] nth_ustack [where sp = sp and us = us] av at len(1)
    by (simp add: main_frame_def Let_def algebra_simps)
qed

lemma frame_sub:
  assumes "n \<le> MAXARG" "4096 \<le> unat sp"
  shows "unat (sp - (3 + of_nat n + 1) * 4 :: u32) = unat sp - 4 * (n + 4)"
proof -
  have "unat ((3 + of_nat n + 1) * 4 :: u32) = 4 * (n + 4)" using assms(1) by (simp add: unat_word_ariths unat_of_nat)
  then show ?thesis using assms by (simp add: unat_sub word_le_nat_alt)
qed

text \<open>The second half of \<open>build_stack\<close>, after the strings.\<close>

lemma build_stack_frame:
  assumes ok: "stack_ok pgdir sz K (s\<lparr>mem := m\<rparr>)" and r: "push_args pgdir argv 0 sz s = Inr (Some (sp, us), s\<lparr>mem := m\<rparr>)"
    and len: "length argv \<le> MAXARG" and us: "map unat us = arg_places (unat sz) argv"
    and sp: "unat sp = last (unat sz # arg_places (unat sz) argv)" "unat sz - 4096 \<le> unat sp"
    and str: "strings_at sz K m (arg_places (unat sz) argv) argv" and fp: "fp = unat sp - 4 * (length argv + 4)"
  shows "if unat sz - 4096 + 4 * (length argv + 4) \<le> unat sp
    then \<exists>m'. same_outside K m m' \<and> build_stack pgdir argv sz s = Inr (Some (of_nat fp), s\<lparr>mem := m'\<rparr>) \<and> main_frame sz K m' argv fp
    else build_stack pgdir argv sz s = Inr (None, s\<lparr>mem := m\<rparr>)"
proof -
  define sp2 where "sp2 = sp - (3 + of_nat (length us) + 1) * 4"
  define w where "w = concat (map word_bytes (ustack sp us))"
  have lu: "length us = length argv" using arg_cong [OF us, of length] by simp
  have lw: "length w = 4 * (length argv + 4)" by (simp add: w_def length_words nth_ustack(6) lu)
  have sz: "8192 \<le> unat sz" using ok by (simp add: stack_ok_def)
  then have sp2: "unat sp2 = fp" using frame_sub [of "length us" sp] len sp(2) lu by (simp add: fp sp2_def)
  have b: "build_stack pgdir argv sz s = bnd (copyout pgdir sp2 w) (\<lambda>c. if c < 0 then ret None else ret (Some sp2)) (s\<lparr>mem := m\<rparr>)"
    by (simp only: build_stack_def bnd_Inr [where m = "push_args pgdir argv 0 sz" and s = s, OF r] option.case prod.case Let_def w_def sp2_def)
  show ?thesis
  proof (cases "unat sz - 4096 + 4 * (length argv + 4) \<le> unat sp")
    case True
    then have t: "unat sp = fp + 4 * (length argv + 4)" "unat sz - 4096 \<le> fp" by (simp_all add: fp)
    have le: "unat sp \<le> unat sz" unfolding sp(1) by (rule arg_places_last)
    let ?m = "put_bytes (unat K + (fp - (unat sz - 4096))) w m"
    have "copyout pgdir sp2 w (s\<lparr>mem := m\<rparr>) = Inr (0, s\<lparr>mem := ?m\<rparr>)"
      using copyout_stack [OF ok, of sp2 w] t lw le by (simp add: sp2)
    moreover have "same_outside K m ?m" using put_in_page [OF t(2), of w K m] t(1) lw le by simp
    moreover have "main_frame sz K ?m argv fp" unfolding w_def using lu len us sp(1) t str by (intro main_frame_put) auto
    moreover have "sp2 = of_nat fp" unfolding sp2 [symmetric] by simp
    ultimately show ?thesis using True unfolding b by (auto simp: ret_def)
  next
    case False
    have "w \<noteq> []" using lw by auto
    then have "copyout pgdir sp2 w (s\<lparr>mem := m\<rparr>) = Inr (- 1, s\<lparr>mem := m\<rparr>)"
      using False sp(2) len sz by (intro copyout_guard [OF ok]) (simp_all add: sp2 fp)
    then show ?thesis using False unfolding b by (simp add: ret_def)
  qed
qed

text \<open>
  C12: a new program starts with its arguments. When the stack page of the new image is mapped and the page
  below it is not accessible, and no string is longer than a page, then either everything fits and the
  program finds the frame of \<open>main(argc, argv)\<close> at the stack pointer: \<open>argc\<close>, the address of a
  null-terminated vector of the addresses of the strings, and the strings, terminated, in the order given;
  or it does not fit (too many arguments, or strings that would reach below the page) and \<open>exec\<close>
  fails. Only the stack page changes.
\<close>

theorem exec_builds_stack:
  assumes ok: "stack_ok pgdir sz K s" and len: "\<forall>a\<in>set argv. length a \<le> 4092"
  shows "\<exists>m. same_outside K (mem s) m \<and>
    (let fp = last (unat sz # arg_places (unat sz) argv) - 4 * (length argv + 4) in
     if stack_fits sz argv
     then build_stack pgdir argv sz s = Inr (Some (of_nat fp), s\<lparr>mem := m\<rparr>) \<and> main_frame sz K m argv fp
     else build_stack pgdir argv sz s = Inr (None, s\<lparr>mem := m\<rparr>))"
proof -
  let ?ps = "arg_places (unat sz) argv"
  obtain r m where r: "push_args pgdir argv 0 sz s = Inr (r, s\<lparr>mem := m\<rparr>)" and p: "pushed sz K argv 0 sz (mem s) r m"
    using push_args_run [OF ok, of sz argv 0] len by auto
  have so: "same_outside K (mem s) m" using p by (simp add: pushed_def)
  have sz: "8192 \<le> unat sz" using ok by (simp add: stack_ok_def)
  show ?thesis
  proof (cases "length argv \<le> MAXARG \<and> (\<forall>q\<in>set ?ps. unat sz - 4096 \<le> q)")
    case False
    then have "r = None" "\<not> stack_fits sz argv" using p by (auto simp: pushed_def stack_fits_def Let_def split: if_splits)
    then show ?thesis using so r by (intro exI [of _ m]) (simp add: build_stack_def ret_def Let_def)
  next
    case True
    then obtain sp us where res: "r = Some (sp, us)" "map unat us = ?ps" "unat sp = last (unat sz # ?ps)" "strings_at sz K m ?ps argv"
      using p by (auto simp: pushed_def Let_def)
    have low: "unat sz - 4096 \<le> unat sp" using True unfolding res(3) by (cases ?ps rule: rev_cases) auto
    have fits: "stack_fits sz argv \<longleftrightarrow> unat sz - 4096 + 4 * (length argv + 4) \<le> unat sp"
      using True unfolding stack_fits_def Let_def res(3) by blast
    note f = build_stack_frame [OF stack_ok_write [OF ok so] r [unfolded res(1)] _ res(2,3) low res(4) refl, folded fits]
    show ?thesis
    proof (cases "stack_fits sz argv")
      case fit: True
      then obtain m' where "same_outside K m m'"
        "build_stack pgdir argv sz s = Inr (Some (of_nat (unat sp - 4 * (length argv + 4))), s\<lparr>mem := m'\<rparr>)"
        "main_frame sz K m' argv (unat sp - 4 * (length argv + 4))"
        using f True by (simp only: if_True) blast
      then show ?thesis using fit same_outside_trans [OF so] unfolding Let_def res(3) by (intro exI [of _ m']) (simp only: if_True simp_thms)
    next
      case False
      then show ?thesis using f True so by (intro exI [of _ m]) (simp only: if_False Let_def simp_thms)
    qed
  qed
qed

theorem exec_builds_stack_witness:
  "\<exists>m. same_outside 0x80700000 (mem user_st) m \<and> build_stack 0x80500000 [[108, 115], [45, 108]] 0x2000 user_st = Inr (Some 0x1FE0, user_st\<lparr>mem := m\<rparr>) \<and>
     main_frame 0x2000 0x80700000 m [[108, 115], [45, 108]] 0x1FE0"
proof -
  have z: "ld32 (mem user_st) 0x80600000 = 0" by (simp add: mem_simps user_st_word)
  have "stack_ok 0x80500000 0x2000 0x80700000 user_st"
    by (rule stack_ok_tables [where e = "0x80500000" and t = "0x80600004" and e' = "0x80500000" and t' = "0x80600000"])
      (simp_all add: user_st_tables z PDX_def PTX_def PTE_ADDR_def P2V_def del: user_st_sel)
  from exec_builds_stack [OF this, of "[[108, 115], [45, 108]]"] show ?thesis
    by (simp add: stack_fits_def Let_def)
qed

end
