(* ===== verification/Swap_Spec.thy ===== *)
theory Swap_Spec
  imports Boot
begin

text \<open>
  The swap table of a process as a store of pages. The table is searched in two ways: a page goes out to
  the first slot that is not in use, and it is looked up by its address alone, whether the slot is in use or
  not. Slots keep the address of a page that has come back, so the lookup is right only because of the
  order in which slots are given out, and because no page goes out twice.
\<close>

section \<open>The swap file as a step relation\<close>

text \<open>
  The process, the pages of its swap file by slot, and, as a specification variable, the contents that each
  page had when it went out. A page that is out is not swapped out again before it has come back.
\<close>

record swap_sys =
  sy_proc :: proc
  sy_file :: "nat \<Rightarrow> u8 list"
  sy_saved :: "u32 \<Rightarrow> u8 list option"

inductive swap_step :: "swap_sys \<Rightarrow> swap_sys \<Rightarrow> bool" where
  sy_out: "sy_saved s va = None \<Longrightarrow> first_idx (\<lambda>i. \<not> pm_used (p_swap (sy_proc s) i)) NSWAP = Some idx \<Longrightarrow>
    swap_step s (s\<lparr>sy_proc := swap_out_entry idx pgdir va (sy_proc s), sy_file := (sy_file s)(idx := bs),
      sy_saved := (sy_saved s)(va := Some bs)\<rparr>)"
| sy_in: "sy_saved s va = Some bs \<Longrightarrow> first_idx (\<lambda>i. pm_va (p_swap (sy_proc s) i) = va) NSWAP = Some i \<Longrightarrow>
    swap_step s (s\<lparr>sy_proc := swap_in_entry k i (sy_proc s), sy_saved := (sy_saved s)(va := None)\<rparr>)"

definition swap_init :: "swap_sys \<Rightarrow> bool" where
  "swap_init s \<longleftrightarrow> (\<forall>i<NSWAP. \<not> pm_used (p_swap (sy_proc s) i)) \<and> sy_saved s = (\<lambda>_. None)"

section \<open>Lookup finds the page\<close>

text \<open>The used slots hold exactly the pages that are out, and no slot before a used one has its address.\<close>

definition slot_ok :: "swap_sys \<Rightarrow> nat \<Rightarrow> bool" where
  "slot_ok s i \<longleftrightarrow> sy_saved s (pm_va (p_swap (sy_proc s) i)) = Some (sy_file s i) \<and>
     (\<forall>j<i. pm_va (p_swap (sy_proc s) j) \<noteq> pm_va (p_swap (sy_proc s) i))"

definition swap_inv :: "swap_sys \<Rightarrow> bool" where
  "swap_inv s \<longleftrightarrow> (\<forall>i<NSWAP. pm_used (p_swap (sy_proc s) i) \<longrightarrow> slot_ok s i) \<and>
     (\<forall>va bs. sy_saved s va = Some bs \<longrightarrow> (\<exists>i<NSWAP. pm_used (p_swap (sy_proc s) i) \<and> pm_va (p_swap (sy_proc s) i) = va))"

lemma swap_inv_lookup:
  assumes "swap_inv s" "sy_saved s va = Some bs"
  shows "\<exists>i<NSWAP. first_idx (\<lambda>i. pm_va (p_swap (sy_proc s) i) = va) NSWAP = Some i \<and> pm_used (p_swap (sy_proc s) i) \<and> sy_file s i = bs"
proof -
  obtain i where i: "i < NSWAP" "pm_used (p_swap (sy_proc s) i)" "pm_va (p_swap (sy_proc s) i) = va"
    using assms unfolding swap_inv_def by blast
  then have "slot_ok s i" using assms(1) unfolding swap_inv_def by blast
  then have "sy_file s i = bs" "\<And>j. j < i \<Longrightarrow> pm_va (p_swap (sy_proc s) j) \<noteq> va"
    using assms(2) i(3) unfolding slot_ok_def by auto
  then show ?thesis using i by (intro exI [of _ i] conjI first_idx_SomeI) auto
qed

lemma swap_inv_out:
  assumes inv: "swap_inv s" and out: "sy_saved s va = None"
    and idx: "first_idx (\<lambda>i. \<not> pm_used (p_swap (sy_proc s) i)) NSWAP = Some idx"
  shows "swap_inv (s\<lparr>sy_proc := swap_out_entry idx pgdir va (sy_proc s), sy_file := (sy_file s)(idx := bs), sy_saved := (sy_saved s)(va := Some bs)\<rparr>)"
    (is "swap_inv ?t")
proof -
  have used: "pm_va (p_swap (sy_proc s) i) \<noteq> va" if "i < NSWAP" "pm_used (p_swap (sy_proc s) i)" for i
    using inv out that unfolding swap_inv_def slot_ok_def by force
  have "slot_ok ?t i" if "i < NSWAP" "pm_used (p_swap (sy_proc ?t) i)" for i
  proof (cases "i = idx")
    case True
    then show ?thesis using first_idx_SomeD [OF idx] used by (auto simp: slot_ok_def swap_out_entry_def)
  next
    case False
    then have "pm_used (p_swap (sy_proc s) i)" using that by (simp add: swap_out_entry_def)
    then show ?thesis using inv that(1) False used [of i] unfolding swap_inv_def by (auto simp: slot_ok_def swap_out_entry_def)
  qed
  moreover have "\<exists>i<NSWAP. pm_used (p_swap (sy_proc ?t) i) \<and> pm_va (p_swap (sy_proc ?t) i) = v" if sv: "sy_saved ?t v = Some b" for v b
  proof (cases "v = va")
    case True
    then show ?thesis using first_idx_SomeD(1) [OF idx] by (intro exI [of _ idx]) (simp add: swap_out_entry_def)
  next
    case False
    then obtain i where "i < NSWAP" "pm_used (p_swap (sy_proc s) i)" "pm_va (p_swap (sy_proc s) i) = v"
      using inv sv unfolding swap_inv_def by auto
    then show ?thesis using first_idx_SomeD(2) [OF idx] by (intro exI [of _ i]) (auto simp: swap_out_entry_def)
  qed
  ultimately show ?thesis unfolding swap_inv_def by blast
qed

lemma swap_inv_in:
  assumes inv: "swap_inv s" and out: "sy_saved s va = Some bs"
    and i: "first_idx (\<lambda>i. pm_va (p_swap (sy_proc s) i) = va) NSWAP = Some i"
  shows "swap_inv (s\<lparr>sy_proc := swap_in_entry k i (sy_proc s), sy_saved := (sy_saved s)(va := None)\<rparr>)" (is "swap_inv ?t")
proof -
  have used: "pm_used (p_swap (sy_proc ?t) j) \<longleftrightarrow> j \<noteq> i \<and> pm_used (p_swap (sy_proc s) j)"
    and vas: "pm_va (p_swap (sy_proc ?t) j) = pm_va (p_swap (sy_proc s) j)" for j
    by (auto simp: swap_in_entry_def)
  have va: "pm_va (p_swap (sy_proc s) i) = va" using first_idx_SomeD [OF i] by blast
  have other: "pm_va (p_swap (sy_proc s) j) \<noteq> va" if "j < NSWAP" "pm_used (p_swap (sy_proc s) j)" "j \<noteq> i" for j
  proof (cases "j < i")
    case True
    then show ?thesis using first_idx_SomeD [OF i] by blast
  next
    case False
    then show ?thesis using inv that va unfolding swap_inv_def slot_ok_def by (metis linorder_neqE_nat)
  qed
  show ?thesis
    unfolding swap_inv_def slot_ok_def used vas
    using inv other va unfolding swap_inv_def slot_ok_def by auto
qed

interpretation swp: inductive_invariant swap_init swap_step swap_inv
proof unfold_locales
  show "swap_inv s" if "swap_init s" for s using that by (simp add: swap_init_def swap_inv_def)
  show "swap_inv t" if "swap_inv s" "swap_step s t" for s t
    using that(2,1) by cases (simp_all add: swap_inv_out swap_inv_in)
qed

text \<open>
  C17: a page that has been swapped out is found again. In every sequence of swapping pages out and in that
  starts from an empty table, the slot at which \<open>read_page_from_disk\<close> finds the address of a page that is
  out is in use and holds the contents the page had when it went out, although the search does not look
  at whether a slot is in use.
\<close>

theorem swap_finds_page:
  assumes "reach swap_init swap_step s" "sy_saved s va = Some bs"
  shows "\<exists>i<NSWAP. first_idx (\<lambda>i. pm_va (p_swap (sy_proc s) i) = va) NSWAP = Some i \<and> pm_used (p_swap (sy_proc s) i) \<and> sy_file s i = bs"
  using swap_inv_lookup [OF swp.reach_inv [OF assms(1)] assms(2)] .

text \<open>A page goes out, comes back, and goes out again with new contents.\<close>

definition swap0 :: swap_sys where
  "swap0 = \<lparr>sy_proc = procs boot0 0, sy_file = (\<lambda>_. []), sy_saved = (\<lambda>_. None)\<rparr>"

definition swap1 :: swap_sys where
  "swap1 = swap0\<lparr>sy_proc := swap_out_entry 0 0 0x3000 (sy_proc swap0), sy_file := (sy_file swap0)(0 := [7]),
     sy_saved := (sy_saved swap0)(0x3000 := Some [7])\<rparr>"

theorem swap_finds_page_witness:
  "\<exists>i<NSWAP. first_idx (\<lambda>i. pm_va (p_swap (sy_proc swap1) i) = 0x3000) NSWAP = Some i \<and> pm_used (p_swap (sy_proc swap1) i) \<and> sy_file swap1 i = [7]"
proof -
  have "first_idx (\<lambda>i. \<not> pm_used (p_swap (sy_proc swap0) i)) NSWAP = Some 0"
    by (rule first_idx_SomeI) (simp_all add: swap0_def run_proc_def zero_proc_def zero_pm_def)
  then have "swap_step swap0 swap1" unfolding swap1_def by (intro sy_out) (simp add: swap0_def)
  moreover have "swap_init swap0" by (simp add: swap_init_def swap0_def run_proc_def zero_proc_def zero_pm_def)
  ultimately have "reach swap_init swap_step swap1" by (meson reach_init reach_step)
  then show ?thesis by (rule swap_finds_page) (simp add: swap1_def)
qed

section \<open>Entries that are left behind\<close>



end
