(* ===== verification/Tools.thy ===== *)
theory Tools
  imports Cstring
begin

text \<open>
  User programs that filter text: the regular expression matcher and the main loop of \<open>grep.c\<close>, and the
  loops of \<open>cat.c\<close> and \<open>wc.c\<close>. An input is the list of pieces in which bytes become available on a
  descriptor; a call of \<open>read\<close> takes at most what is asked for from the first piece, and an empty result is
  the end of the file. C strings are lists of bytes without their terminating zero.
\<close>

section \<open>Definitions\<close>

type_synonym input = "u8 list list"

fun read_in :: "nat \<Rightarrow> input \<Rightarrow> u8 list \<times> input" where
  "read_in k [] = ([], [])"
| "read_in k (c # cs) = (take k c, if length c \<le> k then cs else drop k c # cs)"

subsection \<open>grep\<close>

text \<open>Matching at the beginning of the text. The bytes are caret, star, dollar and full stop.\<close>

function matchhere :: "u8 list \<Rightarrow> u8 list \<Rightarrow> bool" and matchstar :: "u8 \<Rightarrow> u8 list \<Rightarrow> u8 list \<Rightarrow> bool" where
  "matchhere re tx = (case re of [] \<Rightarrow> True
     | c # re1 \<Rightarrow>
         if re1 \<noteq> [] \<and> hd re1 = 42 then matchstar c (tl re1) tx
         else if c = 36 \<and> re1 = [] then tx = []
         else (case tx of [] \<Rightarrow> False | t # tx1 \<Rightarrow> (c = 46 \<or> c = t) \<and> matchhere re1 tx1))"
| "matchstar c re tx = (matchhere re tx \<or>
     (case tx of [] \<Rightarrow> False | t # tx1 \<Rightarrow> (t = c \<or> c = 46) \<and> matchstar c re tx1))"
  by pat_completeness auto

termination
  by (relation "inv_image (less_than <*lex*> less_than <*lex*> less_than)
      (case_sum (\<lambda>(re, tx). (length re, length tx, 0 :: nat)) (\<lambda>(c, re, tx). (length re, length tx, 1)))")
    (auto simp: neq_Nil_conv)

primrec match_from :: "u8 list \<Rightarrow> u8 list \<Rightarrow> bool" where
  "match_from re [] = matchhere re []"
| "match_from re (t # tx) = (matchhere re (t # tx) \<or> match_from re tx)"

definition match :: "u8 list \<Rightarrow> u8 list \<Rightarrow> bool" where
  "match re tx = (if re \<noteq> [] \<and> hd re = 94 then matchhere (tl re) tx else match_from re tx)"

text \<open>The lines in the buffer: what is written, and the rest from the pointer \<open>p\<close>. The search stops at a zero byte.\<close>

lemma tl_dropWhile_less: "dropWhile P xs \<noteq> [] \<Longrightarrow> length (tl (dropWhile P xs)) < length xs"
  by (metis diff_less_Suc length_dropWhile_le length_greater_0_conv length_tl Suc_pred less_le_trans diff_less zero_less_one)

function grep_lines :: "u8 list \<Rightarrow> u8 list \<Rightarrow> u8 list \<times> u8 list" where
  "grep_lines pattern p =
     (let l = takeWhile (\<lambda>c. c \<noteq> 10 \<and> c \<noteq> 0) p; r = dropWhile (\<lambda>c. c \<noteq> 10 \<and> c \<noteq> 0) p in
      if r = [] \<or> hd r = 0 then ([], p)
      else let (out, q) = grep_lines pattern (tl r)
           in ((if match pattern l then l @ [10] else []) @ out, q))"
  by pat_completeness auto

termination
  by (relation "measure (\<lambda>(_, p). length p)")
    (simp, unfold in_measure prod.case, metis tl_dropWhile_less)

lemma read_in_less: "read_in k inp = (n, inp1) \<Longrightarrow> n \<noteq> [] \<Longrightarrow> sum_list (map length inp1) < sum_list (map length inp)"
  by (cases inp) (auto split: if_splits)

function grep_loop :: "u8 list \<Rightarrow> u8 list \<Rightarrow> input \<Rightarrow> u8 list" where
  "grep_loop pattern kept inp =
     (let (n, inp1) = read_in (1024 - length kept - 1) inp in
      if n = [] then []
      else
        let buf = kept @ n; (out, p) = grep_lines pattern buf
        in out @ grep_loop pattern (if length p = length buf then [] else p) inp1)"
  by pat_completeness auto

termination
  by (relation "measure (\<lambda>(_, _, inp). sum_list (map length inp))") (use read_in_less in force)+

definition grep :: "u8 list \<Rightarrow> input \<Rightarrow> u8 list" where
  "grep pattern inp = grep_loop pattern [] inp"

text \<open>
  The main program: \<open>opn\<close> gives the input of a file or none when it cannot be opened, \<open>stdin\<close> is
  descriptor 0. The result is what goes to descriptors 1 and 2.
\<close>

primrec grep_files :: "u8 list \<Rightarrow> (u8 list \<Rightarrow> input option) \<Rightarrow> u8 list list \<Rightarrow> u8 list" where
  "grep_files pattern opn [] = []"
| "grep_files pattern opn (f # fs) = (case opn f of
     None \<Rightarrow> map of_char ''grep: cannot open '' @ f @ [10]
   | Some inp \<Rightarrow> grep pattern inp @ grep_files pattern opn fs)"

definition grep_main :: "u8 list list \<Rightarrow> (u8 list \<Rightarrow> input option) \<Rightarrow> input \<Rightarrow> u8 list \<times> u8 list" where
  "grep_main argv opn stdin =
     (if length argv \<le> 1 then ([], map of_char ''usage: grep pattern [file ...]'' @ [10])
      else if length argv \<le> 2 then (grep (argv ! 1) stdin, [])
      else (grep_files (argv ! 1) opn (drop 2 argv), []))"

subsection \<open>cat and wc\<close>

text \<open>Both read until the end of the file; \<open>cat\<close> writes each piece, \<open>wc\<close> counts lines, words and characters.\<close>

function cat :: "input \<Rightarrow> u8 list" where
  "cat inp = (let (n, inp1) = read_in 512 inp in if n = [] then [] else n @ cat inp1)"
  by pat_completeness auto

termination
  by (relation "measure (\<lambda>inp. sum_list (map length inp))") (use read_in_less in force)+

record wc_state =
  wc_l :: int
  wc_w :: int
  wc_c :: int
  wc_inword :: bool

definition wc_byte :: "u8 \<Rightarrow> wc_state \<Rightarrow> wc_state" where
  "wc_byte b s =
     (let s = s\<lparr>wc_c := wc_c s + 1\<rparr>;
          s = (if b = 10 then s\<lparr>wc_l := wc_l s + 1\<rparr> else s)
      in if b \<in> {32, 13, 9, 10, 11} then s\<lparr>wc_inword := False\<rparr>
         else if \<not> wc_inword s then s\<lparr>wc_w := wc_w s + 1, wc_inword := True\<rparr>
         else s)"

function wc_loop :: "wc_state \<Rightarrow> input \<Rightarrow> wc_state" where
  "wc_loop s inp = (let (n, inp1) = read_in 512 inp in if n = [] then s else wc_loop (fold wc_byte n s) inp1)"
  by pat_completeness auto

termination
  by (relation "measure (\<lambda>(_, inp). sum_list (map length inp))") (use read_in_less in force)+

definition wc :: "input \<Rightarrow> int \<times> int \<times> int" where
  "wc inp = (let s = wc_loop \<lparr>wc_l = 0, wc_w = 0, wc_c = 0, wc_inword = False\<rparr> inp in (wc_l s, wc_w s, wc_c s))"

declare matchhere.simps [simp del] matchstar.simps [simp del] grep_lines.simps [simp del] grep_loop.simps [simp del]
  cat.simps [simp del] wc_loop.simps [simp del]

section \<open>The matcher\<close>

text \<open>Patterns as sequences of items, each of which stands for a piece of text.\<close>

datatype atom = Lit u8 | Any

datatype item = One atom | Star atom | End

definition atom_of :: "u8 \<Rightarrow> atom" where
  "atom_of c = (if c = 46 then Any else Lit c)"

fun accepts :: "atom \<Rightarrow> u8 \<Rightarrow> bool" where
  "accepts Any c = True"
| "accepts (Lit a) c = (c = a)"

function items :: "u8 list \<Rightarrow> item list" where
  "items re = (case re of [] \<Rightarrow> []
     | c # re1 \<Rightarrow> if re1 \<noteq> [] \<and> hd re1 = 42 then Star (atom_of c) # items (tl re1)
         else if c = 36 \<and> re1 = [] then [End]
         else One (atom_of c) # items re1)"
  by pat_completeness auto

termination
  by (relation "measure length") (auto simp: neq_Nil_conv)

declare items.simps [simp del]

fun spells :: "item \<Rightarrow> u8 list \<Rightarrow> bool" where
  "spells (One a) p = (\<exists>c. p = [c] \<and> accepts a c)"
| "spells (Star a) p = (\<forall>c\<in>set p. accepts a c)"
| "spells End p = (p = [])"

text \<open>The text begins with a piece for each item; with an end mark it is nothing but these pieces.\<close>

definition fits :: "item list \<Rightarrow> u8 list \<Rightarrow> bool" where
  "fits is tx \<longleftrightarrow> (\<exists>ps rest. tx = concat ps @ rest \<and> list_all2 spells is ps \<and> (End \<in> set is \<longrightarrow> rest = []))"

lemma fits_Nil [simp]: "fits [] tx"
  by (auto simp: fits_def)

lemma fits_Cons: "i \<noteq> End \<Longrightarrow> fits (i # is) tx \<longleftrightarrow> (\<exists>p tx1. tx = p @ tx1 \<and> spells i p \<and> fits is tx1)"
proof
  assume "i \<noteq> End" "fits (i # is) tx"
  then obtain qs rest where q: "tx = concat qs @ rest" "list_all2 spells (i # is) qs" "End \<in> set is \<longrightarrow> rest = []"
    unfolding fits_def by auto
  then obtain p ps where "qs = p # ps" "spells i p" "list_all2 spells is ps" by (auto simp: list_all2_Cons1)
  then show "\<exists>p tx1. tx = p @ tx1 \<and> spells i p \<and> fits is tx1"
    using q by (intro exI [of _ p] exI [of _ "concat ps @ rest"]) (auto simp: fits_def)
next
  assume "i \<noteq> End" "\<exists>p tx1. tx = p @ tx1 \<and> spells i p \<and> fits is tx1"
  then obtain p ps rest where "tx = p @ concat ps @ rest" "spells i p" "list_all2 spells is ps" "End \<in> set is \<longrightarrow> rest = []"
    by (auto simp: fits_def)
  then show "fits (i # is) tx" using \<open>i \<noteq> End\<close> unfolding fits_def
    by (intro exI [of _ "p # ps"] exI [of _ rest]) auto
qed

lemma fits_One: "fits (One a # is) tx \<longleftrightarrow> (\<exists>t tx1. tx = t # tx1 \<and> accepts a t \<and> fits is tx1)"
  by (auto simp: fits_Cons) (metis append_Cons append_Nil)

lemma fits_Star: "fits (Star a # is) tx \<longleftrightarrow> fits is tx \<or> (\<exists>t tx1. tx = t # tx1 \<and> accepts a t \<and> fits (Star a # is) tx1)"
proof
  assume "fits (Star a # is) tx"
  then obtain p tx1 where p: "tx = p @ tx1" "\<forall>c\<in>set p. accepts a c" "fits is tx1" by (auto simp: fits_Cons)
  show "fits is tx \<or> (\<exists>t tx1. tx = t # tx1 \<and> accepts a t \<and> fits (Star a # is) tx1)"
  proof (cases p)
    case (Cons t p1)
    then have "fits (Star a # is) (p1 @ tx1)" using p by (auto simp: fits_Cons)
    then show ?thesis using p Cons by auto
  qed (use p in simp)
next
  assume "fits is tx \<or> (\<exists>t tx1. tx = t # tx1 \<and> accepts a t \<and> fits (Star a # is) tx1)"
  then consider "fits is tx" | t p tx1 where "tx = (t # p) @ tx1" "accepts a t" "\<forall>c\<in>set p. accepts a c" "fits is tx1"
    by (auto simp: fits_Cons)
  then show "fits (Star a # is) tx"
  proof cases
    case 1
    then show ?thesis by (simp add: fits_Cons) (rule exI [of _ "[]"], simp)
  next
    case 2
    then have "spells (Star a) (t # p)" by simp
    then show ?thesis using 2 unfolding fits_Cons [OF item.distinct(5)] by blast
  qed
qed

lemma fits_End [simp]: "fits [End] tx \<longleftrightarrow> tx = []"
  by (auto simp: fits_def list_all2_Cons1)

lemma accepts_atom_of: "accepts (atom_of c) t \<longleftrightarrow> c = 46 \<or> c = t"
  by (auto simp: atom_of_def)

lemma matchhere_fits:
  "matchhere re tx \<longleftrightarrow> fits (items re) tx"
  "matchstar c re tx \<longleftrightarrow> fits (Star (atom_of c) # items re) tx"
proof (induction re tx and c re tx rule: matchhere_matchstar.induct)
  case (1 re tx)
  show ?case
  proof (cases re)
    case (Cons c re1)
    then show ?thesis
      using 1 by (subst matchhere.simps, subst items.simps) (auto simp: fits_One accepts_atom_of split: list.splits)
  qed (simp add: matchhere.simps items.simps)
next
  case (2 c re tx)
  show ?case using 2 by (subst matchstar.simps, subst fits_Star) (auto simp: accepts_atom_of split: list.splits)
qed

lemma match_from_fits: "match_from re tx \<longleftrightarrow> (\<exists>pre tx1. tx = pre @ tx1 \<and> fits (items re) tx1)"
proof (induction tx)
  case (Cons t tx)
  then show ?case by (auto simp: matchhere_fits Cons_eq_append_conv)
qed (simp add: matchhere_fits)

text \<open>
  C15: grep's matcher decides its pattern language. A pattern is a sequence of characters, dots and starred
  ones, with a dollar at the very end standing for the end of the text; the matcher accepts a text exactly
  when some part of it (for a pattern with a caret, a part at its beginning) can be cut into pieces, one for
  each item: the accepted character, any number of accepted characters, or nothing at the end. The
  backtracking search of \<open>matchhere\<close> and \<open>matchstar\<close> misses no such cut and always ends.
\<close>

theorem match_spec:
  "match re tx \<longleftrightarrow> (\<exists>pre tx1. tx = pre @ tx1 \<and>
     (if re \<noteq> [] \<and> hd re = 94 then pre = [] \<and> fits (items (tl re)) tx1 else fits (items re) tx1))"
  by (auto simp: match_def match_from_fits matchhere_fits)

section \<open>Lines\<close>

abbreviation nl :: "u8 list \<Rightarrow> u8 list" where
  "nl l \<equiv> l @ [10]"

definition clean :: "u8 list \<Rightarrow> bool" where
  "clean l \<longleftrightarrow> 10 \<notin> set l \<and> 0 \<notin> set l"

lemma clean_while:
  assumes "clean l"
  shows "takeWhile (\<lambda>c. c \<noteq> 10 \<and> c \<noteq> 0) (l @ 10 # p) = l" "dropWhile (\<lambda>c. c \<noteq> 10 \<and> c \<noteq> 0) (l @ 10 # p) = 10 # p"
    "dropWhile (\<lambda>c. c \<noteq> 10 \<and> c \<noteq> 0) l = []"
proof -
  have a: "\<forall>c\<in>set l. c \<noteq> 10 \<and> c \<noteq> 0" using assms by (auto simp: clean_def)
  then show "takeWhile (\<lambda>c. c \<noteq> 10 \<and> c \<noteq> 0) (l @ 10 # p) = l" "dropWhile (\<lambda>c. c \<noteq> 10 \<and> c \<noteq> 0) (l @ 10 # p) = 10 # p"
    by (simp_all add: takeWhile_append dropWhile_append)
  show "dropWhile (\<lambda>c. c \<noteq> 10 \<and> c \<noteq> 0) l = []" using a by (simp add: dropWhile_eq_Nil_conv)
qed

lemma grep_lines_run:
  "\<forall>l\<in>set ls. clean l \<Longrightarrow> clean p \<Longrightarrow>
   grep_lines pattern (concat (map nl ls) @ p) = (concat (map nl (filter (match pattern) ls)), p)"
proof (induction ls)
  case Nil
  then show ?case by (subst grep_lines.simps) (simp add: clean_while)
next
  case (Cons l ls)
  then show ?case by (subst grep_lines.simps) (simp add: clean_while Let_def)
qed

text \<open>The first \<open>k\<close> bytes of a text: whole lines and the beginning of the next one.\<close>

lemma take_lines:
  "\<exists>ls1 ls2 p. ls = ls1 @ ls2 \<and> take k (concat (map nl ls)) = concat (map nl ls1) @ p \<and>
     (p \<noteq> [] \<longrightarrow> ls2 \<noteq> [] \<and> (\<exists>x. hd ls2 = p @ x)) \<and> (ls \<noteq> [] \<and> length (hd ls) < k \<longrightarrow> ls1 \<noteq> [])"
proof (induction ls arbitrary: k)
  case (Cons l ls)
  show ?case
  proof (cases "length l < k")
    case True
    obtain ls1 ls2 p where IH: "ls = ls1 @ ls2" "take (k - length l - 1) (concat (map nl ls)) = concat (map nl ls1) @ p"
      "p \<noteq> [] \<longrightarrow> ls2 \<noteq> [] \<and> (\<exists>x. hd ls2 = p @ x)"
      using Cons.IH [of "k - length l - 1"] by blast
    have "take k (concat (map nl (l # ls))) = nl l @ take (k - length l - 1) (concat (map nl ls))"
      using True by (simp add: take_Cons')
    then have "take k (concat (map nl (l # ls))) = concat (map nl (l # ls1)) @ p" using IH(2) by simp
    then show ?thesis using IH(1,3) by (intro exI [of _ "l # ls1"] exI [of _ ls2] exI [of _ p]) simp
  next
    case False
    have "\<exists>x. l = take k l @ x" by (metis append_take_drop_id)
    then show ?thesis using False by (intro exI [of _ "[]"] exI [of _ "l # ls"] exI [of _ "take k l"]) simp
  qed
qed simp

text \<open>
  One more read: \<open>kept\<close> is the beginning of the first line of what is left, \<open>r\<close> the part of the file that
  has not been read.
\<close>

lemma grep_loop_run:
  assumes "\<forall>l\<in>set ls. clean l \<and> length l < 1023" "kept @ r = concat (map nl ls)" "ls = [] \<or> (\<exists>x. hd ls = kept @ x)"
  shows "grep_loop pattern kept (if r = [] then [] else [r]) = concat (map nl (filter (match pattern) ls))"
  using assms
proof (induction "length r" arbitrary: kept r ls rule: less_induct)
  case less
  show ?case
  proof (cases ls)
    case Nil
    then show ?thesis using less.prems(2) by (simp add: grep_loop.simps)
  next
    case (Cons l ls')
    obtain x where x: "l = kept @ x" using less.prems(3) Cons by auto
    have lk: "length kept < 1023" using x Cons less.prems(1) by auto
    have r: "r = x @ [10] @ concat (map nl ls')" using less.prems(2) Cons x by simp
    let ?k = "1023 - length kept"
    have "ls \<noteq> [] \<and> length (hd ls) < 1023" using Cons less.prems(1) by simp
    then obtain ls1 ls2 p where s: "ls = ls1 @ ls2" "take 1023 (concat (map nl ls)) = concat (map nl ls1) @ p"
      "p \<noteq> [] \<longrightarrow> ls2 \<noteq> [] \<and> (\<exists>x. hd ls2 = p @ x)" "ls1 \<noteq> []"
      using take_lines [of ls 1023] by blast
    have buf: "kept @ take ?k r = concat (map nl ls1) @ p"
      using s(2) lk unfolding less.prems(2) [symmetric] by simp
    have cl: "\<forall>l\<in>set ls1. clean l" "\<forall>l\<in>set ls2. clean l \<and> length l < 1023" using less.prems(1) s(1) by auto
    have cp: "clean p"
    proof (cases "p = []")
      case False
      then obtain x where "ls2 \<noteq> []" "hd ls2 = p @ x" using s(3) by blast
      then have "clean (p @ x)" using cl(2) hd_in_set [of ls2] by auto
      then show ?thesis by (simp add: clean_def)
    qed (simp add: clean_def)
    have "(kept @ take ?k r) @ drop ?k r = concat (map nl ls1) @ concat (map nl ls2)" using less.prems(2) s(1) by simp
    then have rest: "p @ drop ?k r = concat (map nl ls2)" unfolding buf by simp
    have rn: "r \<noteq> []" "take ?k r \<noteq> []" using r lk by auto
    have hp: "ls2 = [] \<or> (\<exists>x. hd ls2 = p @ x)" using s(3) by (cases "p = []") auto
    have "length r > 0" using rn(1) by simp
    then have "length (drop ?k r) < length r" using lk by (simp only: length_drop)
    note IH = less.hyps [OF this cl(2) rest hp]
    have "grep_loop pattern kept [r] = concat (map nl (filter (match pattern) ls1)) @
        grep_loop pattern p (if drop ?k r = [] then [] else [drop ?k r])"
      using rn s(4) by (subst grep_loop.simps) (simp add: Let_def buf grep_lines_run [OF cl(1) cp])
    then show ?thesis using rn(1) IH s(1) by simp
  qed
qed



text \<open>A read that brings no newline (a short read from a pipe, or a line longer than the buffer) is thrown away.\<close>

lemma grep_forgets_piece:
  assumes "clean p" "p \<noteq> []" "length p \<le> 1023"
  shows "grep pattern (p # inp) = grep pattern inp"
  using assms grep_lines_run [of "[]" p pattern] by (simp add: grep_def grep_loop.simps [of pattern "[]" "p # inp"])

section \<open>Copying and counting\<close>

lemma read_in_pieces:
  "[] \<notin> set inp \<Longrightarrow> inp \<noteq> [] \<Longrightarrow> 0 < k \<Longrightarrow> read_in k inp = (n, inp1) \<Longrightarrow> n \<noteq> [] \<and> [] \<notin> set inp1 \<and> concat inp = n @ concat inp1"
  by (cases inp) (auto split: if_splits)

lemma cat_copies: "[] \<notin> set inp \<Longrightarrow> cat inp = concat inp"
proof (induction "sum_list (map length inp)" arbitrary: inp rule: less_induct)
  case less
  show ?case
  proof (cases inp)
    case (Cons c cs)
    obtain n inp1 where r: "read_in 512 inp = (n, inp1)" by fastforce
    then have d: "n \<noteq> []" "[] \<notin> set inp1" "concat inp = n @ concat inp1"
      using read_in_pieces [OF less.prems _ _ r] Cons by auto
    then have "cat inp1 = concat inp1" using less.hyps [OF read_in_less [OF r]] by blast
    then show ?thesis using r d by (subst cat.simps) simp
  qed (simp add: cat.simps)
qed

lemma wc_loop_concat: "[] \<notin> set inp \<Longrightarrow> wc_loop s inp = fold wc_byte (concat inp) s"
proof (induction "sum_list (map length inp)" arbitrary: inp s rule: less_induct)
  case less
  show ?case
  proof (cases inp)
    case (Cons c cs)
    obtain n inp1 where r: "read_in 512 inp = (n, inp1)" by fastforce
    then have d: "n \<noteq> []" "[] \<notin> set inp1" "concat inp = n @ concat inp1"
      using read_in_pieces [OF less.prems _ _ r] Cons by auto
    then have "wc_loop (fold wc_byte n s) inp1 = fold wc_byte (concat inp1) (fold wc_byte n s)"
      using less.hyps [OF read_in_less [OF r]] by blast
    then show ?thesis using r d by (subst wc_loop.simps) simp
  qed (simp add: wc_loop.simps)
qed

text \<open>A word starts at a byte that is no space and follows a space or nothing.\<close>

definition space :: "u8 \<Rightarrow> bool" where
  "space b \<longleftrightarrow> b \<in> {32, 13, 9, 10, 11}"

definition word_starts :: "u8 list \<Rightarrow> nat set" where
  "word_starts t = {i. i < length t \<and> \<not> space (t ! i) \<and> (i = 0 \<or> space (t ! (i - 1)))}"

lemma word_starts_snoc:
  "word_starts (t @ [b]) = (if \<not> space b \<and> (t = [] \<or> space (last t)) then insert (length t) (word_starts t) else word_starts t)"
  by (cases "t = []") (auto simp: word_starts_def nth_append last_conv_nth less_Suc_eq split: if_splits)

lemma wc_fold:
  "fold wc_byte t \<lparr>wc_l = 0, wc_w = 0, wc_c = 0, wc_inword = False\<rparr> =
     \<lparr>wc_l = int (count_list t 10), wc_w = int (card (word_starts t)), wc_c = int (length t), wc_inword = (t \<noteq> [] \<and> \<not> space (last t))\<rparr>"
proof (induction t rule: rev_induct)
  case Nil
  then show ?case by (simp add: word_starts_def)
next
  case (snoc b t)
  have "finite (word_starts t)" "length t \<notin> word_starts t" by (simp_all add: word_starts_def)
  then show ?case using snoc by (auto simp: wc_byte_def word_starts_snoc space_def Let_def)
qed

lemma wc_counts:
  "[] \<notin> set inp \<Longrightarrow> wc inp = (int (count_list (concat inp) 10), int (card (word_starts (concat inp))), int (length (concat inp)))"
  by (simp add: wc_def wc_loop_concat wc_fold)

end
