(* ===== verification/Shell.thy ===== *)
theory Shell
  imports Cstring "HOL-Library.Sublist"
begin

text \<open>
  The shell, \<open>sh.c\<close>: its tokenizer and recursive descent parser, the cutting of the line into C strings, and
  what the process of a command does. The rest of the line from \<open>*ps\<close> to \<open>es\<close> is a list of bytes, and a
  pointer into the line is the number of bytes from it to \<open>es\<close>. The shell's \<open>panic\<close> is the error result.
\<close>

section \<open>Definitions\<close>

subsection \<open>Commands\<close>

datatype 'p cmd = EXEC "'p list" | REDIR "'p cmd" 'p int int | PIPE "'p cmd" "'p cmd" | LIST "'p cmd" "'p cmd" | BACK "'p cmd"

abbreviation "MAXARGS \<equiv> 10 :: nat"

type_synonym ptr = nat

type_synonym pcmd = "(ptr \<times> ptr) cmd"

subsection \<open>Tokens\<close>

definition whitespace :: "u8 set" where "whitespace = {32, 9, 13, 10, 11}"

definition symbols :: "u8 set" where "symbols = {60, 124, 62, 38, 59, 40, 41}"

definition skipws :: "u8 list \<Rightarrow> u8 list" where "skipws = dropWhile (\<lambda>c. c \<in> whitespace)"

definition wordch :: "u8 \<Rightarrow> bool" where "wordch c \<longleftrightarrow> c \<notin> whitespace \<and> c \<notin> symbols"

text \<open>The token's kind and the pointers \<open>q\<close> and \<open>eq\<close> around it.\<close>

definition gettoken :: "(u8 list, u8 \<times> ptr \<times> ptr) kop" where
  "gettoken s0 = (let s = skipws s0; q = length s in case s of
     [] \<Rightarrow> Inr ((0, q, q), [])
   | c # s1 \<Rightarrow>
       if c \<in> {124, 40, 41, 59, 38, 60} then Inr ((c, q, length s1), skipws s1)
       else if c = 62 then
         (if s1 \<noteq> [] \<and> hd s1 = 62 then Inr ((43, q, length (tl s1)), skipws (tl s1)) else Inr ((62, q, length s1), skipws s1))
       else let s2 = dropWhile wordch s in Inr ((97, q, length s2), skipws s2))"

definition peek :: "u8 set \<Rightarrow> (u8 list, bool) kop" where
  "peek toks s0 = (let s = skipws s0 in Inr (s \<noteq> [] \<and> hd s \<in> toks, s))"

subsection \<open>Parsing\<close>

text \<open>The loops carry a bound on their number of rounds; the length of the line is enough.\<close>

primrec parseredirs :: "nat \<Rightarrow> pcmd \<Rightarrow> (u8 list, pcmd) kop" where
  "parseredirs 0 c = kerror NoFuel"
| "parseredirs (Suc n) c =
     bnd (peek {60, 62}) (\<lambda>p.
     if p then
       bnd gettoken (\<lambda>(tok, _, _).
       bnd gettoken (\<lambda>(t, q, eq).
       if t \<noteq> 97 then panic ''missing file for redirection''
       else parseredirs n (if tok = 60 then REDIR c (q, eq) 0 0 else REDIR c (q, eq) 0x201 1)))
     else ret c)"

text \<open>\<open>parseexec\<close> fills in the argument vector of the command inside the redirections it has put around it.\<close>

primrec set_args :: "'p list \<Rightarrow> 'p cmd \<Rightarrow> 'p cmd" where
  "set_args as (EXEC _) = EXEC as"
| "set_args as (REDIR c f m d) = REDIR (set_args as c) f m d"
| "set_args as (PIPE l r) = PIPE l r"
| "set_args as (LIST l r) = LIST l r"
| "set_args as (BACK c) = BACK c"

primrec exec_args :: "nat \<Rightarrow> (ptr \<times> ptr) list \<Rightarrow> pcmd \<Rightarrow> (u8 list, pcmd) kop" where
  "exec_args 0 as r = kerror NoFuel"
| "exec_args (Suc n) as r =
     bnd (peek {124, 41, 38, 59}) (\<lambda>p.
     if p then ret (set_args as r)
     else
       bnd gettoken (\<lambda>(tok, q, eq).
       if tok = 0 then ret (set_args as r)
       else if tok \<noteq> 97 then panic ''syntax''
       else if length as + 1 \<ge> MAXARGS then panic ''too many args''
       else bnd (parseredirs n r) (\<lambda>r. exec_args n (as @ [(q, eq)]) r)))"

primrec backs :: "nat \<Rightarrow> pcmd \<Rightarrow> (u8 list, pcmd) kop" where
  "backs 0 c = kerror NoFuel"
| "backs (Suc n) c =
     bnd (peek {38}) (\<lambda>p.
     if p then bnd gettoken (\<lambda>_. backs n (BACK c)) else ret c)"

fun parseline :: "nat \<Rightarrow> (u8 list, pcmd) kop"
  and parsepipe :: "nat \<Rightarrow> (u8 list, pcmd) kop"
  and parseblock :: "nat \<Rightarrow> (u8 list, pcmd) kop"
  and parseexec :: "nat \<Rightarrow> (u8 list, pcmd) kop" where
  "parseline 0 = kerror NoFuel"
| "parseline (Suc n) =
     bnd (parsepipe n) (\<lambda>c.
     bnd (backs n c) (\<lambda>c.
     bnd (peek {59}) (\<lambda>p.
     if p then bnd gettoken (\<lambda>_. bnd (parseline n) (\<lambda>d. ret (LIST c d))) else ret c)))"
| "parsepipe 0 = kerror NoFuel"
| "parsepipe (Suc n) =
     bnd (parseexec n) (\<lambda>c.
     bnd (peek {124}) (\<lambda>p.
     if p then bnd gettoken (\<lambda>_. bnd (parsepipe n) (\<lambda>d. ret (PIPE c d))) else ret c))"
| "parseblock 0 = kerror NoFuel"
| "parseblock (Suc n) =
     bnd (peek {40}) (\<lambda>p.
     if \<not> p then panic ''parseblock''
     else
       bnd gettoken (\<lambda>_.
       bnd (parseline n) (\<lambda>c.
       bnd (peek {41}) (\<lambda>p.
       if \<not> p then panic ''syntax - missing )''
       else bnd gettoken (\<lambda>_. parseredirs n c)))))"
| "parseexec 0 = kerror NoFuel"
| "parseexec (Suc n) =
     bnd (peek {40}) (\<lambda>p.
     if p then parseblock n
     else
       bnd (parseredirs n (EXEC [])) (\<lambda>r.
       exec_args n [] r))"

subsection \<open>C strings\<close>

text \<open>Storing a zero at every \<open>eq\<close>, in a line that ends at \<open>es\<close>.\<close>

definition put_nul :: "nat \<Rightarrow> ptr \<Rightarrow> bmem \<Rightarrow> bmem" where
  "put_nul es p b = b(es - p := 0)"

primrec nulterminate :: "nat \<Rightarrow> pcmd \<Rightarrow> bmem \<Rightarrow> bmem" where
  "nulterminate es (EXEC as) b = fold (\<lambda>(_, eq). put_nul es eq) as b"
| "nulterminate es (REDIR c f m d) b = put_nul es (snd f) (nulterminate es c b)"
| "nulterminate es (PIPE l r) b = nulterminate es r (nulterminate es l b)"
| "nulterminate es (LIST l r) b = nulterminate es r (nulterminate es l b)"
| "nulterminate es (BACK c) b = nulterminate es c b"

text \<open>The line as it lies in the buffer, and the whole of \<open>parsecmd\<close>: the command and the buffer it points into.\<close>

definition line_mem :: "u8 list \<Rightarrow> bmem" where
  "line_mem s = (\<lambda>i. if i < length s then s ! i else 0)"

definition parsecmd :: "u8 list \<Rightarrow> kerr + pcmd \<times> bmem" where
  "parsecmd s = (case bnd (parseline (4 * length s + 6)) (\<lambda>c. bnd (peek {}) (\<lambda>_. ret c)) s of
     Inl e \<Rightarrow> Inl e
   | Inr (c, r) \<Rightarrow> if r \<noteq> [] then Inl (Panic ''syntax'') else Inr (c, nulterminate (length s) c (line_mem s)))"

subsection \<open>Running commands\<close>

text \<open>
  What the process that runs a command does, as a tree of its system calls: a branch where the code
  tests a result, and a fork into the child and the parent. \<open>PipeEnd\<close> is an end of the process's pipe \<open>p\<close>.
\<close>

datatype fdref = Fd int | PipeEnd nat

datatype script = Exit
  | Exec "u8 list" "u8 list list" script
  | Print int "u8 list" script
  | Close fdref script
  | Dup fdref script
  | Open "u8 list" int script script
  | MkPipe script script
  | Chdir "u8 list" script script
  | Fork script script
  | Wait script

abbreviation str_of :: "string \<Rightarrow> u8 list" where "str_of \<equiv> map of_char"

definition sh_panic :: "string \<Rightarrow> script" where
  "sh_panic s = Print 2 (str_of s @ [10]) Exit"

primrec runcmd :: "u8 list cmd \<Rightarrow> script" where
  "runcmd (EXEC as) = (case as of [] \<Rightarrow> Exit
     | a # _ \<Rightarrow> Exec a as (Print 2 (str_of ''exec '' @ a @ str_of '' failed'' @ [10]) Exit))"
| "runcmd (REDIR c f m d) =
     Close (Fd d) (Open f m (Print 2 (str_of ''open '' @ f @ str_of '' failed'' @ [10]) Exit) (runcmd c))"
| "runcmd (PIPE l r) =
     MkPipe (sh_panic ''pipe'') (
     Fork (Close (Fd 1) (Dup (PipeEnd 1) (Close (PipeEnd 0) (Close (PipeEnd 1) (runcmd l))))) (
     Fork (Close (Fd 0) (Dup (PipeEnd 0) (Close (PipeEnd 0) (Close (PipeEnd 1) (runcmd r))))) (
     Close (PipeEnd 0) (Close (PipeEnd 1) (Wait (Wait Exit))))))"
| "runcmd (LIST l r) = Fork (runcmd l) (Wait (runcmd r))"
| "runcmd (BACK c) = Fork (runcmd c) Exit"

text \<open>One round of the main loop for a line, and what follows it.\<close>

definition sh_line :: "u8 list \<Rightarrow> script \<Rightarrow> script" where
  "sh_line buf next =
     (if take 3 buf = str_of ''cd '' then
        let dir = drop 3 (butlast buf) in Chdir dir (Print 2 (str_of ''cannot cd '' @ dir @ [10]) next) next
      else Fork (case parsecmd buf of
          Inl (Panic m) \<Rightarrow> sh_panic m
        | Inl _ \<Rightarrow> Exit
        | Inr (c, b) \<Rightarrow> runcmd (map_cmd (\<lambda>(q, eq). take (q - eq) (drop (length buf - q) buf)) c)) (Wait next))"

section \<open>The parser stops\<close>

lemma length_skipws: "length (skipws s) \<le> length s"
  by (simp add: skipws_def length_dropWhile_le)

lemma skipws_skipws [simp]: "skipws (skipws s) = skipws s"
  by (simp add: skipws_def)

lemma skipws_hd: "skipws s = c # r \<Longrightarrow> c \<notin> whitespace"
  using hd_dropWhile [of "\<lambda>c. c \<in> whitespace" s] by (simp add: skipws_def)

lemma gettoken_total: "\<exists>x s'. gettoken s = Inr (x, s')"
  by (auto simp: gettoken_def Let_def split: list.splits)

lemma gettoken_less:
  assumes "gettoken s = Inr (x, s')" "s \<noteq> []"
  shows "length s' < length s"
proof (cases "skipws s")
  case Nil
  then show ?thesis using assms by (simp add: gettoken_def Let_def)
next
  case (Cons c r)
  have w: "length (dropWhile wordch (c # r)) < length (c # r)" if "c \<notin> symbols"
    using that skipws_hd [OF Cons] length_dropWhile_le [of wordch r] by (simp add: wordch_def)
  have "length s' < length (c # r)"
    using assms(1) Cons w length_skipws [of r] length_skipws [of "tl r"] length_skipws [of "dropWhile wordch (c # r)"]
    by (cases r) (auto simp: gettoken_def Let_def symbols_def split: if_splits)
  then show ?thesis using length_skipws [of s] Cons by simp
qed

lemma gettoken_le: "gettoken s = Inr (x, s') \<Longrightarrow> length s' \<le> length s"
  using gettoken_less [of s x s'] by (cases "s = []") (auto simp: gettoken_def skipws_def)

lemma peek_eq: "peek toks s = Inr (b, s') \<longleftrightarrow> s' = skipws s \<and> b = (s' \<noteq> [] \<and> hd s' \<in> toks)"
  by (auto simp: peek_def Let_def)

text \<open>A computation that does not run out of rounds and does not give back what it has read.\<close>

definition fin :: "(u8 list, 'a) kop \<Rightarrow> u8 list \<Rightarrow> bool" where
  "fin m s \<longleftrightarrow> (case m s of Inl e \<Rightarrow> e \<noteq> NoFuel | Inr (x, s') \<Rightarrow> length s' \<le> length s)"

lemma fin_bnd:
  assumes "fin m s" "\<And>x s'. m s = Inr (x, s') \<Longrightarrow> length s' \<le> length s \<Longrightarrow> fin (f x) s'"
  shows "fin (bnd m f) s"
proof (cases "m s")
  case (Inr a)
  then obtain x s' where a: "m s = Inr (x, s')" by (cases a) simp
  then have "length s' \<le> length s" "fin (f x) s'" using assms by (auto simp: fin_def)
  then show ?thesis using a by (auto simp: fin_def split: sum.splits)
qed (use assms(1) in \<open>simp add: fin_def\<close>)

lemma fin_basic [simp]: "fin (ret x) s" "fin (panic m) s" "fin (peek toks) s" "fin gettoken s"
  using gettoken_total [of s] gettoken_le [of s]
  by (auto simp: fin_def ret_def kerror_def peek_def Let_def length_skipws)

text \<open>A look-ahead; where it succeeds the next token makes the line shorter.\<close>

lemma fin_peek:
  assumes "\<And>s1. length s1 \<le> length s \<Longrightarrow> fin m s1" "\<And>x s1. length s1 < length s \<Longrightarrow> fin (f x) s1"
  shows "fin (bnd (peek toks) (\<lambda>p. if p then bnd gettoken f else m)) s"
proof (rule fin_bnd)
  fix p s1 assume p: "peek toks s = Inr (p, s1)" "length s1 \<le> length s"
  have "fin (bnd gettoken f) s1" if p
  proof (rule fin_bnd)
    show "fin (f x) s2" if "gettoken s1 = Inr (x, s2)" for x s2
      using \<open>p\<close> p gettoken_less [OF that] by (intro assms(2)) (auto simp: peek_eq)
  qed simp
  then show "fin (if p then bnd gettoken f else m) s1" using assms(1) p(2) by simp
qed simp

lemma fin_peek_not:
  assumes "\<And>s1. length s1 \<le> length s \<Longrightarrow> fin m s1" "\<And>x s1. length s1 < length s \<Longrightarrow> fin (f x) s1"
  shows "fin (bnd (peek toks) (\<lambda>p. if \<not> p then m else bnd gettoken f)) s"
proof -
  have "(\<lambda>p. if \<not> p then m else bnd gettoken f) = (\<lambda>p. if p then bnd gettoken f else m)" by auto
  then show ?thesis using fin_peek [OF assms] by simp
qed

lemma parseredirs_fin: "length s < n \<Longrightarrow> fin (parseredirs n c) s"
proof (induction n arbitrary: c s)
  case (Suc n)
  then show ?case unfolding parseredirs.simps
    by (intro fin_peek) (auto intro!: fin_bnd Suc.IH dest!: gettoken_le split: prod.splits)
qed simp

lemma exec_args_fin: "length s < n \<Longrightarrow> fin (exec_args n as r) s"
proof (induction n arbitrary: as r s)
  case (Suc n)
  have "fin (if tok = 0 then ret (set_args as r) else if tok \<noteq> 97 then panic ''syntax''
      else if length as + 1 \<ge> MAXARGS then panic ''too many args''
      else bnd (parseredirs n r) (\<lambda>r. exec_args n (as @ [(q, eq)]) r)) s2"
    if "gettoken s1 = Inr ((tok, q, eq), s2)" "length s1 \<le> length s" for tok q eq s1 s2
  proof (cases "s1 = []")
    case True
    then show ?thesis using that(1) by (simp add: gettoken_def skipws_def)
  next
    case False
    then show ?thesis using gettoken_less [OF that(1) False] that(2) Suc.prems
      by (auto intro!: fin_bnd parseredirs_fin Suc.IH)
  qed
  then show ?case by (auto intro!: fin_bnd split: prod.splits)
qed simp

lemma backs_fin: "length s < n \<Longrightarrow> fin (backs n c) s"
proof (induction n arbitrary: c s)
  case (Suc n)
  then show ?case unfolding backs.simps by (intro fin_peek) auto
qed simp

text \<open>The four functions call each other; a block is entered over its parenthesis.\<close>

lemma parse_fin:
  "4 * length s + 6 \<le> n \<Longrightarrow> fin (parseline n) s"
  "4 * length s + 5 \<le> n \<Longrightarrow> fin (parsepipe n) s"
  "4 * length s + 3 \<le> n \<Longrightarrow> fin (parseblock n) s"
  "4 * length s + 4 \<le> n \<Longrightarrow> fin (parseexec n) s"
proof (induction n arbitrary: s)
  case (Suc n)
  {
    case 1
    then show ?case using Suc.IH unfolding parseline.simps
      by (intro fin_bnd [where m = "parsepipe n"] fin_bnd [where m = "backs n c" for c] fin_peek backs_fin fin_bnd) auto
  next
    case 2
    then show ?case using Suc.IH unfolding parsepipe.simps
      by (intro fin_bnd [where m = "parseexec n"] fin_peek fin_bnd) auto
  next
    case 3
    then show ?case using Suc.IH unfolding parseblock.simps
      by (intro fin_peek_not fin_bnd) (auto intro!: parseredirs_fin)
  next
    case 4
    then show ?case using Suc.IH unfolding parseexec.simps
      by (intro fin_bnd [where m = "peek {40}"]) (auto intro!: fin_bnd parseredirs_fin exec_args_fin)
  }
qed simp_all

section \<open>Tokens are words of the line\<close>

definition tokstr :: "u8 list \<Rightarrow> ptr \<times> ptr \<Rightarrow> u8 list" where
  "tokstr b t = take (fst t - snd t) (drop (length b - fst t) b)"

text \<open>A word that ends where the line does or before a byte that is not part of a word.\<close>

definition good :: "u8 list \<Rightarrow> ptr \<times> ptr \<Rightarrow> bool" where
  "good b t \<longleftrightarrow> snd t < fst t \<and> fst t \<le> length b \<and> (\<forall>c\<in>set (tokstr b t). wordch c) \<and>
     (snd t = 0 \<or> \<not> wordch (b ! (length b - snd t)))"

abbreviation parses :: "u8 list \<Rightarrow> (u8 list, pcmd) kop \<Rightarrow> u8 list \<Rightarrow> bool" where
  "parses b m \<equiv> wlp m (\<lambda>c s. suffix s b \<and> (\<forall>t\<in>set_cmd c. good b t))"

lemma suffix_skipws: "suffix s b \<Longrightarrow> suffix (skipws s) b"
  unfolding skipws_def by (meson suffix_dropWhile suffix_order.trans)

lemma peek_wlp: "suffix s b \<Longrightarrow> (\<And>p s'. suffix s' b \<Longrightarrow> Q p s') \<Longrightarrow> wlp (peek toks) Q s"
  by (simp add: wlp_def peek_def Let_def suffix_skipws)

lemma good_split:
  assumes "suffix (w @ d) b" "w \<noteq> []" "\<forall>c\<in>set w. wordch c" "d = [] \<or> \<not> wordch (hd d)"
  shows "good b (length w + length d, length d)" "tokstr b (length w + length d, length d) = w"
proof -
  obtain p where b: "b = p @ w @ d" using assms(1) by (auto simp: suffix_def)
  show s: "tokstr b (length w + length d, length d) = w" by (simp add: tokstr_def b)
  have "d \<noteq> [] \<Longrightarrow> b ! (length b - length d) = hd d" by (simp add: b nth_append hd_conv_nth)
  then show "good b (length w + length d, length d)" using assms(2-4) s by (auto simp: good_def b)
qed

lemma good_token:
  assumes "suffix (c # r) b" "c \<notin> whitespace" "c \<notin> symbols"
  shows "good b (length (c # r), length (dropWhile wordch (c # r)))"
proof -
  define w d where "w = takeWhile wordch (c # r)" and "d = dropWhile wordch (c # r)"
  have wd: "c # r = w @ d" by (simp add: w_def d_def)
  moreover have "w \<noteq> []" using assms(2,3) by (simp add: w_def wordch_def)
  moreover have "\<forall>c\<in>set w. wordch c" by (auto simp: w_def dest: set_takeWhileD)
  moreover have "d = [] \<or> \<not> wordch (hd d)" unfolding d_def using hd_dropWhile by blast
  ultimately show ?thesis using good_split(1) [of w d b] assms(1) unfolding d_def [symmetric] by simp
qed

lemma gettoken_wlp:
  assumes "suffix s b" "\<And>t q eq s'. suffix s' b \<Longrightarrow> t = 97 \<longrightarrow> good b (q, eq) \<Longrightarrow> Q (t, q, eq) s'"
  shows "wlp gettoken Q s"
proof (cases "skipws s")
  case Nil
  then show ?thesis using assms(2) by (simp add: wlp_def gettoken_def)
next
  case (Cons c r)
  have sf: "suffix (c # r) b" using suffix_skipws [OF assms(1)] Cons by simp
  then have r: "suffix (skipws r) b" "suffix (skipws (tl r)) b" "suffix (skipws (dropWhile wordch (c # r))) b"
    by (meson suffix_skipws suffix_ConsD suffix_tl suffix_dropWhile suffix_order.trans)+
  show ?thesis
    using assms(2) r good_token [OF sf skipws_hd [OF Cons]] Cons by (auto simp: wlp_def gettoken_def Let_def symbols_def)
qed

lemma parseredirs_wlp: "suffix s b \<Longrightarrow> \<forall>t\<in>set_cmd c. good b t \<Longrightarrow> parses b (parseredirs n c) s"
proof (induction n arbitrary: c s)
  case (Suc n)
  then show ?case
    by (auto simp: wp_simps intro!: peek_wlp gettoken_wlp Suc.IH)
qed (simp add: wp_simps)

lemma set_set_args: "set_cmd (set_args as r) \<subseteq> set as \<union> set_cmd r"
  by (induction r) auto

lemma set_args_good: "\<forall>t\<in>set_cmd r. good b t \<Longrightarrow> \<forall>t\<in>set as. good b t \<Longrightarrow> \<forall>t\<in>set_cmd (set_args as r). good b t"
  using set_set_args [of as r] by blast

lemma exec_args_wlp:
  "suffix s b \<Longrightarrow> \<forall>t\<in>set_cmd r. good b t \<Longrightarrow> \<forall>t\<in>set as. good b t \<Longrightarrow> parses b (exec_args n as r) s"
proof (induction n arbitrary: as r s)
  case (Suc n)
  have n: "parses b (bnd (parseredirs n r) (exec_args n (as @ [(q, eq)]))) s2" if "suffix s2 b" "good b (q, eq)" for q eq s2
    unfolding wlp_bnd
  proof (rule wlp_mono [OF parseredirs_wlp [OF that(1) Suc.prems(2)]])
    show "parses b (exec_args n (as @ [(q, eq)]) r') s'" if "suffix s' b \<and> (\<forall>t\<in>set_cmd r'. good b t)" for r' s'
      using that Suc.prems(3) \<open>good b (q, eq)\<close> by (intro Suc.IH) auto
  qed
  show ?case unfolding exec_args.simps wlp_bnd
  proof (intro peek_wlp [OF Suc.prems(1)])
    fix p s1 assume s1: "suffix s1 b"
    note a = set_args_good [OF Suc.prems(2,3)]
    show "parses b (if p then ret (set_args as r) else bnd gettoken (\<lambda>(tok, q, eq).
        if tok = 0 then ret (set_args as r) else if tok \<noteq> 97 then panic ''syntax''
        else if MAXARGS \<le> length as + 1 then panic ''too many args''
        else bnd (parseredirs n r) (exec_args n (as @ [(q, eq)])))) s1"
      unfolding wlp_if wlp_bnd using s1 a n [unfolded wlp_bnd]
      by (auto simp: wlp_ret wlp_kerror wlp_bnd intro!: gettoken_wlp)
  qed
qed (simp add: wp_simps)

lemma backs_wlp: "suffix s b \<Longrightarrow> \<forall>t\<in>set_cmd c. good b t \<Longrightarrow> parses b (backs n c) s"
proof (induction n arbitrary: c s)
  case (Suc n)
  then show ?case by (auto simp: wp_simps intro!: peek_wlp gettoken_wlp Suc.IH)
qed (simp add: wp_simps)

lemma parse_wlp:
  "suffix s b \<Longrightarrow> parses b (parseline n) s" "suffix s b \<Longrightarrow> parses b (parsepipe n) s"
  "suffix s b \<Longrightarrow> parses b (parseblock n) s" "suffix s b \<Longrightarrow> parses b (parseexec n) s"
proof (induction n arbitrary: s)
  case (Suc n)
  {
    case 1
    show ?case unfolding parseline.simps wlp_bnd
      by (rule wlp_mono [OF Suc.IH(2) [OF 1]], rule wlp_mono [OF backs_wlp])
        (auto simp: wp_simps intro!: peek_wlp gettoken_wlp wlp_mono [OF Suc.IH(1)])
  next
    case 2
    show ?case unfolding parsepipe.simps wlp_bnd
      by (rule wlp_mono [OF Suc.IH(4) [OF 2]]) (auto simp: wp_simps intro!: peek_wlp gettoken_wlp wlp_mono [OF Suc.IH(2)])
  next
    case 3
    then show ?case unfolding parseblock.simps
      by (auto simp: wp_simps intro!: peek_wlp gettoken_wlp parseredirs_wlp wlp_mono [OF Suc.IH(1)])
  next
    case 4
    then show ?case unfolding parseexec.simps
      by (auto simp: wp_simps intro!: peek_wlp Suc.IH(3) wlp_mono [OF parseredirs_wlp] exec_args_wlp)
  }
qed (simp_all add: wp_simps)

section \<open>C strings in the line\<close>

definition is_str :: "bmem \<Rightarrow> nat \<Rightarrow> u8 list \<Rightarrow> bool" where
  "is_str b p w \<longleftrightarrow> (\<forall>k<length w. b (p + k) = w ! k \<and> w ! k \<noteq> 0) \<and> b (p + length w) = 0"

lemma fold_put_nul: "fold (\<lambda>(_, eq). put_nul es eq) as b i = (if \<exists>t\<in>set as. i = es - snd t then 0 else b i)"
  by (induction as arbitrary: b) (auto simp: put_nul_def)

lemma nulterminate_at: "nulterminate es c b i = (if \<exists>t\<in>set_cmd c. i = es - snd t then 0 else b i)"
  by (induction c arbitrary: b) (auto simp: fold_put_nul put_nul_def)

lemma good_nth:
  assumes "good s t" "k < length (tokstr s t)"
  shows "length s - fst t + k < length s - snd t" "s ! (length s - fst t + k) = tokstr s t ! k" "wordch (tokstr s t ! k)"
proof -
  show "length s - fst t + k < length s - snd t" "s ! (length s - fst t + k) = tokstr s t ! k"
    using assms by (auto simp: good_def tokstr_def)
  show "wordch (tokstr s t ! k)" using assms nth_mem [OF assms(2)] unfolding good_def by blast
qed

lemma length_tokstr: "good s t \<Longrightarrow> length (tokstr s t) = fst t - snd t"
  by (simp add: good_def tokstr_def)

lemma nulterminate_str:
  assumes g: "\<forall>t\<in>set_cmd c. good s t" and t: "t \<in> set_cmd c" and z: "0 \<notin> set s"
  shows "is_str (nulterminate (length s) c (line_mem s)) (length s - fst t) (tokstr s t)"
proof -
  have gt: "good s t" using g t by blast
  have "nulterminate (length s) c (line_mem s) (length s - fst t + k) = tokstr s t ! k \<and> tokstr s t ! k \<noteq> 0"
    if k: "k < length (tokstr s t)" for k
  proof -
    note n = good_nth [OF gt k]
    have "length s - fst t + k \<noteq> length s - snd u" if "u \<in> set_cmd c" for u
      using g that n by (auto simp: good_def)
    moreover have "tokstr s t ! k \<noteq> 0" using n(1,2) z by (metis diff_le_self nth_mem order.strict_trans2)
    ultimately show ?thesis using n by (auto simp: nulterminate_at line_mem_def)
  qed
  moreover have "length s - fst t + length (tokstr s t) = length s - snd t" using gt by (auto simp: length_tokstr good_def)
  ultimately show ?thesis using t unfolding is_str_def by (auto simp: nulterminate_at)
qed

lemma parsecmd_good:
  assumes "parsecmd s = Inr (c, b)"
  shows "\<forall>t\<in>set_cmd c. good s t" "b = nulterminate (length s) c (line_mem s)"
proof -
  obtain r where r: "bnd (parseline (4 * length s + 6)) (\<lambda>c. bnd (peek {}) (\<lambda>_. ret c)) s = Inr (c, r)"
    and b: "b = nulterminate (length s) c (line_mem s)"
    using assms by (auto simp: parsecmd_def split: sum.splits if_splits)
  then obtain s1 where "parseline (4 * length s + 6) s = Inr (c, s1)" by (auto simp: bnd_eq_Inr ret_def)
  then show "\<forall>t\<in>set_cmd c. good s t" using wlp_D [OF parse_wlp(1) [OF suffix_order.refl]] by blast
  show "b = nulterminate (length s) c (line_mem s)" by (rule b)
qed

text \<open>
  C14: the parser's answer is words of the line. Whatever the line, parsing stops, with a command or a syntax
  error; and when it gives a command, every argument and file name of the command points to a C
  string in the buffer that is a word of the line, complete and without blanks or operators: the zeros stored
  to end the strings never cut another string.
\<close>

theorem shell_words:
  "parsecmd s \<noteq> Inl NoFuel \<and>
   (parsecmd s = Inr (c, b) \<and> 0 \<notin> set s \<longrightarrow> (\<forall>t\<in>set_cmd c. good s t \<and> is_str b (length s - fst t) (tokstr s t)))"
proof -
  have "fin (bnd (parseline (4 * length s + 6)) (\<lambda>c. bnd (peek {}) (\<lambda>_. ret c))) s"
    by (intro fin_bnd parse_fin(1)) auto
  then have "parsecmd s \<noteq> Inl NoFuel" by (auto simp: parsecmd_def fin_def split: sum.splits)
  then show ?thesis using parsecmd_good [of s c b] nulterminate_str [of c s] by blast
qed

section \<open>Printing and parsing\<close>

text \<open>
  Commands over strings and how to write them down: level 3 is where the grammar expects a simple command,
  2 a pipeline, 1 a pipeline with ampersands, 0 a whole line.
\<close>

definition paren :: "bool \<Rightarrow> u8 list \<Rightarrow> u8 list" where
  "paren b s = (if b then [40] @ s @ [41] else s)"

definition pr_words :: "u8 list list \<Rightarrow> u8 list" where
  "pr_words ws = concat (map (\<lambda>w. w @ [32]) ws)"

definition pr_redir :: "u8 list \<times> int \<times> int \<Rightarrow> u8 list" where
  "pr_redir r = (case r of (f, m, d) \<Rightarrow> [if m = 0 then 60 else 62] @ f @ [32])"

primrec pr :: "u8 list cmd \<Rightarrow> nat \<Rightarrow> u8 list" where
  "pr (EXEC ws) lv = pr_words ws"
| "pr (REDIR c f m d) lv = pr c 3 @ pr_redir (f, m, d)"
| "pr (PIPE l r) lv = paren (2 < lv) (pr l 3 @ [124] @ pr r 2)"
| "pr (LIST l r) lv = paren (0 < lv) (pr l 1 @ [59] @ pr r 0)"
| "pr (BACK c) lv = paren (1 < lv) (pr c 1 @ [38])"

definition wf_word :: "u8 list \<Rightarrow> bool" where
  "wf_word w \<longleftrightarrow> w \<noteq> [] \<and> (\<forall>c\<in>set w. wordch c) \<and> 0 \<notin> set w"

definition wf_redir :: "u8 list \<times> int \<times> int \<Rightarrow> bool" where
  "wf_redir r \<longleftrightarrow> wf_word (fst r) \<and> snd r \<in> {(0, 0), (0x201, 1)}"

primrec wf_cmd :: "u8 list cmd \<Rightarrow> bool" where
  "wf_cmd (EXEC ws) \<longleftrightarrow> (\<forall>w\<in>set ws. wf_word w) \<and> length ws < MAXARGS"
| "wf_cmd (REDIR c f m d) \<longleftrightarrow> wf_cmd c \<and> wf_redir (f, m, d)"
| "wf_cmd (PIPE l r) \<longleftrightarrow> wf_cmd l \<and> wf_cmd r"
| "wf_cmd (LIST l r) \<longleftrightarrow> wf_cmd l \<and> wf_cmd r"
| "wf_cmd (BACK c) \<longleftrightarrow> wf_cmd c"

definition wraps :: "'p cmd \<Rightarrow> ('p \<times> int \<times> int) list \<Rightarrow> 'p cmd" where
  "wraps = foldl (\<lambda>c (f, m, d). REDIR c f m d)"

definition stops :: "u8 set \<Rightarrow> u8 list \<Rightarrow> bool" where
  "stops S r \<longleftrightarrow> skipws r = [] \<or> hd (skipws r) \<in> S"

definition reads :: "u8 list \<Rightarrow> (u8 list, pcmd) kop \<Rightarrow> u8 list \<Rightarrow> u8 list cmd \<Rightarrow> u8 list \<Rightarrow> bool" where
  "reads b m s c s' \<longleftrightarrow> (\<exists>c'. m s = Inr (c', s') \<and> map_cmd (tokstr b) c' = c)"

subsection \<open>Words and redirections\<close>

lemma wraps_simps [simp]: "wraps c [] = c" "wraps c ((f, m, d) # rs) = wraps (REDIR c f m d) rs"
  by (simp_all add: wraps_def)

lemma set_args_wraps: "set_args as (wraps c rs) = wraps (set_args as c) rs"
  by (induction rs arbitrary: c) auto

lemma map_cmd_wraps: "map_cmd f (wraps c rs) = wraps (map_cmd f c) (map (map_prod f (\<lambda>a. a)) rs)"
  by (induction rs arbitrary: c) auto

lemma skipws_space [simp]: "skipws (32 # s) = skipws s"
  by (simp add: skipws_def whitespace_def)

lemma skipws_other: "c \<notin> whitespace \<Longrightarrow> skipws (c # s) = c # s"
  by (simp add: skipws_def)

lemma skipws_word: "wf_word w \<Longrightarrow> skipws (w @ s) = w @ s"
  by (cases w) (auto simp: wf_word_def wordch_def skipws_other)

lemma wf_word_hd: "wf_word w \<Longrightarrow> \<exists>c r. w = c # r \<and> c \<notin> whitespace \<and> c \<notin> symbols"
  by (cases w) (auto simp: wf_word_def wordch_def)

lemma peek_run: "peek S s = Inr (skipws s \<noteq> [] \<and> hd (skipws s) \<in> S, skipws s)"
  by (simp add: peek_def Let_def)

lemma gettoken_word:
  assumes "wf_word w" "suffix (w @ 32 # d) b"
  shows "\<exists>q eq. gettoken (w @ 32 # d) = Inr ((97, q, eq), skipws d) \<and> tokstr b (q, eq) = w"
proof -
  obtain c r where w: "w = c # r" "c \<notin> whitespace" "c \<notin> symbols" using wf_word_hd [OF assms(1)] by blast
  have "dropWhile wordch (w @ 32 # d) = 32 # d"
    using assms(1) by (simp add: wf_word_def dropWhile_append3 wordch_def whitespace_def)
  then have "gettoken (w @ 32 # d) = Inr ((97, length (w @ 32 # d), length (32 # d)), skipws d)"
    using w skipws_word [OF assms(1), of "32 # d"] by (simp add: gettoken_def symbols_def Let_def)
  moreover have "tokstr b (length w + length (32 # d), length (32 # d)) = w"
    using assms by (intro good_split(2)) (auto simp: wf_word_def wordch_def whitespace_def)
  ultimately show ?thesis by auto
qed

lemma gettoken_sym: "c \<in> {124, 40, 41, 59, 38, 60} \<Longrightarrow> \<exists>x. gettoken (c # s) = Inr ((c, x), skipws s)"
  using skipws_other [of c s] by (auto simp: gettoken_def whitespace_def Let_def)

lemma gettoken_gt: "wf_word w \<Longrightarrow> \<exists>x. gettoken (62 # w @ s) = Inr ((62, x), w @ s)"
  using skipws_other [of 62 "w @ s"] wf_word_hd [of w] skipws_word [of w s]
  by (auto simp: gettoken_def whitespace_def symbols_def Let_def)

text \<open>Every function of the parser first looks ahead, which skips white space.\<close>

lemma skip_first: "bnd (peek S) f (skipws s) = bnd (peek S) f s"
  by (simp add: bnd_def peek_run)

lemma parseredirs_skipws: "parseredirs n c (skipws s) = parseredirs n c s"
  by (cases n) (simp_all add: skip_first kerror_def)

lemma exec_args_skipws: "exec_args n as r (skipws s) = exec_args n as r s"
  by (cases n) (simp_all add: skip_first kerror_def)

lemma parseredirs_none:
  assumes "0 < n" "skipws s = [] \<or> hd (skipws s) \<notin> {60, 62}"
  shows "parseredirs n c s = Inr (c, skipws s)"
proof -
  obtain k where "n = Suc k" using assms(1) by (cases n) auto
  then show ?thesis using assms(2) by (auto simp: bnd_def peek_run ret_def)
qed

lemma parseredirs_run:
  assumes "\<forall>r\<in>set rs. wf_redir r" "suffix (concat (map pr_redir rs) @ rest) b" "skipws rest = [] \<or> hd (skipws rest) \<notin> {60, 62}" "length rs < n"
  shows "\<exists>rs'. parseredirs n c (concat (map pr_redir rs) @ rest) = Inr (wraps c rs', skipws rest) \<and> map (map_prod (tokstr b) (\<lambda>a. a)) rs' = rs"
  using assms
proof (induction rs arbitrary: c n)
  case Nil
  then show ?case by (intro exI [of _ "[]"]) (simp add: parseredirs_none)
next
  case (Cons r rs)
  obtain f m d where r: "r = (f, m, d)" by (cases r) auto
  obtain k where k: "n = Suc k" using Cons.prems(4) by (cases n) auto
  let ?t = "concat (map pr_redir rs) @ rest" and ?op = "if m = 0 then 60 else 62 :: u8"
  have wf: "wf_word f" "(m, d) = (0, 0) \<or> (m, d) = (0x201, 1)" using Cons.prems(1) r by (auto simp: wf_redir_def)
  have tx: "concat (map pr_redir (r # rs)) @ rest = ?op # f @ 32 # ?t" by (simp add: r pr_redir_def)
  have sf: "suffix (f @ 32 # ?t) b" "suffix ?t b" using Cons.prems(2) unfolding tx by (meson suffix_ConsD suffix_appendD)+
  obtain x where op: "gettoken (?op # f @ 32 # ?t) = Inr ((?op, x), f @ 32 # ?t)"
    using gettoken_sym [of 60 "f @ 32 # ?t"] gettoken_gt [OF wf(1), of "32 # ?t"] skipws_word [OF wf(1), of "32 # ?t"] by force
  obtain q eq where w: "gettoken (f @ 32 # ?t) = Inr ((97, q, eq), skipws ?t)" "tokstr b (q, eq) = f"
    using gettoken_word [OF wf(1) sf(1)] by blast
  have p: "\<forall>r\<in>set rs. wf_redir r" "length rs < k" using Cons.prems(1,4) k by auto
  obtain rs' where IH: "parseredirs k (REDIR c (q, eq) m d) ?t = Inr (wraps (REDIR c (q, eq) m d) rs', skipws rest)" "map (map_prod (tokstr b) (\<lambda>a. a)) rs' = rs"
    using Cons.IH [OF p(1) sf(2) Cons.prems(3) p(2), of "REDIR c (q, eq) m d"] by blast
  have sk: "skipws (?op # f @ 32 # ?t) = ?op # f @ 32 # ?t" by (rule skipws_other) (simp add: whitespace_def)
  have "parseredirs n c (?op # f @ 32 # ?t) = parseredirs k (REDIR c (q, eq) m d) (skipws ?t)"
    unfolding k parseredirs.simps using wf(2) by (auto simp: bnd_def peek_run sk op w(1) split: prod.splits)
  then show ?case unfolding tx parseredirs_skipws using IH w(2) r by (intro exI [of _ "((q, eq), m, d) # rs'"]) simp
qed

abbreviation "redirs_text rs \<equiv> concat (map pr_redir rs)"

abbreviation "exec_end \<equiv> {124, 41, 38, 59 :: u8}"

lemma stops_no_redir: "stops S s \<Longrightarrow> S \<inter> {60, 62} = {} \<Longrightarrow> skipws s = [] \<or> hd (skipws s) \<notin> {60, 62}"
  by (auto simp: stops_def)

lemma exec_args_stop:
  assumes "0 < n" "stops exec_end s"
  shows "exec_args n as r s = Inr (set_args as r, skipws s)"
proof -
  obtain k where "n = Suc k" using assms(1) by (cases n) auto
  moreover have "gettoken [] = Inr ((0, 0, 0), [])" by (simp add: gettoken_def skipws_def)
  ultimately show ?thesis using assms(2) by (cases "skipws s = []") (auto simp: bnd_def peek_run ret_def stops_def)
qed

lemma skipws_words: "ws \<noteq> [] \<Longrightarrow> \<forall>w\<in>set ws. wf_word w \<Longrightarrow> skipws (pr_words ws @ s) = pr_words ws @ s \<and> pr_words ws \<noteq> [] \<and> hd (pr_words ws @ s) \<notin> symbols"
  using wf_word_hd [of "hd ws"] by (cases ws) (auto simp: pr_words_def skipws_other)

lemma exec_args_step:
  assumes "wf_word w" "suffix (w @ 32 # T) b" "length as + 1 < MAXARGS"
  shows "\<exists>t. exec_args (Suc k) as r (w @ 32 # T) = bnd (parseredirs k r) (exec_args k (as @ [t])) T \<and> tokstr b t = w"
proof -
  obtain q eq where w: "gettoken (w @ 32 # T) = Inr ((97, q, eq), skipws T)" "tokstr b (q, eq) = w"
    using gettoken_word [OF assms(1,2)] by blast
  have "exec_args (Suc k) as r (w @ 32 # T) = bnd (parseredirs k r) (exec_args k (as @ [(q, eq)])) (skipws T)"
    using wf_word_hd [OF assms(1)] assms(3)
    by (auto simp: bnd_def [of "peek S" for S] bnd_def [of gettoken] peek_run skipws_word [OF assms(1)] w(1) symbols_def simp del: bnd_Inr)
  then show ?thesis using w(2) by (intro exI [of _ "(q, eq)"]) (simp add: bnd_def parseredirs_skipws)
qed

lemma exec_args_run:
  assumes "ws \<noteq> []" "\<forall>w\<in>set ws. wf_word w" "length as + length ws < MAXARGS" "\<forall>r\<in>set rs. wf_redir r" "stops exec_end rest"
    "suffix (pr_words ws @ redirs_text rs @ rest) b" "length ws + length rs < n"
  shows "\<exists>ts rs'. exec_args n as r (pr_words ws @ redirs_text rs @ rest) = Inr (set_args (as @ ts) (wraps r rs'), skipws rest) \<and>
    map (tokstr b) ts = ws \<and> map (map_prod (tokstr b) (\<lambda>a. a)) rs' = rs"
  using assms
proof (induction ws arbitrary: as n)
  case (Cons w ws)
  obtain k where k: "n = Suc k" using Cons.prems(7) by (cases n) auto
  let ?T = "pr_words ws @ redirs_text rs @ rest"
  have tx: "pr_words (w # ws) @ redirs_text rs @ rest = w @ 32 # ?T" by (simp add: pr_words_def)
  have sf: "suffix (w @ 32 # ?T) b" "suffix ?T b" using Cons.prems(6) unfolding tx by (meson suffix_ConsD suffix_appendD)+
  obtain t where st: "exec_args n as r (w @ 32 # ?T) = bnd (parseredirs k r) (exec_args k (as @ [t])) ?T" "tokstr b t = w"
    using exec_args_step [OF _ sf(1), of as k r] Cons.prems(2,3) k by auto
  show ?case
  proof (cases "ws = []")
    case True
    obtain rs' where rs: "parseredirs k r (redirs_text rs @ rest) = Inr (wraps r rs', skipws rest)" "map (map_prod (tokstr b) (\<lambda>a. a)) rs' = rs"
      using parseredirs_run [OF Cons.prems(4) _ stops_no_redir [OF Cons.prems(5)], of b k r] sf(2) True Cons.prems(7) k by (auto simp: pr_words_def)
    have "exec_args k (as @ [t]) (wraps r rs') (skipws rest) = Inr (set_args (as @ [t]) (wraps r rs'), skipws rest)"
      using exec_args_stop [of k rest] Cons.prems(5,7) k True unfolding exec_args_skipws by auto
    then show ?thesis unfolding tx st(1) using rs st(2) True
      by (intro exI [of _ "[t]"] exI [of _ rs']) (simp add: pr_words_def)
  next
    case False
    note sk = skipws_words [OF False, of "redirs_text rs @ rest"]
    have "parseredirs k r ?T = Inr (r, ?T)" using sk Cons.prems(2,7) k by (subst parseredirs_none) (auto simp: symbols_def)
    moreover obtain ts rs' where "exec_args k (as @ [t]) r ?T = Inr (set_args ((as @ [t]) @ ts) (wraps r rs'), skipws rest)"
      "map (tokstr b) ts = ws" "map (map_prod (tokstr b) (\<lambda>a. a)) rs' = rs"
      using Cons.IH [OF False _ _ Cons.prems(4,5) sf(2), of "as @ [t]" k] Cons.prems(2,3,7) k by auto
    ultimately show ?thesis unfolding tx st(1) using st(2) by (intro exI [of _ "t # ts"] exI [of _ rs']) simp
  qed
qed simp

subsection \<open>The levels of the grammar\<close>

definition level3 :: "u8 list cmd \<Rightarrow> bool" where
  "level3 c \<longleftrightarrow> (\<forall>rs rest n b. (\<forall>r\<in>set rs. wf_redir r) \<and> stops exec_end rest \<and> suffix (pr c 3 @ redirs_text rs @ rest) b \<and>
     4 * length (pr c 3 @ redirs_text rs @ rest) + 4 \<le> n \<longrightarrow>
     reads b (parseexec n) (pr c 3 @ redirs_text rs @ rest) (wraps c rs) (skipws rest))"

definition level2 :: "u8 list cmd \<Rightarrow> bool" where
  "level2 c \<longleftrightarrow> (\<forall>rest n b. stops {41, 38, 59} rest \<and> suffix (pr c 2 @ rest) b \<and> 4 * length (pr c 2 @ rest) + 5 \<le> n \<longrightarrow>
     reads b (parsepipe n) (pr c 2 @ rest) c (skipws rest))"

definition level1 :: "u8 list cmd \<Rightarrow> bool" where
  "level1 c \<longleftrightarrow> (\<forall>rest n b. stops {41, 38, 59} rest \<and> suffix (pr c 1 @ rest) b \<and> 4 * length (pr c 1 @ rest) + 5 \<le> n \<longrightarrow>
     (\<exists>c0 s0 c' k. parsepipe n (pr c 1 @ rest) = Inr (c0, s0) \<and> k \<le> length (pr c 1) \<and>
        (\<forall>m. backs (m + k) c0 s0 = backs m c' (skipws rest)) \<and> map_cmd (tokstr b) c' = c))"

definition level0 :: "u8 list cmd \<Rightarrow> bool" where
  "level0 c \<longleftrightarrow> (\<forall>rest n b. stops {41} rest \<and> suffix (pr c 0 @ rest) b \<and> 4 * length (pr c 0 @ rest) + 6 \<le> n \<longrightarrow>
     reads b (parseline n) (pr c 0 @ rest) c (skipws rest))"

lemma stops_mono: "stops S r \<Longrightarrow> S \<subseteq> T \<Longrightarrow> stops T r"
  by (auto simp: stops_def)

lemma length_redirs: "length rs \<le> length (redirs_text rs)"
  by (induction rs) (auto simp: pr_redir_def)

lemma length_pr_words: "\<forall>w\<in>set ws. wf_word w \<Longrightarrow> length ws \<le> length (pr_words ws)"
  by (induction ws) (auto simp: pr_words_def)

lemma exec_level3:
  assumes "wf_cmd (EXEC ws)"
  shows "level3 (EXEC ws)"
  unfolding level3_def
proof (intro allI impI)
  fix rs rest n b
  assume a: "(\<forall>r\<in>set rs. wf_redir r) \<and> stops exec_end rest \<and> suffix (pr (EXEC ws) 3 @ redirs_text rs @ rest) b \<and>
     4 * length (pr (EXEC ws) 3 @ redirs_text rs @ rest) + 4 \<le> n"
  let ?t = "pr_words ws @ redirs_text rs @ rest"
  obtain k where k: "n = Suc k" using a by (cases n) auto
  have wf: "\<forall>w\<in>set ws. wf_word w" "length ws < MAXARGS" using assms by auto
  have fuel: "length ws + length rs < k" using a k length_redirs [of rs] length_pr_words [OF wf(1)] by simp
  have hd: "skipws ?t = [] \<or> hd (skipws ?t) \<noteq> 40"
  proof (cases "ws = []")
    case True
    then show ?thesis using a skipws_other [of "60"] skipws_other [of "62"]
      by (cases rs) (auto simp: pr_words_def pr_redir_def stops_def whitespace_def split: if_splits)
  next
    case False
    then show ?thesis using skipws_words [OF False wf(1), of "redirs_text rs @ rest"] by (auto simp: symbols_def)
  qed
  have pe: "parseexec n ?t = bnd (parseredirs k (EXEC [])) (exec_args k []) ?t"
    unfolding k parseexec.simps using hd by (auto simp: bnd_def [of "peek S" for S] peek_run parseredirs_skipws bnd_def [of "parseredirs m c" for m c])
  show "reads b (parseexec n) (pr (EXEC ws) 3 @ redirs_text rs @ rest) (wraps (EXEC ws) rs) (skipws rest)"
  proof (cases "ws = []")
    case True
    obtain rs' where "parseredirs k (EXEC []) (redirs_text rs @ rest) = Inr (wraps (EXEC []) rs', skipws rest)" "map (map_prod (tokstr b) (\<lambda>a. a)) rs' = rs"
      using parseredirs_run [of rs rest b k "EXEC []"] a fuel stops_no_redir [of exec_end rest] True by (auto simp: pr_words_def)
    moreover have "exec_args k [] (wraps (EXEC []) rs') (skipws rest) = Inr (wraps (EXEC []) rs', skipws rest)"
      using exec_args_stop [of k rest "[]" "wraps (EXEC []) rs'"] a fuel unfolding exec_args_skipws by (simp add: set_args_wraps)
    ultimately show ?thesis using True pe by (simp add: reads_def pr_words_def map_cmd_wraps)
  next
    case False
    note sk = skipws_words [OF False wf(1), of "redirs_text rs @ rest"]
    have "parseredirs k (EXEC []) ?t = Inr (EXEC [], ?t)" using sk fuel by (subst parseredirs_none) (auto simp: symbols_def)
    moreover obtain ts rs' where "exec_args k [] (EXEC []) ?t = Inr (set_args ts (wraps (EXEC []) rs'), skipws rest)"
      "map (tokstr b) ts = ws" "map (map_prod (tokstr b) (\<lambda>a. a)) rs' = rs"
      using exec_args_run [OF False wf(1), of "[]" rs rest b k "EXEC []"] wf(2) a fuel by auto
    ultimately show ?thesis using pe by (auto simp: reads_def set_args_wraps map_cmd_wraps)
  qed
qed

lemma redir_level3:
  assumes "level3 c" "wf_redir (f, m, d)"
  shows "level3 (REDIR c f m d)"
  unfolding level3_def
proof (intro allI impI)
  fix rs rest n b
  assume "(\<forall>r\<in>set rs. wf_redir r) \<and> stops exec_end rest \<and> suffix (pr (REDIR c f m d) 3 @ redirs_text rs @ rest) b \<and>
     4 * length (pr (REDIR c f m d) 3 @ redirs_text rs @ rest) + 4 \<le> n"
  then show "reads b (parseexec n) (pr (REDIR c f m d) 3 @ redirs_text rs @ rest) (wraps (REDIR c f m d) rs) (skipws rest)"
    using assms(1) [unfolded level3_def, rule_format, of "(f, m, d) # rs" rest b n] assms(2) by simp
qed

lemma parse_skipws: "parseexec n (skipws s) = parseexec n s" "parsepipe n (skipws s) = parsepipe n s" "parseline n (skipws s) = parseline n s"
proof -
  show e: "parseexec n (skipws s) = parseexec n s" for n by (cases n) (simp_all add: skip_first kerror_def)
  then show p: "parsepipe n (skipws s) = parsepipe n s" for n by (cases n) (simp_all add: bnd_def kerror_def)
  then show "parseline n (skipws s) = parseline n s" by (cases n) (simp_all add: bnd_def kerror_def)
qed

lemma skipws_sym: "c \<in> symbols \<Longrightarrow> skipws (c # s) = c # s"
  by (rule skipws_other) (auto simp: symbols_def whitespace_def)

text \<open>An operator that the look-ahead finds and the tokenizer takes.\<close>

lemma peek_token:
  assumes "c \<in> S" "c \<in> {124, 40, 41, 59, 38, 60}"
  shows "bnd (peek S) (\<lambda>p. if p then bnd gettoken (\<lambda>_. f) else g) (c # s) = f (skipws s)"
    "bnd (peek S) (\<lambda>p. if \<not> p then g else bnd gettoken (\<lambda>_. f)) (c # s) = f (skipws s)"
  using gettoken_sym [OF assms(2), of s] skipws_sym [of c s] assms by (auto simp: bnd_def peek_run symbols_def)

lemma peek_other:
  assumes "stops T s" "S \<inter> T = {}"
  shows "bnd (peek S) (\<lambda>p. if p then f else ret c) (skipws s) = Inr (c, skipws s)"
  using assms by (auto simp: bnd_def peek_run stops_def ret_def)

lemma level2_of_3:
  assumes "level3 c" "pr c 2 = pr c 3"
  shows "level2 c"
  unfolding level2_def
proof (intro allI impI)
  fix rest n b
  assume a: "stops {41, 38, 59} rest \<and> suffix (pr c 2 @ rest) b \<and> 4 * length (pr c 2 @ rest) + 5 \<le> n"
  then obtain k where k: "n = Suc k" by (cases n) auto
  obtain c' where c': "parseexec k (pr c 2 @ rest) = Inr (c', skipws rest)" "map_cmd (tokstr b) c' = c"
    using assms(1) [unfolded level3_def, rule_format, of "[]" rest b k] a k stops_mono [of _ rest exec_end] assms(2) by (auto simp: reads_def)
  then show "reads b (parsepipe n) (pr c 2 @ rest) c (skipws rest)"
    using a unfolding k parsepipe.simps reads_def by (auto simp: peek_other [where T = "{41, 38, 59}"])
qed

lemma pipe_level2:
  assumes "level3 l" "level2 r"
  shows "level2 (PIPE l r)"
  unfolding level2_def
proof (intro allI impI)
  fix rest n b
  assume a: "stops {41, 38, 59} rest \<and> suffix (pr (PIPE l r) 2 @ rest) b \<and> 4 * length (pr (PIPE l r) 2 @ rest) + 5 \<le> n"
  let ?T = "pr r 2 @ rest"
  have tx: "pr (PIPE l r) 2 @ rest = pr l 3 @ 124 # ?T" by (simp add: paren_def)
  have sf: "suffix (pr l 3 @ 124 # ?T) b" "suffix ?T b" using a unfolding tx by (meson suffix_ConsD suffix_appendD)+
  obtain k where k: "n = Suc k" using a by (cases n) auto
  have st: "stops exec_end (124 # ?T)" by (simp add: stops_def skipws_sym symbols_def)
  obtain l' where l: "parseexec k (pr l 3 @ 124 # ?T) = Inr (l', 124 # ?T)" "map_cmd (tokstr b) l' = l"
    using assms(1) [unfolded level3_def, rule_format, of "[]" "124 # ?T" b k] st sf(1) a k tx by (auto simp: reads_def skipws_sym symbols_def)
  obtain r' where r: "parsepipe k ?T = Inr (r', skipws rest)" "map_cmd (tokstr b) r' = r"
    using assms(2) [unfolded level2_def, rule_format, of rest b k] sf(2) a k tx by (auto simp: reads_def)
  have "parsepipe n (pr l 3 @ 124 # ?T) = Inr (PIPE l' r', skipws rest)"
    unfolding k parsepipe.simps bnd_Inr [of "parseexec k", OF l(1)] by (simp add: peek_token parse_skipws r(1) ret_def)
  then show "reads b (parsepipe n) (pr (PIPE l r) 2 @ rest) (PIPE l r) (skipws rest)" unfolding tx reads_def using l(2) r(2) by simp
qed

lemma level1_of_2:
  assumes "level2 c" "pr c 1 = pr c 2"
  shows "level1 c"
  unfolding level1_def
proof (intro allI impI)
  fix rest n b
  assume "stops {41, 38, 59} rest \<and> suffix (pr c 1 @ rest) b \<and> 4 * length (pr c 1 @ rest) + 5 \<le> n"
  then obtain c' where "parsepipe n (pr c 1 @ rest) = Inr (c', skipws rest)" "map_cmd (tokstr b) c' = c"
    using assms(1) [unfolded level2_def, rule_format, of rest b n] assms(2) by (auto simp: reads_def)
  then show "\<exists>c0 s0 c' k. parsepipe n (pr c 1 @ rest) = Inr (c0, s0) \<and> k \<le> length (pr c 1) \<and>
      (\<forall>m. backs (m + k) c0 s0 = backs m c' (skipws rest)) \<and> map_cmd (tokstr b) c' = c"
    by (intro exI [of _ c'] exI [of _ "skipws rest"] exI [of _ 0]) simp
qed

lemma back_level1:
  assumes "level1 c"
  shows "level1 (BACK c)"
  unfolding level1_def
proof (intro allI impI)
  fix rest n b
  assume a: "stops {41, 38, 59} rest \<and> suffix (pr (BACK c) 1 @ rest) b \<and> 4 * length (pr (BACK c) 1 @ rest) + 5 \<le> n"
  have tx: "pr (BACK c) 1 @ rest = pr c 1 @ 38 # rest" by (simp add: paren_def)
  have st: "stops {41, 38, 59} (38 # rest)" "skipws (38 # rest) = 38 # rest" by (simp_all add: stops_def skipws_sym symbols_def)
  obtain c0 s0 c' k where c: "parsepipe n (pr c 1 @ 38 # rest) = Inr (c0, s0)" "k \<le> length (pr c 1)"
    "\<forall>m. backs (m + k) c0 s0 = backs m c' (38 # rest)" "map_cmd (tokstr b) c' = c"
    using assms [unfolded level1_def, rule_format, of "38 # rest" b n] a st unfolding tx by auto
  have "backs (Suc m) c' (38 # rest) = backs m (BACK c') (skipws rest)" for m
    by (simp add: peek_token)
  then have "\<forall>m. backs (m + Suc k) c0 s0 = backs m (BACK c') (skipws rest)" using c(3) [rule_format, of "Suc m" for m] by simp
  then show "\<exists>c0 s0 c' k. parsepipe n (pr (BACK c) 1 @ rest) = Inr (c0, s0) \<and> k \<le> length (pr (BACK c) 1) \<and>
      (\<forall>m. backs (m + k) c0 s0 = backs m c' (skipws rest)) \<and> map_cmd (tokstr b) c' = BACK c"
    unfolding tx using c(1,2,4) by (intro exI [of _ c0] exI [of _ s0] exI [of _ "BACK c'"] exI [of _ "Suc k"]) (simp add: paren_def)
qed

text \<open>The pipeline and the ampersands of a line.\<close>

lemma line_start:
  assumes "level1 c" "stops {41, 59} rest" "suffix (pr c 1 @ rest) b" "4 * length (pr c 1 @ rest) + 5 \<le> n"
  shows "\<exists>c'. bnd (parsepipe n) (backs n) (pr c 1 @ rest) = Inr (c', skipws rest) \<and> map_cmd (tokstr b) c' = c"
proof -
  obtain c0 s0 c' k where c: "parsepipe n (pr c 1 @ rest) = Inr (c0, s0)" "k \<le> length (pr c 1)"
    "\<forall>m. backs (m + k) c0 s0 = backs m c' (skipws rest)" "map_cmd (tokstr b) c' = c"
    using assms(1) [unfolded level1_def, rule_format, of rest b n] assms(2-4) stops_mono [OF assms(2), of "{41, 38, 59}"] by auto
  have "Suc k \<le> n" using c(2) assms(4) by simp
  then obtain j where j: "n = Suc j + k" by (metis add_Suc add_Suc_right le_iff_add add.commute)
  have "backs n c0 s0 = Inr (c', skipws rest)" unfolding j c(3) [rule_format] using assms(2)
    by (simp add: peek_other [where T = "{41, 59}"])
  then show ?thesis using c(1,4) by simp
qed

lemma parseline_start:
  "parseline (Suc n) = bnd (bnd (parsepipe n) (backs n)) (\<lambda>c. bnd (peek {59}) (\<lambda>p.
     if p then bnd gettoken (\<lambda>_. bnd (parseline n) (\<lambda>d. ret (LIST c d))) else ret c))"
  by (simp add: bnd_assoc)

lemma level0_of_1:
  assumes "level1 c" "pr c 0 = pr c 1"
  shows "level0 c"
  unfolding level0_def
proof (intro allI impI)
  fix rest n b
  assume a: "stops {41} rest \<and> suffix (pr c 0 @ rest) b \<and> 4 * length (pr c 0 @ rest) + 6 \<le> n"
  then obtain k where k: "n = Suc k" by (cases n) auto
  obtain c' where c': "bnd (parsepipe k) (backs k) (pr c 0 @ rest) = Inr (c', skipws rest)" "map_cmd (tokstr b) c' = c"
    using line_start [OF assms(1), of rest b k] a k assms(2) stops_mono [of "{41}" rest "{41, 59}"] by auto
  then show "reads b (parseline n) (pr c 0 @ rest) c (skipws rest)"
    using a unfolding k parseline_start reads_def by (auto simp: peek_other [where T = "{41}"] bnd_Inr [where m = "bnd (parsepipe k) (backs k)", OF c'(1)])
qed

lemma list_level0:
  assumes "level1 l" "level0 r"
  shows "level0 (LIST l r)"
  unfolding level0_def
proof (intro allI impI)
  fix rest n b
  assume a: "stops {41} rest \<and> suffix (pr (LIST l r) 0 @ rest) b \<and> 4 * length (pr (LIST l r) 0 @ rest) + 6 \<le> n"
  let ?T = "pr r 0 @ rest"
  have tx: "pr (LIST l r) 0 @ rest = pr l 1 @ 59 # ?T" by (simp add: paren_def)
  have sf: "suffix (pr l 1 @ 59 # ?T) b" "suffix ?T b" using a unfolding tx by (meson suffix_ConsD suffix_appendD)+
  obtain k where k: "n = Suc k" using a by (cases n) auto
  have st: "stops {41, 59} (59 # ?T)" "skipws (59 # ?T) = 59 # ?T" by (simp_all add: stops_def skipws_sym symbols_def)
  obtain l' where l: "bnd (parsepipe k) (backs k) (pr l 1 @ 59 # ?T) = Inr (l', 59 # ?T)" "map_cmd (tokstr b) l' = l"
    using line_start [OF assms(1) st(1) sf(1), of k] a k tx st(2) by auto
  obtain r' where r: "parseline k ?T = Inr (r', skipws rest)" "map_cmd (tokstr b) r' = r"
    using assms(2) [unfolded level0_def, rule_format, of rest b k] sf(2) a k tx by (auto simp: reads_def)
  have "parseline n (pr l 1 @ 59 # ?T) = Inr (LIST l' r', skipws rest)"
    unfolding k parseline_start bnd_Inr [where m = "bnd (parsepipe k) (backs k)", OF l(1)] by (simp add: peek_token parse_skipws r(1) ret_def)
  then show "reads b (parseline n) (pr (LIST l r) 0 @ rest) (LIST l r) (skipws rest)" unfolding tx reads_def using l(2) r(2) by simp
qed

lemma level3_of_0:
  assumes "level0 c" "pr c 3 = 40 # pr c 0 @ [41]"
  shows "level3 c"
  unfolding level3_def
proof (intro allI impI)
  fix rs rest n b
  let ?R = "redirs_text rs @ rest"
  assume a: "(\<forall>r\<in>set rs. wf_redir r) \<and> stops exec_end rest \<and> suffix (pr c 3 @ ?R) b \<and> 4 * length (pr c 3 @ ?R) + 4 \<le> n"
  have tx: "pr c 3 @ ?R = 40 # pr c 0 @ 41 # ?R" using assms(2) by simp
  have sf: "suffix (pr c 0 @ 41 # ?R) b" "suffix ?R b" using a unfolding tx by (meson suffix_ConsD suffix_appendD)+
  obtain k where k: "n = Suc (Suc k)" using a by (cases n; cases "n - 1") auto
  have st: "stops {41} (41 # ?R)" "skipws (41 # ?R) = 41 # ?R" by (simp_all add: stops_def skipws_sym symbols_def)
  obtain c' where c: "parseline k (pr c 0 @ 41 # ?R) = Inr (c', 41 # ?R)" "map_cmd (tokstr b) c' = c"
    using assms(1) [unfolded level0_def, rule_format, of "41 # ?R" b k] st sf(1) a k tx by (auto simp: reads_def)
  obtain rs' where rs: "parseredirs k c' ?R = Inr (wraps c' rs', skipws rest)" "map (map_prod (tokstr b) (\<lambda>a. a)) rs' = rs"
    using parseredirs_run [of rs rest b k c'] a sf(2) stops_no_redir [of exec_end rest] length_redirs [of rs] k tx by auto
  have "parseblock (Suc k) (40 # pr c 0 @ 41 # ?R) = Inr (wraps c' rs', skipws rest)"
    unfolding parseblock.simps by (simp add: peek_token parse_skipws c(1) parseredirs_skipws rs(1))
  moreover have "parseexec n (40 # pr c 0 @ 41 # ?R) = parseblock (Suc k) (40 # pr c 0 @ 41 # ?R)"
    unfolding k parseexec.simps(2) by (simp add: bnd_def peek_run skipws_sym symbols_def)
  ultimately show "reads b (parseexec n) (pr c 3 @ ?R) (wraps c rs) (skipws rest)"
    unfolding tx reads_def using c(2) rs(2) by (auto simp: map_cmd_wraps)
qed

lemma levels: "wf_cmd c \<Longrightarrow> level3 c \<and> level2 c \<and> level1 c \<and> level0 c"
proof (induction c)
  case (EXEC ws)
  then show ?case using exec_level3 level2_of_3 level1_of_2 level0_of_1 by (metis pr.simps(1))
next
  case (REDIR c f m d)
  then show ?case using redir_level3 level2_of_3 level1_of_2 level0_of_1 by (metis pr.simps(2) wf_cmd.simps(2))
next
  case (PIPE l r)
  then have 2: "level2 (PIPE l r)" by (simp add: pipe_level2)
  then have 1: "level1 (PIPE l r)" by (rule level1_of_2) (simp add: paren_def)
  then have 0: "level0 (PIPE l r)" by (rule level0_of_1) (simp add: paren_def)
  then have "level3 (PIPE l r)" by (rule level3_of_0) (simp add: paren_def)
  then show ?case using 0 1 2 by blast
next
  case (LIST l r)
  then have 0: "level0 (LIST l r)" by (simp add: list_level0)
  then have 3: "level3 (LIST l r)" by (rule level3_of_0) (simp add: paren_def)
  then have 2: "level2 (LIST l r)" by (rule level2_of_3) (simp add: paren_def)
  then have "level1 (LIST l r)" by (rule level1_of_2) (simp add: paren_def)
  then show ?case using 0 2 3 by blast
next
  case (BACK c)
  then have 1: "level1 (BACK c)" by (simp add: back_level1)
  then have 0: "level0 (BACK c)" by (rule level0_of_1) (simp add: paren_def)
  then have 3: "level3 (BACK c)" by (rule level3_of_0) (simp add: paren_def)
  then have "level2 (BACK c)" by (rule level2_of_3) (simp add: paren_def)
  then show ?case using 0 1 3 by blast
qed

lemma parse_printed:
  assumes "wf_cmd c"
  shows "\<exists>c' b. parsecmd (pr c 0) = Inr (c', b) \<and> map_cmd (tokstr (pr c 0)) c' = c"
proof -
  have "stops {41} []" by (simp add: stops_def skipws_def)
  then obtain c' where "parseline (4 * length (pr c 0) + 6) (pr c 0) = Inr (c', [])" "map_cmd (tokstr (pr c 0)) c' = c"
    using levels [OF assms] unfolding level0_def reads_def by (metis append_Nil2 order_refl skipws_def dropWhile.simps(1) suffix_order.refl)
  then show ?thesis by (simp add: parsecmd_def peek_run ret_def skipws_def bnd_def)
qed

text \<open>
  C13: parsing undoes printing. For every command whose words are free of blanks, operators and zeros and that
  has at most nine arguments, parsing the line that writes it down, with parentheses where the
  grammar needs them, gives the command back, with the same structure, redirections and words.
\<close>

theorem shell_roundtrip:
  assumes "wf_cmd c"
  shows "\<exists>c' b. parsecmd (pr c 0) = Inr (c', b) \<and> map_cmd (tokstr (pr c 0)) c' = c"
  by (rule parse_printed [OF assms])

theorem shell_roundtrip_witness:
  "\<exists>c' b. parsecmd [108, 115, 32, 124, 119, 99, 32, 62, 111, 32] = Inr (c', b) \<and>
     map_cmd (tokstr [108, 115, 32, 124, 119, 99, 32, 62, 111, 32]) c' = PIPE (EXEC [[108, 115]]) (REDIR (EXEC [[119, 99]]) [111] 0x201 1)"
proof -
  let ?c = "PIPE (EXEC [[108, 115]]) (REDIR (EXEC [[119, 99]]) [111] 0x201 1) :: u8 list cmd"
  have "wf_cmd ?c" by (simp add: wf_redir_def wf_word_def wordch_def whitespace_def symbols_def)
  moreover have "pr ?c 0 = [108, 115, 32, 124, 119, 99, 32, 62, 111, 32]" by (simp add: pr_words_def pr_redir_def paren_def)
  ultimately show ?thesis using shell_roundtrip [of ?c] by simp
qed

theorem shell_words_witness:
  "\<exists>t b. parsecmd [108, 115, 32] = Inr (EXEC [t], b) \<and> good [108, 115, 32] t \<and> is_str b (3 - fst t) [108, 115]"
proof -
  let ?c = "EXEC [[108, 115]] :: u8 list cmd" and ?s = "[108, 115, 32] :: u8 list"
  have "wf_cmd ?c" by (simp add: wf_word_def wordch_def whitespace_def symbols_def)
  moreover have "pr ?c 0 = ?s" by (simp add: pr_words_def)
  ultimately obtain c' b where p: "parsecmd ?s = Inr (c', b)" "map_cmd (tokstr ?s) c' = ?c" using parse_printed [of ?c] by auto
  then obtain t where "c' = EXEC [t]" "tokstr ?s t = [108, 115]" by (cases c') auto
  then show ?thesis using shell_words [of ?s c' b] p(1) by (auto simp: numeral_3_eq_3)
qed

section \<open>Waiting\<close>

text \<open>The forks and waits of a process itself, not of its children.\<close>

primrec own_forks :: "script \<Rightarrow> nat" where
  "own_forks Exit = 0" | "own_forks (Exec a as k) = own_forks k" | "own_forks (Print d s k) = own_forks k"
| "own_forks (Close d k) = own_forks k" | "own_forks (Dup d k) = own_forks k" | "own_forks (Open f m e k) = own_forks k"
| "own_forks (MkPipe e k) = own_forks k" | "own_forks (Chdir f e k) = own_forks k" | "own_forks (Fork c k) = Suc (own_forks k)"
| "own_forks (Wait k) = own_forks k"

primrec own_waits :: "script \<Rightarrow> nat" where
  "own_waits Exit = 0" | "own_waits (Exec a as k) = own_waits k" | "own_waits (Print d s k) = own_waits k"
| "own_waits (Close d k) = own_waits k" | "own_waits (Dup d k) = own_waits k" | "own_waits (Open f m e k) = own_waits k"
| "own_waits (MkPipe e k) = own_waits k" | "own_waits (Chdir f e k) = own_waits k" | "own_waits (Fork c k) = own_waits k"
| "own_waits (Wait k) = Suc (own_waits k)"

primrec ends_back :: "'p cmd \<Rightarrow> bool" where
  "ends_back (EXEC as) = False"
| "ends_back (REDIR c f m d) = ends_back c"
| "ends_back (PIPE l r) = False"
| "ends_back (LIST l r) = ends_back r"
| "ends_back (BACK c) = True"

text \<open>A process waits for every child it starts, except for the one of a command in the background.\<close>

lemma runcmd_waits: "own_forks (runcmd c) = own_waits (runcmd c) + (if ends_back c then 1 else 0)"
  by (induction c) (auto split: list.splits)

end
