(* ===== verification/Umalloc.thy ===== *)
theory Umalloc
  imports Prelude
begin

text \<open>
  The user library's allocator, \<open>umalloc.c\<close>: a circular list of free blocks in address order, with the page
  allocator of the assignment on top of it. A header is its address; the two fields of all headers are
  functions of the address, and one unit is the eight bytes of a header. Growing the process is the
  parameter \<open>grow\<close>: from the old break and the argument of \<open>sbrk\<close> to the new break, or none when the kernel
  refuses. Walks along the list that need not end are partial functions.
\<close>

section \<open>Definitions\<close>

record heap =
  hd_ptr :: "nat \<Rightarrow> nat"
  hd_size :: "nat \<Rightarrow> u32"
  freep :: nat
  brk :: nat
  pg_flag :: "nat \<Rightarrow> bool"
  pg_write :: "nat \<Rightarrow> bool"
  pg_count :: int

type_synonym grower = "nat \<Rightarrow> int \<Rightarrow> nat option"

abbreviation set_ptr :: "nat \<Rightarrow> nat \<Rightarrow> heap \<Rightarrow> heap" where
  "set_ptr a v h \<equiv> h\<lparr>hd_ptr := (hd_ptr h)(a := v)\<rparr>"

abbreviation set_size :: "nat \<Rightarrow> u32 \<Rightarrow> heap \<Rightarrow> heap" where
  "set_size a v h \<equiv> h\<lparr>hd_size := (hd_size h)(a := v)\<rparr>"

text \<open>The address after a block: \<open>p + p->s.size\<close> in units.\<close>

definition blk_end :: "heap \<Rightarrow> nat \<Rightarrow> nat" where
  "blk_end h p = p + 8 * unat (hd_size h p)"

subsection \<open>free\<close>

partial_function (option) free_find :: "heap \<Rightarrow> nat \<Rightarrow> nat \<Rightarrow> nat option" where
  "free_find h bp p =
     (if bp > p \<and> bp < hd_ptr h p then Some p
      else if p \<ge> hd_ptr h p \<and> (bp > p \<or> bp < hd_ptr h p) then Some p
      else free_find h bp (hd_ptr h p))"

text \<open>Linking a block to the one at \<open>nx\<close>, or merging with it when it begins where the block ends.\<close>

definition join_next :: "nat \<Rightarrow> nat \<Rightarrow> heap \<Rightarrow> heap" where
  "join_next x nx h =
     (if blk_end h x = nx then set_ptr x (hd_ptr h nx) (set_size x (hd_size h x + hd_size h nx) h)
      else set_ptr x nx h)"

definition free_join :: "nat \<Rightarrow> nat \<Rightarrow> heap \<Rightarrow> heap" where
  "free_join bp p h = (join_next p bp (join_next bp (hd_ptr h p) h))\<lparr>freep := p\<rparr>"

definition free :: "nat \<Rightarrow> heap \<Rightarrow> heap option" where
  "free ap h = (let bp = ap - 8 in map_option (\<lambda>p. free_join bp p h) (free_find h bp (freep h)))"

subsection \<open>malloc\<close>

definition morecore :: "grower \<Rightarrow> u32 \<Rightarrow> heap \<Rightarrow> (nat \<times> heap) option" where
  "morecore grow nu h =
     (let nu = (if nu < 4096 then 4096 else nu) in
      case grow (brk h) (sint (nu * 8)) of
        None \<Rightarrow> Some (0, h)
      | Some b \<Rightarrow>
          let hp = brk h; h = set_size hp nu (h\<lparr>brk := b\<rparr>)
          in map_option (\<lambda>h. (freep h, h)) (free (hp + 8) h))"

definition malloc_take :: "u32 \<Rightarrow> nat \<Rightarrow> nat \<Rightarrow> heap \<Rightarrow> nat \<times> heap" where
  "malloc_take nunits prevp p h =
     (let (p, h) =
        (if hd_size h p = nunits then (p, set_ptr prevp (hd_ptr h p) h)
         else
           let h = set_size p (hd_size h p - nunits) h; p = p + 8 * unat (hd_size h p)
           in (p, set_size p nunits h))
      in (p + 8, h\<lparr>freep := prevp\<rparr>))"

partial_function (option) malloc_loop :: "grower \<Rightarrow> u32 \<Rightarrow> nat \<Rightarrow> nat \<Rightarrow> heap \<Rightarrow> (nat \<times> heap) option" where
  "malloc_loop grow nunits prevp p h =
     (if hd_size h p \<ge> nunits then Some (malloc_take nunits prevp p h)
      else if p = freep h then
        Option.bind (morecore grow nunits h) (\<lambda>(p, h).
        if p = 0 then Some (0, h) else malloc_loop grow nunits p (hd_ptr h p) h)
      else malloc_loop grow nunits p (hd_ptr h p) h)"

definition start_list :: "nat \<Rightarrow> heap \<Rightarrow> heap" where
  "start_list base h = (if freep h = 0 then (set_size base 0 (set_ptr base base h))\<lparr>freep := base\<rparr> else h)"

definition units_for :: "u32 \<Rightarrow> u32" where
  "units_for nbytes = (nbytes + 8 - 1) div 8 + 1"

definition malloc :: "grower \<Rightarrow> nat \<Rightarrow> u32 \<Rightarrow> heap \<Rightarrow> (nat \<times> heap) option" where
  "malloc grow base nbytes h =
     (let h = start_list base h in malloc_loop grow (units_for nbytes) (freep h) (hd_ptr h (freep h)) h)"

subsection \<open>Pages\<close>

text \<open>
  \<open>turn_flag\<close> and \<open>is_flag_on\<close> act on the page of an address: \<open>pg_flag\<close> is \<open>PTE_1\<close>, \<open>pg_write\<close> is
  \<open>PTE_W\<close>, and \<open>update_protected_pages\<close> counts.
\<close>

definition pmalloc_take :: "nat \<Rightarrow> nat \<Rightarrow> heap \<Rightarrow> nat \<times> heap" where
  "pmalloc_take prevp p h =
     (let h = set_size p ((hd_size h p div (4096 div 8) - 1) * (4096 div 8) - 1) h;
          p = p + 8 * unat (hd_size h p);
          h = set_size p ((4096 + 8 - 1) div 8 + 1) h;
          h = h\<lparr>pg_flag := (pg_flag h)((p + 8) div 4096 := True)\<rparr>
      in (p + 8, h\<lparr>freep := prevp\<rparr>))"

partial_function (option) pmalloc_loop :: "grower \<Rightarrow> nat \<Rightarrow> nat \<Rightarrow> heap \<Rightarrow> (nat \<times> heap) option" where
  "pmalloc_loop grow prevp p h =
     (if hd_size h p \<ge> (4096 div 8) * 2 then Some (pmalloc_take prevp p h)
      else if p = freep h then
        Option.bind (morecore grow ((4096 + 8 - 1) div 8 + 1) h) (\<lambda>(p, h).
        if p = 0 then Some (0, h) else pmalloc_loop grow p (hd_ptr h p) h)
      else pmalloc_loop grow p (hd_ptr h p) h)"

definition pmalloc :: "grower \<Rightarrow> nat \<Rightarrow> heap \<Rightarrow> (nat \<times> heap) option" where
  "pmalloc grow base h = (let h = start_list base h in pmalloc_loop grow (freep h) (hd_ptr h (freep h)) h)"

definition protect_page :: "nat \<Rightarrow> heap \<Rightarrow> int \<times> heap" where
  "protect_page ap h =
     (if \<not> pg_flag h (ap div 4096) then (- 1, h)
      else if hd_size h (ap - 8) \<noteq> 4096 div 8 + 1 then (- 1, h)
      else (1, h\<lparr>pg_write := (pg_write h)(ap div 4096 := False), pg_count := pg_count h + 1\<rparr>))"

definition protected :: "nat \<Rightarrow> heap \<Rightarrow> bool" where
  "protected ap h = (\<not> pg_write h (ap div 4096))"

definition pfree :: "nat \<Rightarrow> heap \<Rightarrow> (int \<times> heap) option" where
  "pfree ap h =
     (if \<not> pg_flag h (ap div 4096) then Some (- 1, h)
      else if \<not> protected ap h then Some (- 1, h)
      else if hd_size h (ap - 8) \<noteq> 4096 div 8 + 1 then Some (- 1, h)
      else map_option (\<lambda>h. (1, h)) (free ap (h\<lparr>pg_write := (pg_write h)(ap div 4096 := True), pg_count := pg_count h - 1\<rparr>)))"

section \<open>The circular list\<close>

text \<open>The blocks are linked in the order of the list, the last one to \<open>z\<close>.\<close>

primrec linked :: "heap \<Rightarrow> nat list \<Rightarrow> nat \<Rightarrow> bool" where
  "linked h [] z = True"
| "linked h (x # xs) z = (hd_ptr h x = hd (xs @ [z]) \<and> linked h xs z)"

definition apart :: "heap \<Rightarrow> nat \<Rightarrow> nat \<Rightarrow> bool" where
  "apart h a b \<longleftrightarrow> a < b \<and> blk_end h a \<le> b"

text \<open>
  The free list: the static header \<open>base\<close>, of size 0, then blocks at increasing addresses that do not overlap,
  all below the break, with \<open>freep\<close> somewhere in the list.
\<close>

definition free_list :: "nat \<Rightarrow> heap \<Rightarrow> nat list \<Rightarrow> bool" where
  "free_list base h xs \<longleftrightarrow> 0 < base \<and> xs \<noteq> [] \<and> hd xs = base \<and> hd_size h base = 0 \<and> base < brk h \<and> brk h < 2 ^ 32 \<and>
     freep h \<in> set xs \<and> linked h xs base \<and> sorted_wrt (apart h) xs \<and> (\<forall>x\<in>set xs. blk_end h x \<le> brk h \<and> (x = base \<or> x < blk_end h x))"

definition block :: "heap \<Rightarrow> nat \<Rightarrow> nat set" where
  "block h x = {x..<blk_end h x}"

definition free_bytes :: "heap \<Rightarrow> nat list \<Rightarrow> nat set" where
  "free_bytes h xs = (\<Union>x\<in>set xs. block h x)"

lemma linked_append: "linked h (xs @ ys) z \<longleftrightarrow> linked h xs (hd (ys @ [z])) \<and> linked h ys z"
  by (induction xs) (auto simp: hd_append)

lemma linked_cong: "(\<And>x. x \<in> set xs \<Longrightarrow> hd_ptr h' x = hd_ptr h x) \<Longrightarrow> linked h' xs z = linked h xs z"
  by (induction xs) auto

lemma linked_fields [simp]: "linked (h\<lparr>freep := q\<rparr>) xs z = linked h xs z" "linked (h\<lparr>brk := b\<rparr>) xs z = linked h xs z"
  by (rule linked_cong; simp)+

lemma block_fields [simp]:
  "blk_end (h\<lparr>freep := q\<rparr>) = blk_end h" "blk_end (h\<lparr>brk := b\<rparr>) = blk_end h"
  "apart (h\<lparr>freep := q\<rparr>) = apart h" "apart (h\<lparr>brk := b\<rparr>) = apart h"
  "block (h\<lparr>freep := q\<rparr>) = block h" "block (h\<lparr>brk := b\<rparr>) = block h"
  "free_bytes (h\<lparr>freep := q\<rparr>) = free_bytes h" "free_bytes (h\<lparr>brk := b\<rparr>) = free_bytes h"
  by (simp_all add: blk_end_def apart_def block_def free_bytes_def fun_eq_iff)

lemma linked_next: "linked h (as @ x # bs) z \<Longrightarrow> hd_ptr h x = hd (bs @ [z])"
  by (simp add: linked_append)

lemma ring_base: "free_list base h xs \<Longrightarrow> x \<in> set xs \<Longrightarrow> base \<le> x"
  by (cases xs) (auto simp: free_list_def apart_def)

lemma ring_split:
  assumes "free_list base h (as @ x # bs)"
  shows "\<forall>a\<in>set as. a < x" "\<forall>b\<in>set bs. x < b"
  using assms by (auto simp: free_list_def sorted_wrt_append apart_def)

section \<open>free\<close>

text \<open>Going up the list to the last block below \<open>bp\<close>, and from beyond it around to \<open>base\<close>.\<close>

lemma free_find_up:
  assumes "linked h (ps @ [q]) z" "\<forall>x\<in>set ps. x < q" "sorted_wrt (<) ps" "q < bp"
  shows "free_find h bp (hd (ps @ [q])) = free_find h bp q"
  using assms
proof (induction ps)
  case (Cons x ps)
  have n: "hd_ptr h x = hd (ps @ [q])" using Cons.prems(1) by (cases ps) auto
  have "x < hd_ptr h x" "hd_ptr h x \<le> q" unfolding n using Cons.prems(2,3) by (cases ps; simp)+
  then have "free_find h bp x = free_find h bp (hd_ptr h x)" using Cons.prems(4) by (subst free_find.simps) simp
  then show ?case using Cons n by simp
qed simp

lemma free_find_around:
  assumes "linked h ps base" "\<forall>x\<in>set ps. bp < x" "sorted_wrt (<) ps" "base < bp"
  shows "free_find h bp (hd (ps @ [base])) = free_find h bp base"
  using assms
proof (induction ps)
  case (Cons x ps)
  have n: "hd_ptr h x = hd (ps @ [base])" using Cons.prems(1) by simp
  have "x < hd_ptr h x \<or> hd_ptr h x = base" unfolding n using Cons.prems(3) by (cases ps) auto
  then have "free_find h bp x = free_find h bp (hd_ptr h x)" using Cons.prems(2,4) by (subst free_find.simps) auto
  then show ?case using Cons n by simp
qed simp

lemma sorted_apart: "sorted_wrt (apart h) xs \<Longrightarrow> sorted_wrt (<) xs"
  by (rule sorted_wrt_mono_rel [of xs "apart h"]) (auto simp: apart_def)

lemma free_find_run:
  assumes r: "free_list base h (as @ q # bs)" and q: "q < bp" "\<forall>b\<in>set bs. bp < b" and p: "p \<in> set (as @ q # bs)"
  shows "free_find h bp p = Some q"
proof -
  have l: "linked h (as @ q # bs) base" and s: "sorted_wrt (<) (as @ q # bs)" and hd: "hd (as @ q # bs) = base"
    using r sorted_apart by (auto simp: free_list_def)
  have bq: "base \<le> q" using ring_base [OF r] by simp
  have at: "free_find h bp q = Some q"
    using linked_next [OF l] q bq by (subst free_find.simps) (cases bs; auto)
  have up: "free_find h bp (hd (ps @ [q])) = Some q" if "as @ q # bs = cs @ ps @ q # bs" for cs ps
  proof -
    have "linked h (ps @ [q]) (hd (bs @ [base]))" using l that by (auto simp: linked_append)
    then show ?thesis using free_find_up [of h ps q _ bp] s at q(1) that by (auto simp: sorted_wrt_append)
  qed
  have base: "free_find h bp base = Some q" using up [of "[]" as] hd by (cases as) auto
  show ?thesis
  proof (cases "p \<in> set bs")
    case True
    then obtain cs ps where bs: "bs = cs @ p # ps" by (meson split_list)
    then have "free_find h bp (hd ((p # ps) @ [base])) = free_find h bp base"
      using l s q bq by (intro free_find_around) (auto simp: linked_append sorted_wrt_append)
    then show ?thesis using base by simp
  next
    case False
    then consider "p = q" | cs ps where "as = cs @ p # ps" using p by (auto dest: split_list)
    then show ?thesis using at up [of cs "p # ps" for cs ps] by cases auto
  qed
qed

text \<open>A run of blocks up to the end of the list.\<close>

definition run :: "nat \<Rightarrow> heap \<Rightarrow> nat list \<Rightarrow> bool" where
  "run base h xs \<longleftrightarrow> linked h xs base \<and> sorted_wrt (apart h) xs \<and> (\<forall>x\<in>set xs. blk_end h x \<le> brk h)"

definition same_but :: "nat \<Rightarrow> heap \<Rightarrow> heap \<Rightarrow> bool" where
  "same_but x h h' \<longleftrightarrow> (\<forall>a. a \<noteq> x \<longrightarrow> hd_ptr h' a = hd_ptr h a \<and> hd_size h' a = hd_size h a) \<and> brk h' = brk h"

lemma same_but_end: "same_but x h h' \<Longrightarrow> a \<noteq> x \<Longrightarrow> blk_end h' a = blk_end h a"
  by (simp add: same_but_def blk_end_def)

lemma run_same:
  assumes "same_but x h h'" "x \<notin> set xs"
  shows "run base h' xs = run base h xs" "free_bytes h' xs = free_bytes h xs"
proof -
  have e: "blk_end h' a = blk_end h a" "hd_ptr h' a = hd_ptr h a" if "a \<in> set xs" for a
    using assms that by (auto simp: same_but_def blk_end_def)
  have "sorted_wrt (apart h') xs = sorted_wrt (apart h) xs" using e(1) by (induction xs) (auto simp: apart_def)
  moreover have "linked h' xs base = linked h xs base" by (rule linked_cong) (use e in simp)
  ultimately show "run base h' xs = run base h xs" using e assms(1) by (auto simp: run_def same_but_def)
  show "free_bytes h' xs = free_bytes h xs" using e by (auto simp: free_bytes_def block_def)
qed

lemma run_Cons:
  "run base h (x # xs) \<longleftrightarrow> hd_ptr h x = hd (xs @ [base]) \<and> blk_end h x \<le> brk h \<and> (\<forall>y\<in>set xs. apart h x y) \<and> run base h xs"
  by (auto simp: run_def)

lemma free_bytes_Cons [simp]: "free_bytes h (x # xs) = block h x \<union> free_bytes h xs" "free_bytes h [] = {}"
  by (simp_all add: free_bytes_def)

text \<open>Joining a block with the one that follows it.\<close>

lemma size_add:
  assumes "blk_end h x = y" "blk_end h y \<le> brk h" "brk h < 2 ^ 32"
  shows "x + 8 * unat (hd_size h x + hd_size h y) = blk_end h y"
proof -
  have "unat (hd_size h x) + unat (hd_size h y) < 2 ^ 32" using assms by (simp add: blk_end_def)
  then have "unat (hd_size h x + hd_size h y) = unat (hd_size h x) + unat (hd_size h y)" by (simp add: unat_word_ariths)
  then show ?thesis using assms(1) by (simp add: blk_end_def)
qed

lemma join:
  assumes r: "run base h xs" "brk h < 2 ^ 32" and x: "x \<notin> set xs" "\<forall>y\<in>set xs. apart h x y" "blk_end h x \<le> brk h" "xs \<noteq> [] \<or> base < blk_end h x"
    and h': "h' = join_next x (hd (xs @ [base])) h"
  shows "\<exists>ys. run base h' (x # ys) \<and> free_bytes h' (x # ys) = block h x \<union> free_bytes h xs \<and> set ys \<subseteq> set xs \<and> same_but x h h' \<and> blk_end h x \<le> blk_end h' x"
proof (cases "blk_end h x = hd (xs @ [base])")
  case True
  then obtain y ys where xs: "xs = y # ys" using x(4) by (cases xs) auto
  have e: "blk_end h x = y" and h1: "h' = set_ptr x (hd_ptr h y) (set_size x (hd_size h x + hd_size h y) h)" using True h' xs by (auto simp: join_next_def)
  have sb: "same_but x h h'" by (simp add: h1 same_but_def)
  have y: "blk_end h y \<le> brk h" "hd_ptr h y = hd (ys @ [base])" "\<forall>z\<in>set ys. apart h y z" "run base h ys"
    using r(1) by (simp_all add: xs run_Cons)
  have be: "blk_end h' x = blk_end h y" using size_add [OF e y(1) r(2)] by (simp add: h1 blk_end_def)
  have "run base h' ys" "free_bytes h' ys = free_bytes h ys" using run_same [OF sb, of ys] x(1) xs y(4) by auto
  moreover have "apart h' x z" if "z \<in> set ys" for z using be y(3) x(2) that xs by (auto simp: apart_def)
  moreover have "block h' x = block h x \<union> block h y" using be e by (auto simp: block_def blk_end_def)
  moreover have "blk_end h x \<le> blk_end h' x" unfolding be e by (simp add: blk_end_def)
  ultimately show ?thesis using sb be y(1,2) xs by (intro exI [of _ ys]) (auto simp: run_Cons h1)
next
  case False
  then have h1: "h' = set_ptr x (hd (xs @ [base])) h" using h' by (simp add: join_next_def)
  have sb: "same_but x h h'" by (simp add: h1 same_but_def)
  have e: "blk_end h' a = blk_end h a" for a by (simp add: h1 blk_end_def)
  have "run base h' xs" "free_bytes h' xs = free_bytes h xs" using run_same [OF sb x(1)] r(1) by auto
  then show ?thesis using sb x e by (intro exI [of _ xs]) (auto simp: run_Cons h1 apart_def block_def)
qed

lemma ring_run: "free_list base h (as @ q # bs) \<Longrightarrow> run base h bs"
  by (auto simp: free_list_def run_def linked_append sorted_wrt_append)

text \<open>Where a block that overlaps no free block belongs in the list.\<close>

lemma place:
  assumes r: "free_list base h xs" and bp: "base < bp" "bp < blk_end h bp" "block h bp \<inter> free_bytes h xs = {}"
  shows "\<exists>as q bs. xs = as @ q # bs \<and> q < bp \<and> blk_end h q \<le> bp \<and> (\<forall>b\<in>set bs. apart h bp b)"
proof -
  define bs where "bs = dropWhile (\<lambda>x. x < bp) xs"
  let ?as = "takeWhile (\<lambda>x. x < bp) xs"
  obtain ys where xs: "xs = base # ys" using r by (cases xs) (auto simp: free_list_def)
  then have "?as \<noteq> []" using bp(1) by simp
  then obtain as q where as: "?as = as @ [q]" by (cases ?as rule: rev_cases) auto
  then have split: "xs = as @ q # bs" unfolding bs_def by (metis append.assoc append_Cons append_Nil takeWhile_dropWhile_id)
  have q: "q < bp" using as by (metis in_set_conv_decomp set_takeWhileD)
  have in_block: "x \<in> block h x" if "x = bp \<or> x \<in> set xs \<and> x \<noteq> base" for x
    using that bp(2) r by (auto simp: block_def free_list_def)
  have dis: "a \<notin> block h bp \<or> a \<notin> block h x" if "x \<in> set xs" for a x using bp(3) that by (auto simp: free_bytes_def)
  have b: "bp < b" if "b \<in> set bs" for b
  proof -
    have s: "sorted_wrt (<) xs" using r by (intro sorted_apart [of h]) (simp add: free_list_def)
    have "\<not> hd bs < bp" using that hd_dropWhile [of "\<lambda>x. x < bp" xs] unfolding bs_def [symmetric] by force
    moreover have "hd bs \<le> b" using that s unfolding split by (cases bs) (auto simp: sorted_wrt_append)
    moreover have "b \<in> set xs" using that split by simp
    ultimately show ?thesis using dis [of b bp] in_block [of b] in_block [of bp] bp(1) by (cases "b = bp") auto
  qed
  have "blk_end h q \<le> bp" using dis [of q bp] in_block [of bp] q split by (auto simp: block_def)
  moreover have "blk_end h bp \<le> b" if "b \<in> set bs" for b
    using dis [of b b] in_block [of b] b [OF that] that bp(1) split by (auto simp: block_def)
  ultimately show ?thesis using split q b by (intro exI [of _ as] exI [of _ q] exI [of _ bs]) (auto simp: apart_def)
qed

text \<open>What linking a freed block behind \<open>q\<close> has to do to the rest of the list.\<close>

lemma relink:
  assumes r: "free_list base h (as @ q # bs)" and q: "q < bp" "\<forall>b\<in>set bs. apart h bp b" and bp: "bp < blk_end h bp" "blk_end h bp \<le> blk_end h2 bp"
    and run: "run base h2 (q # cs)" "free_bytes h2 (q # cs) = block h q \<union> block h bp \<union> free_bytes h bs" "set cs \<subseteq> insert bp (set bs)"
    and h2: "\<And>a. a \<noteq> q \<Longrightarrow> a \<noteq> bp \<Longrightarrow> hd_ptr h2 a = hd_ptr h a \<and> hd_size h2 a = hd_size h a" "brk h2 = brk h"
      "blk_end h q \<le> blk_end h2 q" "hd_size h2 base = 0"
  shows "free_list base (h2\<lparr>freep := q\<rparr>) (as @ q # cs)" "free_bytes h2 (as @ q # cs) = free_bytes h (as @ q # bs) \<union> block h bp"
    "\<And>a. a \<notin> free_bytes h2 (as @ q # cs) \<Longrightarrow> hd_size h2 a = hd_size h a" "\<exists>x\<in>set (as @ q # cs). x \<le> bp \<and> blk_end h bp \<le> blk_end h2 x"
proof -
  have bq: "base \<le> q" using ring_base [OF r] by simp
  have same: "blk_end h2 a = blk_end h a" if "a \<noteq> q" "a \<noteq> bp" for a using h2(1) [OF that] by (simp add: blk_end_def)
  have as: "a < q" "a \<noteq> bp" "apart h a q" "hd_ptr h2 a = hd_ptr h a" "blk_end h2 a = blk_end h a" if "a \<in> set as" for a
    using that ring_split(1) [OF r] q(1) r h2(1) [of a] same [of a] by (auto simp: free_list_def sorted_wrt_append)
  have cs: "x = bp \<or> x \<in> set bs \<and> blk_end h2 x = blk_end h x" "q < x" if "x \<in> set cs" for x
    using that run(1,3) same [of x] by (auto simp: run_Cons apart_def)
  have "linked h2 as q = linked h as q" by (rule linked_cong) (use as in blast)
  then have lk: "linked h2 (as @ q # cs) base" using r run(1) by (auto simp: free_list_def linked_append run_def)
  have "sorted_wrt (apart h2) as" using r as(5)
    by (intro sorted_wrt_mono_rel [of as "apart h" "apart h2"]) (auto simp: free_list_def sorted_wrt_append apart_def)
  then have so: "sorted_wrt (apart h2) (as @ q # cs)"
    using as(3,5) run(1) by (fastforce simp: sorted_wrt_append run_def apart_def)
  have old: "blk_end h x \<le> brk h \<and> (x = base \<or> x < blk_end h x)" if "x \<in> set (as @ q # bs)" for x using r that unfolding free_list_def by blast
  have pos: "blk_end h2 x \<le> brk h \<and> (x = base \<or> x < blk_end h2 x)" if xin: "x \<in> set (as @ q # cs)" for x
  proof -
    consider "x \<in> set as" | "x = q" | "x \<in> set cs" using xin by auto
    then show ?thesis
    proof cases
      case 1
      then show ?thesis using old [of x] as(5) by simp
    next
      case 2
      then show ?thesis using old [of q] run(1) h2(2,3) by (auto simp: run_Cons)
    next
      case 3
      then show ?thesis using cs(1) [OF 3] old [of x] run(1) h2(2) bp by (auto simp: run_def)
    qed
  qed
  have "hd (as @ q # cs) = base" using r by (cases as) (auto simp: free_list_def)
  then show "free_list base (h2\<lparr>freep := q\<rparr>) (as @ q # cs)" using r lk so pos h2(2,4) unfolding free_list_def by auto
  show fb: "free_bytes h2 (as @ q # cs) = free_bytes h (as @ q # bs) \<union> block h bp"
    using run(2) as(5) by (auto simp: free_bytes_def block_def)
  show "hd_size h2 a = hd_size h a" if "a \<notin> free_bytes h2 (as @ q # cs)" for a
  proof (cases "a = q")
    case True
    then have "\<not> q < blk_end h q" using that unfolding fb by (auto simp: free_bytes_def block_def)
    then show ?thesis using True old [of q] h2(4) r by (auto simp: free_list_def)
  next
    case False
    moreover have "a \<noteq> bp" using that bp(1) unfolding fb by (auto simp: block_def)
    ultimately show ?thesis using h2(1) by blast
  qed
  have "blk_end h bp - 1 \<in> free_bytes h2 (q # cs)" unfolding run(2) using bp(1) by (auto simp: block_def)
  then obtain x where x: "x \<in> set (q # cs)" "x \<le> blk_end h bp - 1" "blk_end h bp - 1 < blk_end h2 x" by (auto simp: free_bytes_def block_def)
  have "x \<le> bp" using x(1,2) run(3) q bp(1) by (fastforce simp: apart_def)
  then show "\<exists>x\<in>set (as @ q # cs). x \<le> bp \<and> blk_end h bp \<le> blk_end h2 x" using x by (intro bexI [of _ x]) auto
qed

lemma free_join_run:
  assumes r: "free_list base h (as @ q # bs)" and q: "q < bp" "blk_end h q \<le> bp" "\<forall>b\<in>set bs. apart h bp b"
    and bp: "bp < blk_end h bp" "blk_end h bp \<le> brk h"
  shows "\<exists>xs. free_list base (free_join bp q h) xs \<and> free_bytes (free_join bp q h) xs = free_bytes h (as @ q # bs) \<union> block h bp \<and>
    brk (free_join bp q h) = brk h \<and> (\<forall>a. a \<notin> free_bytes (free_join bp q h) xs \<longrightarrow> hd_size (free_join bp q h) a = hd_size h a) \<and>
    (\<exists>x\<in>set xs. x \<le> bp \<and> blk_end h bp \<le> blk_end (free_join bp q h) x)"
proof -
  have bq: "base \<le> q" using ring_base [OF r] by simp
  have nx: "hd_ptr h q = hd (bs @ [base])" using r linked_next by (auto simp: free_list_def)
  have lim: "brk h < 2 ^ 32" using r by (simp add: free_list_def)
  define h1 where "h1 = join_next bp (hd (bs @ [base])) h"
  have "bp \<notin> set bs" using q(3) by (auto simp: apart_def)
  then obtain ys where j1: "run base h1 (bp # ys)" "free_bytes h1 (bp # ys) = block h bp \<union> free_bytes h bs" "set ys \<subseteq> set bs"
    "same_but bp h h1" "blk_end h bp \<le> blk_end h1 bp"
    using join [OF ring_run [OF r] lim, of bp h1] q bp bq h1_def by auto
  define h2 where "h2 = join_next q (hd ((bp # ys) @ [base])) h1"
  have qe: "blk_end h1 q = blk_end h q" "block h1 q = block h q" using same_but_end [OF j1(4), of q] q(1) by (auto simp: block_def)
  have ap: "\<forall>y\<in>set (bp # ys). apart h1 q y"
    using qe q ring_split(2) [OF r] r j1(3) by (auto simp: apart_def free_list_def sorted_wrt_append)
  have "q \<notin> set (bp # ys)" "run base h1 (bp # ys)" "blk_end h1 q \<le> brk h1" and b1: "brk h1 = brk h"
    using ap j1(1,4) qe r by (auto simp: apart_def free_list_def same_but_def)
  then obtain cs where j2: "run base h2 (q # cs)" "free_bytes h2 (q # cs) = block h q \<union> block h bp \<union> free_bytes h bs" "set cs \<subseteq> set (bp # ys)"
    "same_but q h1 h2" "blk_end h q \<le> blk_end h2 q"
    using join [OF _ _ _ ap, of base h2] lim h2_def j1(2) qe by auto
  have "blk_end h1 q \<noteq> bp" if "base = q" using that r q(1) qe by (auto simp: free_list_def blk_end_def)
  then have sz: "hd_size h2 base = 0"
    using r q(1) bq j1(4) j2(4) by (cases "base = q") (auto simp: h2_def join_next_def free_list_def same_but_def)
  have fj: "free_join bp q h = h2\<lparr>freep := q\<rparr>" by (simp add: free_join_def nx h1_def h2_def)
  have "set cs \<subseteq> insert bp (set bs)" "blk_end h bp \<le> blk_end h2 bp" "brk h2 = brk h"
    "\<And>a. a \<noteq> q \<Longrightarrow> a \<noteq> bp \<Longrightarrow> hd_ptr h2 a = hd_ptr h a \<and> hd_size h2 a = hd_size h a"
    using j1(3-5) j2(3,4) same_but_end [OF j2(4), of bp] q(1) by (auto simp: same_but_def)
  then show ?thesis unfolding fj
    using relink [OF r q(1,3) bp(1) _ j2(1,2) _ _ _ j2(5) sz] by (intro exI [of _ "as @ q # cs"]) auto
qed

text \<open>Freeing a block gives its bytes back and leaves the headers outside the free memory alone.\<close>

lemma free_run:
  assumes r: "free_list base h xs" and bp: "base < bp" "bp < blk_end h bp" "blk_end h bp \<le> brk h" "block h bp \<inter> free_bytes h xs = {}"
  shows "\<exists>h' xs'. free (bp + 8) h = Some h' \<and> free_list base h' xs' \<and> free_bytes h' xs' = free_bytes h xs \<union> block h bp \<and> brk h' = brk h \<and>
    (\<forall>a. a \<notin> free_bytes h' xs' \<longrightarrow> hd_size h' a = hd_size h a) \<and> (\<exists>x\<in>set xs'. x \<le> bp \<and> blk_end h bp \<le> blk_end h' x)"
proof -
  obtain as q bs where s: "xs = as @ q # bs" "q < bp" "blk_end h q \<le> bp" "\<forall>b\<in>set bs. apart h bp b"
    using place [OF r bp(1,2,4)] by blast
  have "free_find h bp (freep h) = Some q"
    using free_find_run [OF r [unfolded s(1)] s(2)] s(4) r s(1) by (auto simp: apart_def free_list_def)
  then have "free (bp + 8) h = Some (free_join bp q h)" by (simp add: free_def)
  then show ?thesis using free_join_run [OF r [unfolded s(1)] s(2,3,4) bp(2,3)] s(1) by blast
qed

section \<open>malloc\<close>

text \<open>What the kernel promises of \<open>sbrk\<close>: it moves the break by the amount asked for, or refuses.\<close>

definition grows :: "grower \<Rightarrow> bool" where
  "grows grow \<longleftrightarrow> (\<forall>b n b'. 0 \<le> n \<and> grow b n = Some b' \<longrightarrow> int b' = int b + n \<and> b' < 2 ^ 32)"

lemma morecore_run:
  assumes r: "free_list base h xs" and g: "grows grow" and nu: "unat nu < 2 ^ 28"
  shows "morecore grow nu h = Some (0, h) \<or>
    (\<exists>h' xs' b'. morecore grow nu h = Some (freep h', h') \<and> free_list base h' xs' \<and> brk h < b' \<and> brk h' = b' \<and>
       free_bytes h' xs' = free_bytes h xs \<union> {brk h..<b'} \<and> (\<forall>a. a \<notin> free_bytes h' xs' \<longrightarrow> hd_size h' a = hd_size h a) \<and>
       (\<exists>x\<in>set xs'. nu \<le> hd_size h' x))"
proof -
  define n where "n = (if nu < 4096 then 4096 else nu)"
  have n: "unat n < 2 ^ 28" "nu \<le> n" "0 < unat n" using nu by (auto simp: n_def word_less_nat_alt word_le_nat_alt)
  have "unat (n * 8) = 8 * unat n" using n(1) by (simp add: unat_word_ariths)
  then have u: "uint (n * 8) = 8 * int (unat n)" by (simp only: uint_nat of_nat_mult of_nat_numeral)
  have "sint (n * 8) = signed_take_bit 31 (uint (n * 8))" by (simp only: sint_uint) simp
  moreover have "- (2 ^ 31) \<le> 8 * int k \<and> 8 * int k < 2 ^ 31" if "k < 2 ^ 28" for k :: nat using that by simp
  ultimately have si: "sint (n * 8) = 8 * int (unat n)" unfolding u using n(1) by (simp only: signed_take_bit_int_eq_self)
  show ?thesis
  proof (cases "grow (brk h) (sint (n * 8))")
    case None
    then show ?thesis by (simp add: morecore_def n_def [symmetric] Let_def)
  next
    case (Some b')
    then have "int b' = int (brk h) + 8 * int (unat n) \<and> b' < 2 ^ 32" using g unfolding grows_def si by (metis of_nat_0_le_iff mult_nonneg_nonneg zero_le_numeral)
    then have b': "b' = brk h + 8 * unat n" "b' < 2 ^ 32" by linarith+
    define h1 where "h1 = set_size (brk h) n (h\<lparr>brk := b'\<rparr>)"
    have fresh: "x < brk h" if "x \<in> set xs" for x using r that unfolding free_list_def by fastforce
    have e: "blk_end h1 (brk h) = b'" "x \<in> set xs \<Longrightarrow> blk_end h1 x = blk_end h x" for x
      using b'(1) fresh [of x] by (auto simp: h1_def blk_end_def)
    have fp: "hd_size h1 base = 0" "freep h1 \<in> set xs" "hd xs = base" "xs \<noteq> []" "0 < base" "base < brk h" "linked h xs base"
      using r fresh [of base] by (auto simp: free_list_def h1_def)
    have "linked h1 xs base = linked h xs base" by (rule linked_cong) (simp add: h1_def)
    then have "linked h1 xs base" using fp(7) by simp
    moreover have "sorted_wrt (apart h1) xs" using r e(2)
      by (intro sorted_wrt_mono_rel [of xs "apart h" "apart h1"]) (auto simp: free_list_def apart_def)
    moreover have "blk_end h1 x \<le> brk h1 \<and> (x = base \<or> x < blk_end h1 x)" if "x \<in> set xs" for x
      using r that e(2) [OF that] b'(1) unfolding free_list_def by (auto simp: h1_def)
    ultimately have r1: "free_list base h1 xs" using fp b' unfolding free_list_def by (simp add: h1_def)
    have fb: "free_bytes h1 xs = free_bytes h xs" "block h1 (brk h) = {brk h..<b'}"
      using e by (auto simp: free_bytes_def block_def)
    have "free_bytes h xs \<subseteq> {..<brk h}" using r by (fastforce simp: free_bytes_def block_def free_list_def)
    then have dis: "block h1 (brk h) \<inter> free_bytes h1 xs = {}" unfolding fb by auto
    have pre: "brk h < blk_end h1 (brk h)" "blk_end h1 (brk h) \<le> brk h1" "brk h1 = b'" using b'(1) n(3) e(1) by (simp_all add: h1_def)
    obtain h' xs' where f: "free (brk h + 8) h1 = Some h'" "free_list base h' xs'" "free_bytes h' xs' = free_bytes h xs \<union> {brk h..<b'}" "brk h' = b'"
      "\<forall>a. a \<notin> free_bytes h' xs' \<longrightarrow> hd_size h' a = hd_size h1 a" "\<exists>x\<in>set xs'. x \<le> brk h \<and> b' \<le> blk_end h' x"
      using free_run [OF r1 fp(6) pre(1,2) dis, unfolded fb e(1) pre(3)] by blast
    have "nu \<le> hd_size h' x" if "x \<le> brk h" "b' \<le> blk_end h' x" for x
      using that b'(1) n(2) by (simp add: blk_end_def word_le_nat_alt)
    moreover have "morecore grow nu h = Some (freep h', h')"
      using Some f(1) by (simp add: morecore_def n_def [symmetric] Let_def h1_def)
    moreover have "hd_size h1 a = hd_size h a" if "a \<notin> free_bytes h' xs'" for a
      using that f(3) n(3) b'(1) by (auto simp: h1_def)
    ultimately show ?thesis using f b'(1) n(3) by (intro disjI2 exI [of _ h'] exI [of _ xs'] exI [of _ b']) auto
  qed
qed

lemma ring_disjoint:
  assumes "free_list base h xs" "x \<in> set xs" "y \<in> set xs" "x \<noteq> y"
  shows "apart h x y \<or> apart h y x"
proof -
  have s: "sorted_wrt (apart h) xs" using assms(1) by (simp add: free_list_def)
  obtain as bs where "xs = as @ x # bs" using assms(2) by (meson split_list)
  then show ?thesis using s assms(3,4) by (auto simp: sorted_wrt_append)
qed

lemma ring_next:
  assumes "free_list base h xs" "pv \<in> set xs" "hd_ptr h pv = x" "x \<noteq> base"
  shows "\<exists>as bs. xs = as @ pv # x # bs"
proof -
  obtain as cs where xs: "xs = as @ pv # cs" using assms(2) by (meson split_list)
  then have "hd_ptr h pv = hd (cs @ [base])" using assms(1) linked_next by (auto simp: free_list_def)
  then show ?thesis using xs assms(3,4) by (cases cs) auto
qed

text \<open>What a successful allocation of a block at \<open>p\<close> means.\<close>

definition cut_out :: "nat \<Rightarrow> heap \<Rightarrow> nat list \<Rightarrow> u32 \<Rightarrow> nat \<Rightarrow> heap \<Rightarrow> nat list \<Rightarrow> bool" where
  "cut_out base h xs nunits p h' xs' \<longleftrightarrow> free_list base h' xs' \<and> hd_size h' p = nunits \<and> base < p \<and> block h' p \<subseteq> free_bytes h xs \<and>
     free_bytes h' xs' = free_bytes h xs - block h' p \<and> brk h' = brk h \<and> (\<forall>a. a \<notin> free_bytes h xs \<longrightarrow> hd_size h' a = hd_size h a)"

lemma take_whole:
  assumes r: "free_list base h (as @ pv # x # bs)" and x: "x \<noteq> base" "hd_size h x = nunits"
  shows "cut_out base h (as @ pv # x # bs) nunits x ((set_ptr pv (hd_ptr h x) h)\<lparr>freep := pv\<rparr>) (as @ pv # bs)"
proof -
  let ?xs = "as @ pv # x # bs" and ?h = "(set_ptr pv (hd_ptr h x) h)\<lparr>freep := pv\<rparr>"
  have e: "blk_end ?h = blk_end h" "block ?h = block h" "apart ?h = apart h" "free_bytes ?h = free_bytes h"
    by (auto simp: blk_end_def block_def apart_def free_bytes_def fun_eq_iff)
  have l: "linked h ?xs base" and s: "sorted_wrt (apart h) ?xs" and d: "distinct ?xs" 
    using r strict_sorted_iff [of ?xs] sorted_apart [of h ?xs] by (auto simp: free_list_def)
  have "linked ?h as pv = linked h as pv" "linked ?h bs base = linked h bs base"
    using d by (auto intro!: linked_cong)
  then have "linked ?h (as @ pv # bs) base" using l by (simp add: linked_append)
  moreover have "sorted_wrt (apart h) (as @ pv # bs)" using s by (auto simp: sorted_wrt_append)
  moreover have "hd (as @ pv # bs) = base" using r by (cases as) (auto simp: free_list_def)
  ultimately have "free_list base ?h (as @ pv # bs)" using r unfolding free_list_def e by auto
  moreover have "block h y \<inter> block h x = {}" if "y \<in> set (as @ pv # bs)" for y
  proof -
    have "y \<noteq> x" using that d by auto
    then show ?thesis using ring_disjoint [OF r, of y x] that by (auto simp: apart_def block_def)
  qed
  then have "free_bytes h (as @ pv # bs) = free_bytes h ?xs - block h x" by (auto simp: free_bytes_def)
  moreover have "block h x \<subseteq> free_bytes h ?xs" by (auto simp: free_bytes_def)
  moreover have "base < x" using ring_base [OF r, of x] x(1) by simp
  ultimately show ?thesis using x(2) unfolding cut_out_def e by simp
qed

lemma take_part:
  assumes r: "free_list base h xs" and x: "x \<in> set xs" "0 < nunits" "nunits < hd_size h x" and pv: "pv \<in> set xs"
    and p: "p = x + 8 * unat (hd_size h x - nunits)"
  shows "cut_out base h xs nunits p ((set_size p nunits (set_size x (hd_size h x - nunits) h))\<lparr>freep := pv\<rparr>) xs"
proof -
  let ?h = "(set_size p nunits (set_size x (hd_size h x - nunits) h))\<lparr>freep := pv\<rparr>"
  have n: "unat (hd_size h x - nunits) = unat (hd_size h x) - unat nunits" "unat nunits < unat (hd_size h x)" "0 < unat nunits"
    using x(2,3) unat_sub [of nunits "hd_size h x"] by (auto simp: word_less_nat_alt word_le_nat_alt)
  have xp: "x < p" "p + 8 * unat nunits = blk_end h x" using n by (simp_all add: p blk_end_def)
  have other: "y \<noteq> p" "blk_end ?h y = blk_end h y" "block h y \<inter> block h x = {}" if "y \<in> set xs" "y \<noteq> x" for y
    using ring_disjoint [OF r that(1) x(1) that(2)] xp n(3) that(2) by (auto simp: apart_def blk_end_def block_def)
  have ex: "blk_end ?h x = p" "blk_end ?h p = blk_end h x" using xp by (auto simp: blk_end_def p)
  have xb: "x \<noteq> base" "base < p" "p \<noteq> base" using r n(2) x(1) ring_base [OF r, of x] xp(1) by (auto simp: free_list_def)
  have "linked ?h xs base = linked h xs base" by (rule linked_cong) simp
  moreover have "sorted_wrt (apart ?h) xs"
  proof (rule sorted_wrt_mono_rel [of xs "apart h"])
    show "apart ?h a b" if "a \<in> set xs" "b \<in> set xs" "apart h a b" for a b
      using that other(2) [of a] ex(1) xp n by (cases "a = x") (auto simp: apart_def)
    show "sorted_wrt (apart h) xs" using r by (simp add: free_list_def)
  qed
  moreover have "blk_end ?h y \<le> brk h \<and> (y = base \<or> y < blk_end ?h y)" if "y \<in> set xs" for y
  proof -
    have "blk_end h y \<le> brk h \<and> (y = base \<or> y < blk_end h y)" using r that unfolding free_list_def by blast
    then show ?thesis using other(2) [of y] that ex(1) xp by (cases "y = x") auto
  qed
  ultimately have "free_list base ?h xs" using r xb pv unfolding free_list_def by auto
  moreover have b: "block ?h p = {p..<blk_end h x}" "block ?h x = {x..<p}" "block h x = {x..<blk_end h x}" using ex by (auto simp: block_def)
  have "free_bytes ?h xs = free_bytes h xs - block ?h p"
  proof -
    have "block ?h y = block h y - block ?h p" if "y \<in> set xs" for y
      using other [OF that] b xp by (cases "y = x") (auto simp: block_def)
    then show ?thesis by (auto simp: free_bytes_def)
  qed
  moreover have "block ?h p \<subseteq> free_bytes h xs" "x \<in> free_bytes h xs" "p \<in> free_bytes h xs"
    using b xp n(3) x(1) by (auto simp: free_bytes_def intro!: bexI [of _ x])
  ultimately show ?thesis using xb unfolding cut_out_def by auto
qed

lemma take_run:
  assumes r: "free_list base h xs" and x: "pv \<in> set xs" "hd_ptr h pv = x" "x \<in> set xs" "nunits \<le> hd_size h x" "0 < nunits"
  shows "\<exists>p h' xs'. malloc_take nunits pv x h = (p + 8, h') \<and> cut_out base h xs nunits p h' xs'"
proof (cases "hd_size h x = nunits")
  case True
  have "x \<noteq> base" using r x(5) True by (auto simp: free_list_def)
  then obtain as bs where xs: "xs = as @ pv # x # bs" using ring_next [OF r x(1,2)] by blast
  then show ?thesis using take_whole [OF r [unfolded xs] \<open>x \<noteq> base\<close> True] True unfolding xs
    by (intro exI) (auto simp: malloc_take_def)
next
  case False
  then have "nunits < hd_size h x" using x(4) by simp
  then show ?thesis using take_part [OF r x(3,5) _ x(1) refl] False by (intro exI) (auto simp: malloc_take_def Let_def)
qed

text \<open>One round of the list, from the block after \<open>freep\<close> to \<open>freep\<close> itself.\<close>

lemma malloc_loop_step:
  "nunits \<le> hd_size h p \<Longrightarrow> malloc_loop grow nunits pv p h = Some (malloc_take nunits pv p h)"
  "\<not> nunits \<le> hd_size h p \<Longrightarrow> p = freep h \<Longrightarrow> malloc_loop grow nunits pv p h =
     Option.bind (morecore grow nunits h) (\<lambda>(p, h). if p = 0 then Some (0, h) else malloc_loop grow nunits p (hd_ptr h p) h)"
  "\<not> nunits \<le> hd_size h p \<Longrightarrow> p \<noteq> freep h \<Longrightarrow> malloc_loop grow nunits pv p h = malloc_loop grow nunits p (hd_ptr h p) h"
  unfolding malloc_loop.simps [of grow nunits pv p h] by (simp_all only: if_True if_False refl simp_thms)

lemma malloc_walk:
  assumes "linked h (p # vs) z" "last (p # vs) = freep h" "freep h \<notin> set (butlast (p # vs))" "hd_ptr h pv = p"
  shows "(\<exists>pw x. pw \<in> set (pv # p # vs) \<and> x \<in> set (p # vs) \<and> hd_ptr h pw = x \<and> nunits \<le> hd_size h x \<and>
      malloc_loop grow nunits pv p h = Some (malloc_take nunits pw x h)) \<or>
    (\<forall>x\<in>set (p # vs). hd_size h x < nunits) \<and>
      malloc_loop grow nunits pv p h = Option.bind (morecore grow nunits h) (\<lambda>(p, h). if p = 0 then Some (0, h) else malloc_loop grow nunits p (hd_ptr h p) h)"
  using assms
proof (induction vs arbitrary: p pv)
  case Nil
  then show ?case using malloc_loop_step(1,2) [where p = p and pv = pv and h = h and nunits = nunits and grow = grow]
    by (cases "nunits \<le> hd_size h p") auto
next
  case (Cons v vs)
  show ?case
  proof (cases "nunits \<le> hd_size h p")
    case True
    then show ?thesis using Cons.prems(4) malloc_loop_step(1) [OF True] by (intro disjI1 exI [of _ pv] exI [of _ p]) simp
  next
    case False
    have v: "hd_ptr h p = v" "p \<noteq> freep h" using Cons.prems(1,3) by auto
    then have e: "malloc_loop grow nunits pv p h = malloc_loop grow nunits p v h" using malloc_loop_step(3) [OF False v(2)] by simp
    have "linked h (v # vs) z" "last (v # vs) = freep h" "freep h \<notin> set (butlast (v # vs))" using Cons.prems by auto
    from Cons.IH [OF this v(1)] show ?thesis unfolding e using False by auto
  qed
qed

lemma ring_cycle:
  assumes r: "free_list base h xs"
  shows "\<exists>p vs z. hd_ptr h (freep h) = p \<and> linked h (p # vs) z \<and> last (p # vs) = freep h \<and> freep h \<notin> set (butlast (p # vs)) \<and> set (p # vs) = set xs"
proof -
  obtain as bs where xs: "xs = as @ freep h # bs" using r by (metis free_list_def split_list)
  let ?ys = "bs @ as @ [freep h]"
  have l: "linked h xs base" and hd: "hd xs = base" using r by (auto simp: free_list_def)
  have f: "hd_ptr h (freep h) = hd (bs @ [base])" using linked_next l xs by metis
  have "linked h ?ys (hd (bs @ [base]))" using l hd f by (cases as) (auto simp: xs linked_append hd_append)
  moreover have "hd ?ys = hd (bs @ [base])" using hd xs by (cases bs; cases as) auto
  moreover have "freep h \<notin> set (butlast ?ys)" using ring_split [OF r [unfolded xs]] by (auto simp: butlast_append)
  moreover have "set ?ys = set xs" "last ?ys = freep h" using xs by auto
  moreover obtain p vs where "?ys = p # vs" by (cases ?ys) auto
  ultimately show ?thesis using f by (intro exI [of _ p] exI [of _ vs] exI [of _ "hd (bs @ [base])"]) auto
qed

lemma malloc_loop_run:
  assumes r: "free_list base h xs" and n: "0 < nunits"
  shows "(\<exists>p h' xs'. malloc_loop grow nunits (freep h) (hd_ptr h (freep h)) h = Some (p + 8, h') \<and> cut_out base h xs nunits p h' xs') \<or>
    (\<forall>x\<in>set xs. hd_size h x < nunits) \<and> malloc_loop grow nunits (freep h) (hd_ptr h (freep h)) h =
      Option.bind (morecore grow nunits h) (\<lambda>(p, h). if p = 0 then Some (0, h) else malloc_loop grow nunits p (hd_ptr h p) h)"
proof -
  obtain p vs z where c: "hd_ptr h (freep h) = p" "linked h (p # vs) z" "last (p # vs) = freep h" "freep h \<notin> set (butlast (p # vs))" "set (p # vs) = set xs"
    using ring_cycle [OF r] by blast
  have f: "freep h \<in> set xs" using r by (simp add: free_list_def)
  from malloc_walk [OF c(2-4,1), of nunits grow] show ?thesis
  proof (elim disjE exE)
    fix pw x
    assume a: "pw \<in> set (freep h # p # vs) \<and> x \<in> set (p # vs) \<and> hd_ptr h pw = x \<and> nunits \<le> hd_size h x \<and>
      malloc_loop grow nunits (freep h) p h = Some (malloc_take nunits pw x h)"
    then have "pw \<in> set xs" "x \<in> set xs" using f c(5) by auto
    then show ?thesis using take_run [OF r, of pw x nunits] a n c(1) by (intro disjI1) auto
  next
    assume a: "(\<forall>x\<in>set (p # vs). hd_size h x < nunits) \<and> malloc_loop grow nunits (freep h) p h =
      Option.bind (morecore grow nunits h) (\<lambda>(p, h). if p = 0 then Some (0, h) else malloc_loop grow nunits p (hd_ptr h p) h)"
    then show ?thesis unfolding c(5) c(1) by blast
  qed
qed

text \<open>
  The outcome of an allocation: out of memory, or a block of \<open>nunits\<close> units cut out of the free memory, which
  may have grown at the break.
\<close>

definition given :: "nat \<Rightarrow> heap \<Rightarrow> nat list \<Rightarrow> u32 \<Rightarrow> nat \<Rightarrow> heap \<Rightarrow> nat list \<Rightarrow> bool" where
  "given base h xs nunits p h' xs' \<longleftrightarrow> free_list base h' xs' \<and> hd_size h' p = nunits \<and> base < p \<and> brk h \<le> brk h' \<and>
     block h' p \<subseteq> free_bytes h xs \<union> {brk h..<brk h'} \<and> free_bytes h' xs' = (free_bytes h xs \<union> {brk h..<brk h'}) - block h' p \<and>
     (\<forall>a. a \<notin> free_bytes h xs \<union> {brk h..<brk h'} \<longrightarrow> hd_size h' a = hd_size h a)"

lemma malloc_loop_gives:
  assumes r: "free_list base h xs" and n: "0 < nunits" "unat nunits < 2 ^ 28" and g: "grows grow"
  shows "malloc_loop grow nunits (freep h) (hd_ptr h (freep h)) h = Some (0, h) \<or>
    (\<exists>p h' xs'. malloc_loop grow nunits (freep h) (hd_ptr h (freep h)) h = Some (p + 8, h') \<and> given base h xs nunits p h' xs')"
proof (cases "\<exists>p h' xs'. malloc_loop grow nunits (freep h) (hd_ptr h (freep h)) h = Some (p + 8, h') \<and> cut_out base h xs nunits p h' xs'")
  case True
  then show ?thesis unfolding cut_out_def given_def by fastforce
next
  case False
  then have m: "malloc_loop grow nunits (freep h) (hd_ptr h (freep h)) h =
      Option.bind (morecore grow nunits h) (\<lambda>(p, h). if p = 0 then Some (0, h) else malloc_loop grow nunits p (hd_ptr h p) h)"
    using malloc_loop_run [OF r n(1)] by blast
  from morecore_run [OF r g n(2)] show ?thesis
  proof (elim disjE exE conjE)
    assume "morecore grow nunits h = Some (0, h)"
    then show ?thesis unfolding m by simp
  next
    fix h1 xs1 b
    assume c: "morecore grow nunits h = Some (freep h1, h1)" "free_list base h1 xs1" "brk h < b" "brk h1 = b"
      "free_bytes h1 xs1 = free_bytes h xs \<union> {brk h..<b}" "\<forall>a. a \<notin> free_bytes h1 xs1 \<longrightarrow> hd_size h1 a = hd_size h a" "\<exists>x\<in>set xs1. nunits \<le> hd_size h1 x"
    have "freep h1 \<noteq> 0" using c(2) ring_base [OF c(2), of "freep h1"] by (auto simp: free_list_def)
    then have e: "malloc_loop grow nunits (freep h) (hd_ptr h (freep h)) h = malloc_loop grow nunits (freep h1) (hd_ptr h1 (freep h1)) h1"
      unfolding m c(1) by simp
    have "\<not> (\<forall>x\<in>set xs1. hd_size h1 x < nunits)" using c(7) by (auto simp: not_less)
    then obtain p h' xs' where "malloc_loop grow nunits (freep h1) (hd_ptr h1 (freep h1)) h1 = Some (p + 8, h')" "cut_out base h1 xs1 nunits p h' xs'"
      using malloc_loop_run [OF c(2) n(1), of grow] by blast
    then show ?thesis unfolding e given_def cut_out_def using c(3-6) by (intro disjI2 exI [of _ p] exI [of _ h'] exI [of _ xs']) auto
  qed
qed

section \<open>Programs\<close>

text \<open>
  A program that allocates, frees what it was given and writes to the bytes it asked for. A write may change
  whatever the fields of headers would read at the addresses it covers.
\<close>

record heap_sys =
  hs_heap :: heap
  hs_live :: "nat \<Rightarrow> u32 option"

inductive heap_step :: "grower \<Rightarrow> nat \<Rightarrow> heap_sys \<Rightarrow> heap_sys \<Rightarrow> bool" for grow base where
  heap_malloc: "unat n < 2 ^ 31 - 16 \<Longrightarrow> malloc grow base n (hs_heap s) = Some (ap, h) \<Longrightarrow> ap \<noteq> 0 \<Longrightarrow>
     heap_step grow base s (s\<lparr>hs_heap := h, hs_live := (hs_live s)(ap \<mapsto> n)\<rparr>)"
| heap_full: "unat n < 2 ^ 31 - 16 \<Longrightarrow> malloc grow base n (hs_heap s) = Some (0, h) \<Longrightarrow> heap_step grow base s (s\<lparr>hs_heap := h\<rparr>)"
| heap_free: "hs_live s ap = Some n \<Longrightarrow> free ap (hs_heap s) = Some h \<Longrightarrow>
     heap_step grow base s (s\<lparr>hs_heap := h, hs_live := (hs_live s)(ap := None)\<rparr>)"
| heap_write: "hs_live s ap = Some n \<Longrightarrow>
     (\<And>a. {a..<a + 8} \<inter> {ap..<ap + unat n} = {} \<Longrightarrow> ptr a = hd_ptr (hs_heap s) a \<and> sz a = hd_size (hs_heap s) a) \<Longrightarrow>
     heap_step grow base s (s\<lparr>hs_heap := (hs_heap s)\<lparr>hd_ptr := ptr, hd_size := sz\<rparr>\<rparr>)"

definition heap_init :: "grower \<Rightarrow> nat \<Rightarrow> heap_sys \<Rightarrow> bool" where
  "heap_init grow base s \<longleftrightarrow> grows grow \<and> 0 < base \<and> base + 8 \<le> brk (hs_heap s) \<and> brk (hs_heap s) < 2 ^ 32 \<and> freep (hs_heap s) = 0 \<and> hs_live s = Map.empty"

text \<open>The block of an allocation: the header and the bytes rounded up to units.\<close>

definition area :: "nat \<Rightarrow> u32 \<Rightarrow> nat set" where
  "area ap n = {ap - 8..<ap - 8 + 8 * unat (units_for n)}"

definition owned :: "nat \<Rightarrow> heap \<Rightarrow> nat set \<Rightarrow> (nat \<Rightarrow> u32 option) \<Rightarrow> bool" where
  "owned base h F live \<longleftrightarrow> F \<subseteq> {base + 8..} \<and>
     (\<forall>ap n. live ap = Some n \<longrightarrow> base + 16 \<le> ap \<and> unat n < 2 ^ 31 - 16 \<and> hd_size h (ap - 8) = units_for n \<and>
        area ap n \<subseteq> {base + 8..<brk h} - F) \<and>
     (\<forall>ap n bp m. live ap = Some n \<and> live bp = Some m \<and> ap \<noteq> bp \<longrightarrow> area ap n \<inter> area bp m = {})"

definition heap_inv :: "nat \<Rightarrow> heap_sys \<Rightarrow> bool" where
  "heap_inv base s \<longleftrightarrow> (freep (hs_heap s) = 0 \<longrightarrow> hs_live s = Map.empty) \<and> base + 8 \<le> brk (start_list base (hs_heap s)) \<and>
     (\<exists>xs. free_list base (start_list base (hs_heap s)) xs \<and>
        owned base (start_list base (hs_heap s)) (free_bytes (start_list base (hs_heap s)) xs) (hs_live s))"

lemma units_for_small:
  assumes "unat n < 2 ^ 31 - 16"
  shows "unat (units_for n) = (unat n + 7) div 8 + 1" "unat (units_for n) < 2 ^ 28" "0 < units_for n" "unat n + 8 \<le> 8 * unat (units_for n)"
proof -
  have a: "unat (n + 7) = unat n + 7" using assms by (simp add: unat_word_ariths)
  then have "unat ((n + 7) div 8) = (unat n + 7) div 8" by (simp add: unat_div)
  moreover have "(unat n + 7) div 8 + 1 < 2 ^ 28" using assms by simp
  ultimately show u: "unat (units_for n) = (unat n + 7) div 8 + 1" unfolding units_for_def by (simp add: unat_word_ariths)
  then show "unat (units_for n) < 2 ^ 28" using assms by simp
  show "0 < units_for n" using u by (simp add: word_less_nat_alt)
  show "unat n + 8 \<le> 8 * unat (units_for n)" unfolding u by simp
qed

lemma area_head: "unat n < 2 ^ 31 - 16 \<Longrightarrow> ap - 8 \<in> area ap n"
  using units_for_small(3) [of n] by (simp add: area_def word_less_nat_alt)

lemma area_bytes: "unat n < 2 ^ 31 - 16 \<Longrightarrow> 8 \<le> ap \<Longrightarrow> {ap..<ap + unat n} \<subseteq> area ap n"
  using units_for_small(4) [of n] by (auto simp: area_def)

lemma area_block: "hd_size h (ap - 8) = units_for n \<Longrightarrow> block h (ap - 8) = area ap n"
  by (simp add: area_def block_def blk_end_def)

lemma free_list_freep: "free_list base h xs \<Longrightarrow> freep h \<noteq> 0"
  using ring_base [of base h xs "freep h"] by (auto simp: free_list_def)

lemma heap_inv_init: "heap_init grow base s \<Longrightarrow> heap_inv base s"
  unfolding heap_init_def heap_inv_def
  by (intro conjI impI exI [of _ "[base]"]) (auto simp: free_list_def start_list_def owned_def block_def blk_end_def)

lemma free_bytes_below: "free_list base h xs \<Longrightarrow> free_bytes h xs \<subseteq> {..<brk h}"
  by (fastforce simp: free_list_def free_bytes_def block_def)

lemma ownedD:
  assumes "owned base h F live" "live ap = Some n"
  shows "base + 16 \<le> ap" "unat n < 2 ^ 31 - 16" "hd_size h (ap - 8) = units_for n" "area ap n \<subseteq> {base + 8..<brk h} - F"
    "ap - 8 \<in> {base + 8..<brk h} - F"
proof -
  show a: "base + 16 \<le> ap" "unat n < 2 ^ 31 - 16" "hd_size h (ap - 8) = units_for n" "area ap n \<subseteq> {base + 8..<brk h} - F"
    using assms unfolding owned_def by blast+
  show "ap - 8 \<in> {base + 8..<brk h} - F" using area_head [OF a(2)] a(4) by blast
qed

lemma owned_give:
  assumes r: "free_list base h xs" and o: "owned base h (free_bytes h xs) live" and g: "given base h xs (units_for n) p h' xs'"
    and n: "unat n < 2 ^ 31 - 16" and b: "base + 8 \<le> brk h"
  shows "owned base h' (free_bytes h' xs') (live(p + 8 \<mapsto> n))"
proof -
  define F where "F = free_bytes h xs"
  have p: "area (p + 8) n = block h' p" using area_block [of h' "p + 8" n] g by (simp add: given_def)
  have gv: "block h' p \<subseteq> F \<union> {brk h..<brk h'}" "free_bytes h' xs' = (F \<union> {brk h..<brk h'}) - block h' p" "brk h \<le> brk h'"
    "\<And>a. a \<notin> F \<union> {brk h..<brk h'} \<Longrightarrow> hd_size h' a = hd_size h a" "hd_size h' p = units_for n"
    using g by (auto simp: given_def F_def)
  have F: "F \<subseteq> {base + 8..<brk h}" using o free_bytes_below [OF r] by (auto simp: owned_def F_def)
  then have G: "F \<union> {brk h..<brk h'} \<subseteq> {base + 8..<brk h'}" using b gv(3) by auto
  have old: "area ap m \<subseteq> {base + 8..<brk h} - F" "ap - 8 \<in> {base + 8..<brk h} - F" "hd_size h (ap - 8) = units_for m"
    "base + 16 \<le> ap" "unat m < 2 ^ 31 - 16" if "live ap = Some m" for ap m
    using ownedD [OF o that] by (simp_all add: F_def)
  have "p \<in> area (p + 8) n" using area_head [OF n, of "p + 8"] by simp
  then have "p \<in> F \<union> {brk h..<brk h'}" using gv(1) p by blast
  then have new: "base + 16 \<le> p + 8" "area (p + 8) n \<subseteq> {base + 8..<brk h'} - free_bytes h' xs'"
    using G gv(1,2) p by auto
  have size: "hd_size h' (ap - 8) = units_for m" if "live ap = Some m" for ap m using old(2,3) [OF that] gv(4) [of "ap - 8"] by auto
  have dis: "({base + 8..<brk h} - F) \<inter> (F \<union> {brk h..<brk h'}) = {}" "{base + 8..<brk h} \<subseteq> {base + 8..<brk h'}" using gv(3) by auto
  have sep: "area ap m \<inter> area (p + 8) n = {}" if "live ap = Some m" for ap m using old(1) [OF that] gv(1) p dis(1) by blast
  have keep: "area ap m \<subseteq> {base + 8..<brk h'} - free_bytes h' xs'" if "live ap = Some m" for ap m
    using old(1) [OF that] gv(2) dis by blast
  have each: "area ap m \<inter> area bp k = {}" if "live ap = Some m" "live bp = Some k" "ap \<noteq> bp" for ap m bp k
    using o that by (auto simp: owned_def)
  show ?thesis unfolding owned_def
  proof (intro conjI allI impI)
    show "free_bytes h' xs' \<subseteq> {base + 8..}" using gv(2) G by auto
  next
    fix ap m bp k
    assume "(live(p + 8 \<mapsto> n)) ap = Some m \<and> (live(p + 8 \<mapsto> n)) bp = Some k \<and> ap \<noteq> bp"
    then show "area ap m \<inter> area bp k = {}" using sep [of ap m] sep [of bp k] each [of ap m bp k] by (auto simp: Int_commute split: if_splits)
  qed (use new n gv(5) old size keep in \<open>auto split: if_splits\<close>)
qed

lemma heap_inv_malloc:
  assumes i: "heap_inv base s" and g: "grows grow" and n: "unat n < 2 ^ 31 - 16"
  shows "\<exists>ap h. malloc grow base n (hs_heap s) = Some (ap, h) \<and>
    heap_inv base (s\<lparr>hs_heap := h, hs_live := (if ap = 0 then hs_live s else (hs_live s)(ap \<mapsto> n))\<rparr>)"
proof -
  define h0 where "h0 = start_list base (hs_heap s)"
  obtain xs where x: "free_list base h0 xs" "owned base h0 (free_bytes h0 xs) (hs_live s)" and b: "base + 8 \<le> brk h0"
    using i by (auto simp: heap_inv_def h0_def)
  have m: "malloc grow base n (hs_heap s) = malloc_loop grow (units_for n) (freep h0) (hd_ptr h0 (freep h0)) h0"
    by (simp add: malloc_def h0_def Let_def)
  have st: "start_list base h = h" if "free_list base h xs" for h xs using free_list_freep [OF that] by (simp add: start_list_def)
  from malloc_loop_gives [OF x(1) units_for_small(3,2) [OF n] g] show ?thesis unfolding m
  proof (elim disjE exE conjE)
    assume "malloc_loop grow (units_for n) (freep h0) (hd_ptr h0 (freep h0)) h0 = Some (0, h0)"
    then show "\<exists>ap h. malloc_loop grow (units_for n) (freep h0) (hd_ptr h0 (freep h0)) h0 = Some (ap, h) \<and>
      heap_inv base (s\<lparr>hs_heap := h, hs_live := (if ap = 0 then hs_live s else (hs_live s)(ap \<mapsto> n))\<rparr>)"
      using x b st [OF x(1)] free_list_freep [OF x(1)] by (auto simp: heap_inv_def)
  next
    fix p h' xs'
    assume c: "malloc_loop grow (units_for n) (freep h0) (hd_ptr h0 (freep h0)) h0 = Some (p + 8, h')" "given base h0 xs (units_for n) p h' xs'"
    have r: "free_list base h' xs'" and b': "base + 8 \<le> brk h'" using c(2) b by (simp_all add: given_def)
    show "\<exists>ap h. malloc_loop grow (units_for n) (freep h0) (hd_ptr h0 (freep h0)) h0 = Some (ap, h) \<and>
      heap_inv base (s\<lparr>hs_heap := h, hs_live := (if ap = 0 then hs_live s else (hs_live s)(ap \<mapsto> n))\<rparr>)"
      using c(1) owned_give [OF x c(2) n b] r st [OF r] free_list_freep [OF r] b' by (auto simp: heap_inv_def)
  qed
qed

lemma heap_inv_free:
  assumes i: "heap_inv base s" and l: "hs_live s ap = Some n"
  shows "\<exists>h. free ap (hs_heap s) = Some h \<and> heap_inv base (s\<lparr>hs_heap := h, hs_live := (hs_live s)(ap := None)\<rparr>)"
proof -
  define h where "h = hs_heap s"
  have f: "start_list base h = h" using i l by (auto simp: heap_inv_def start_list_def h_def)
  obtain xs where x: "free_list base h xs" "owned base h (free_bytes h xs) (hs_live s)" and b: "base + 8 \<le> brk h"
    using i f by (auto simp: heap_inv_def h_def)
  note a = ownedD [OF x(2) l]
  have ab: "block h (ap - 8) = area ap n" using area_block [OF a(3)] .
  have "ap - 8 < blk_end h (ap - 8)" using area_head [OF a(2), of ap] unfolding ab [symmetric] block_def by simp
  moreover from this have "blk_end h (ap - 8) - 1 \<in> block h (ap - 8)" by (auto simp: block_def)
  ultimately have e: "ap - 8 < blk_end h (ap - 8)" "blk_end h (ap - 8) \<le> brk h" using subsetD [OF a(4)] unfolding ab [symmetric] by fastforce+
  have d: "area ap n \<inter> free_bytes h xs = {}" and lo: "base < ap - 8" using a(1,4) by auto
  obtain h' xs' where r: "free ap h = Some h'" "free_list base h' xs'" "free_bytes h' xs' = free_bytes h xs \<union> area ap n" "brk h' = brk h"
    "\<And>a. a \<notin> free_bytes h' xs' \<Longrightarrow> hd_size h' a = hd_size h a"
    using free_run [OF x(1) lo e, unfolded ab, OF d] a(1) by auto
  have "owned base h' (free_bytes h' xs') ((hs_live s)(ap := None))"
    unfolding owned_def
  proof (intro conjI allI impI)
    show "free_bytes h' xs' \<subseteq> {base + 8..}" using x(2) a(4) by (auto simp: owned_def r(3))
  next
    fix bp m
    assume m: "((hs_live s)(ap := None)) bp = Some m"
    then have k: "hs_live s bp = Some m" "bp \<noteq> ap" by (auto split: if_splits)
    then have c: "area ap n \<inter> area bp m = {}" using x(2) l unfolding owned_def by blast
    note d = ownedD [OF x(2) k(1)]
    show "base + 16 \<le> bp" "unat m < 2 ^ 31 - 16" using d by auto
    have "area bp m \<subseteq> {base + 8..<brk h'} - (free_bytes h xs \<union> area ap n)" unfolding r(4) using d(4) c by fast
    then show t: "area bp m \<subseteq> {base + 8..<brk h'} - free_bytes h' xs'" unfolding r(3) .
    show "hd_size h' (bp - 8) = units_for m" using subsetD [OF t area_head [OF d(2), of bp]] r(5) [of "bp - 8"] d(3) by simp
  next
    fix cp m bp k
    assume "((hs_live s)(ap := None)) cp = Some m \<and> ((hs_live s)(ap := None)) bp = Some k \<and> cp \<noteq> bp"
    then have "hs_live s cp = Some m \<and> hs_live s bp = Some k \<and> cp \<noteq> bp" by (auto split: if_splits)
    then show "area cp m \<inter> area bp k = {}" using x(2) unfolding owned_def by blast
  qed
  then show ?thesis using r(1,2,4) b free_list_freep [OF r(2)]
    by (intro exI [of _ h']) (auto simp: heap_inv_def start_list_def h_def)
qed

text \<open>The free list does not depend on what the headers of other addresses read.\<close>

lemma free_list_cong:
  assumes r: "free_list base h xs" and s: "\<And>x. x \<in> set xs \<Longrightarrow> ptr x = hd_ptr h x \<and> sz x = hd_size h x"
  shows "free_list base (h\<lparr>hd_ptr := ptr, hd_size := sz\<rparr>) xs" "free_bytes (h\<lparr>hd_ptr := ptr, hd_size := sz\<rparr>) xs = free_bytes h xs"
proof -
  let ?h = "h\<lparr>hd_ptr := ptr, hd_size := sz\<rparr>"
  have e: "blk_end ?h x = blk_end h x" if "x \<in> set xs" for x using s [OF that] by (simp add: blk_end_def)
  have "linked ?h xs base = linked h xs base" by (rule linked_cong) (simp add: s)
  moreover have "sorted_wrt (apart ?h) xs" by (rule sorted_wrt_mono_rel [of xs "apart h"]) (use r e in \<open>auto simp: apart_def free_list_def\<close>)
  moreover have "base \<in> set xs" using r by (cases xs) (auto simp: free_list_def)
  ultimately show "free_list base ?h xs" using r e s by (auto simp: free_list_def)
  show "free_bytes ?h xs = free_bytes h xs" using e by (auto simp: free_bytes_def block_def)
qed

lemma heap_inv_write:
  assumes i: "heap_inv base s" and l: "hs_live s ap = Some n"
    and w: "\<And>a. {a..<a + 8} \<inter> {ap..<ap + unat n} = {} \<Longrightarrow> ptr a = hd_ptr (hs_heap s) a \<and> sz a = hd_size (hs_heap s) a"
  shows "heap_inv base (s\<lparr>hs_heap := (hs_heap s)\<lparr>hd_ptr := ptr, hd_size := sz\<rparr>\<rparr>)"
proof -
  define h where "h = hs_heap s"
  have f: "freep h \<noteq> 0" using i l by (auto simp: heap_inv_def h_def)
  obtain xs where x: "free_list base h xs" "owned base h (free_bytes h xs) (hs_live s)" and b: "base + 8 \<le> brk h"
    using i f by (auto simp: heap_inv_def h_def start_list_def)
  note a = ownedD [OF x(2) l]
  have in_area: "{ap..<ap + unat n} \<subseteq> area ap n" using area_bytes [OF a(2)] a(1) by simp
  have free: "{c..<c + 8} \<inter> area ap n = {}" if c: "c \<in> set xs" for c
  proof (cases "c = base")
    case True
    then show ?thesis using a(4) by auto
  next
    case False
    then have "c < blk_end h c" using x(1) c by (auto simp: free_list_def)
    then have "c + 8 \<le> blk_end h c" by (simp add: blk_end_def)
    then have "{c..<c + 8} \<subseteq> free_bytes h xs" using c by (force simp: free_bytes_def block_def)
    then show ?thesis using a(4) by blast
  qed
  have live: "{bp - 8..<bp - 8 + 8} \<inter> {ap..<ap + unat n} = {}" if "hs_live s bp = Some m" for bp m
  proof (cases "bp = ap")
    case True
    then show ?thesis using a(1) by auto
  next
    case False
    note d = ownedD [OF x(2) that]
    have "{bp - 8..<bp - 8 + 8} \<subseteq> area bp m" using units_for_small(4) [OF d(2)] by (auto simp: area_def)
    then show ?thesis using x(2) False that l in_area unfolding owned_def by blast
  qed
  have fr: "{c..<c + 8} \<inter> {ap..<ap + unat n} = {}" if "c \<in> set xs" for c using free [OF that] in_area by blast
  have "ptr c = hd_ptr h c \<and> sz c = hd_size h c" if "c \<in> set xs" for c using w [OF fr [OF that]] by (simp add: h_def)
  note q = free_list_cong [OF x(1) this]
  have sz: "sz (bp - 8) = hd_size h (bp - 8)" if "hs_live s bp = Some m" for bp m using w [OF live [OF that]] by (simp add: h_def)
  have "owned base (h\<lparr>hd_ptr := ptr, hd_size := sz\<rparr>) (free_bytes h xs) (hs_live s)" using x(2) sz by (auto simp: owned_def)
  then show ?thesis using q f b by (auto simp: heap_inv_def start_list_def h_def)
qed

interpretation mem: inductive_invariant "heap_init grow base" "heap_step grow base" "\<lambda>s. grows grow \<and> heap_inv base s" for grow base
proof unfold_locales
  show "grows grow \<and> heap_inv base s" if "heap_init grow base s" for s using that heap_inv_init [OF that] by (simp add: heap_init_def)
  show "grows grow \<and> heap_inv base t" if i: "grows grow \<and> heap_inv base s" and st: "heap_step grow base s t" for s t
    using st
  proof cases
    case (heap_malloc n ap h)
    then show ?thesis using heap_inv_malloc [of base s grow n] i by auto
  next
    case (heap_full n h)
    then show ?thesis using heap_inv_malloc [of base s grow n] i by auto
  next
    case (heap_free ap n h)
    then show ?thesis using heap_inv_free [of base s ap n] i by auto
  next
    case (heap_write ap n ptr sz)
    then show ?thesis using heap_inv_write [of base s ap n ptr sz] i by auto
  qed
qed

text \<open>
  C11: the allocator gives out memory once. Take any program that allocates blocks of less than two gigabytes,
  frees blocks it holds, each once, and writes within the bytes it asked for, on a kernel whose \<open>sbrk\<close> moves
  the break by its argument or refuses. At any moment the bytes of the blocks it holds lie above the static header and
  below the break, no two blocks share a byte, and neither \<open>malloc\<close> nor the \<open>free\<close> of a block it holds
  fails to return.
\<close>

theorem malloc_gives_apart:
  assumes "reach (heap_init grow base) (heap_step grow base) s"
  shows "(\<forall>k. unat k < 2 ^ 31 - 16 \<longrightarrow> malloc grow base k (hs_heap s) \<noteq> None) \<and>
    (\<forall>ap n. hs_live s ap = Some n \<longrightarrow> free ap (hs_heap s) \<noteq> None \<and> {ap..<ap + unat n} \<subseteq> {base + 8..<brk (hs_heap s)}) \<and>
    (\<forall>ap n bp m. hs_live s ap = Some n \<and> hs_live s bp = Some m \<and> ap \<noteq> bp \<longrightarrow> {ap..<ap + unat n} \<inter> {bp..<bp + unat m} = {})"
proof -
  have i: "grows grow" "heap_inv base s" using mem.reach_inv [OF assms] by auto
  obtain F where o: "owned base (start_list base (hs_heap s)) F (hs_live s)" using i(2) by (auto simp: heap_inv_def)
  have b: "brk (start_list base (hs_heap s)) = brk (hs_heap s)" by (simp add: start_list_def)
  have a: "{ap..<ap + unat n} \<subseteq> area ap n" "area ap n \<subseteq> {base + 8..<brk (hs_heap s)}" if "hs_live s ap = Some n" for ap n
    using area_bytes [of n ap] ownedD(1,2,4) [OF o that] unfolding b by auto
  show ?thesis
  proof (intro conjI allI impI)
    show "malloc grow base k (hs_heap s) \<noteq> None" if "unat k < 2 ^ 31 - 16" for k using heap_inv_malloc [OF i(2,1) that] by auto
    show "free ap (hs_heap s) \<noteq> None" if l: "hs_live s ap = Some n" for ap n using heap_inv_free [OF i(2) l] by auto
    show "{ap..<ap + unat n} \<subseteq> {base + 8..<brk (hs_heap s)}" if l: "hs_live s ap = Some n" for ap n using a [OF l] by (rule subset_trans)
  next
    fix ap n bp m
    assume l: "hs_live s ap = Some n \<and> hs_live s bp = Some m \<and> ap \<noteq> bp"
    then have "area ap n \<inter> area bp m = {}" using o unfolding owned_def by blast
    then show "{ap..<ap + unat n} \<inter> {bp..<bp + unat m} = {}" using a(1) [of ap n] a(1) [of bp m] l by blast
  qed
qed

definition heap0 :: heap where
  "heap0 = \<lparr>hd_ptr = (\<lambda>_. 0), hd_size = (\<lambda>_. 0), freep = 0, brk = 4096, pg_flag = (\<lambda>_. False), pg_write = (\<lambda>_. True), pg_count = 0\<rparr>"

definition grow_1M :: grower where
  "grow_1M b n = (if 0 \<le> n \<and> int b + n < 2 ^ 20 then Some (nat (int b + n)) else None)"

lemma malloc_first:
  "\<exists>h. malloc grow_1M 100 10 heap0 = Some (36848, h) \<and> freep h = 100 \<and> hd_ptr h 100 = 4096 \<and> hd_size h 4096 = 4093"
proof -
  let ?h = "\<lparr>hd_ptr = (\<lambda>_. 0)(100 := 100), hd_size = (\<lambda>_. 0)(100 := 0), freep = 100, brk = 4096, pg_flag = (\<lambda>_. False), pg_write = (\<lambda>_. True), pg_count = 0\<rparr>"
  let ?g = "\<lparr>hd_ptr = (\<lambda>_. 0)(100 := 4096, 4096 := 100), hd_size = (\<lambda>_. 0)(100 := 0, 4096 := 4096), freep = 100, brk = 36864,
    pg_flag = (\<lambda>_. False), pg_write = (\<lambda>_. True), pg_count = 0\<rparr>"
  have u: "units_for 10 = 3" by (simp add: units_for_def)
  have "free_find (?h\<lparr>brk := 36864, hd_size := (hd_size ?h)(4096 := 4096)\<rparr>) 4096 100 = Some 100" by (subst free_find.simps) simp
  then have mc: "morecore grow_1M 3 ?h = Some (100, ?g)"
    by (simp add: morecore_def grow_1M_def free_def free_join_def join_next_def blk_end_def Let_def fun_upd_twist)
  have l1: "malloc_loop grow_1M 3 100 100 ?h = malloc_loop grow_1M 3 100 4096 ?g"
    by (subst malloc_loop.simps) (simp add: mc)
  have l2: "malloc_loop grow_1M 3 100 4096 ?g = Some (malloc_take 3 100 4096 ?g)" by (subst malloc_loop.simps) simp
  have "start_list 100 heap0 = ?h" by (simp add: start_list_def heap0_def)
  then show ?thesis by (simp add: malloc_def Let_def u l1 l2) (simp add: malloc_take_def Let_def)
qed

lemma malloc_second:
  assumes "freep h = 100" "hd_ptr h 100 = 4096" "hd_size h 4096 = 4093"
  shows "\<exists>h'. malloc grow_1M 100 20 h = Some (36816, h')"
proof -
  have u: "units_for 20 = 4" by (simp add: units_for_def)
  have "malloc_loop grow_1M 4 100 4096 h = Some (malloc_take 4 100 4096 h)" using assms by (subst malloc_loop.simps) simp
  then show ?thesis using assms by (simp add: malloc_def start_list_def Let_def u) (simp add: malloc_take_def Let_def)
qed

theorem malloc_gives_apart_witness:
  "\<exists>s :: heap_sys. hs_live s 36848 = Some 10 \<and> hs_live s 36816 = Some 20 \<and> {36848..<36848 + 10::nat} \<inter> {36816..<36816 + 20} = {} \<and>
     free 36848 (hs_heap s) \<noteq> None \<and> malloc grow_1M 100 5000 (hs_heap s) \<noteq> None"
proof -
  let ?s0 = "\<lparr>hs_heap = heap0, hs_live = Map.empty\<rparr>"
  obtain h1 h2 where m: "malloc grow_1M 100 10 heap0 = Some (36848, h1)" "malloc grow_1M 100 20 h1 = Some (36816, h2)"
    using malloc_first malloc_second by blast
  let ?s1 = "?s0\<lparr>hs_heap := h1, hs_live := (hs_live ?s0)(36848 \<mapsto> 10)\<rparr>"
  let ?s2 = "?s1\<lparr>hs_heap := h2, hs_live := (hs_live ?s1)(36816 \<mapsto> 20)\<rparr>"
  have "heap_init grow_1M 100 ?s0" by (auto simp: heap_init_def heap0_def grows_def grow_1M_def)
  moreover have "heap_step grow_1M 100 ?s0 ?s1" by (rule heap_malloc) (use m in auto)
  moreover have "heap_step grow_1M 100 ?s1 ?s2" by (rule heap_malloc) (use m in auto)
  ultimately have r: "reach (heap_init grow_1M 100) (heap_step grow_1M 100) ?s2" by (blast intro: reach.intros)
  then obtain s where s: "reach (heap_init grow_1M 100) (heap_step grow_1M 100) s" "hs_live s 36848 = Some 10" "hs_live s 36816 = Some 20"
    by force
  note c = malloc_gives_apart [OF s(1)]
  have "malloc grow_1M 100 5000 (hs_heap s) \<noteq> None" using conjunct1 [OF c] by simp
  moreover have "free 36848 (hs_heap s) \<noteq> None" using conjunct1 [OF conjunct2 [OF c]] s(2) by blast
  moreover have "{36848..<36848 + unat (10::u32)} \<inter> {36816..<36816 + unat (20::u32)} = {}"
    using conjunct2 [OF conjunct2 [OF c]] s(2,3)
    by (elim allE [of _ "36848::nat"] allE [of _ "10::u32"] allE [of _ "36816::nat"] allE [of _ "20::u32"]) simp
  ultimately show ?thesis using s(2,3) by (intro exI [of _ s]) simp
qed

text \<open>
  A request within eight bytes of four gigabytes wraps around to one unit: the block returned has no byte
  for the caller.
\<close>

lemma malloc_wraps: "units_for 4294967289 = 1"
  by (simp add: units_for_def)

section \<open>Pages\<close>

text \<open>
  A free block that begins at a page boundary is cut in three: the rest of the block, which stays free, a
  header and one page at a page boundary, and the units after the page, which belong to no block from then
  on.
\<close>

lemma pmalloc_take_cuts:
  assumes p: "4096 dvd p" and s: "1024 \<le> hd_size h p" and q: "q = unat (hd_size h p) div 512"
  shows "\<exists>h'. pmalloc_take pv p h = (p + 4096 * (q - 1), h') \<and> 4096 dvd p + 4096 * (q - 1) \<and>
    blk_end h' p + 8 = p + 4096 * (q - 1) \<and> hd_size h' (blk_end h' p) = 513 \<and>
    blk_end h' (blk_end h' p) = p + 4096 * q \<and> p + 4096 * q \<le> blk_end h p \<and> pg_flag h' ((p + 4096 * (q - 1)) div 4096)"
proof -
  let ?s = "unat (hd_size h p)"
  have s': "1024 \<le> ?s" using s by (simp add: word_le_nat_alt)
  then have q2: "2 \<le> q" unfolding q by simp
  have le: "512 * q \<le> ?s" unfolding q by simp
  have lt: "?s < 2 ^ 32" using unsigned_less [of "hd_size h p"] by simp
  have "q = unat (hd_size h p div 512)" unfolding q by (simp add: unat_div)
  then have d: "hd_size h p div 512 = of_nat q" by (simp only: of_nat_unat ucast_id)
  have "(of_nat q - 1) * 512 - 1 = (of_nat (512 * (q - 1) - 1) :: u32)" using q2 by (simp add: of_nat_diff)
  then have "unat ((of_nat q - 1) * 512 - 1 :: u32) = 512 * (q - 1) - 1" using le lt by (simp add: unat_of_nat)
  then have u: "unat ((hd_size h p div 512 - 1) * 512 - 1) = 512 * (q - 1) - 1" unfolding d .
  have a: "p + 8 * (512 * (q - 1) - 1) + 8 = p + 4096 * (q - 1)" "512 * (q - 1) - 1 \<noteq> 0" "8 * (512 * (q - 1) - 1) + 4104 = 4096 * q" using q2 by auto
  have "(p + 8 * (512 * (q - 1) - 1) + 8) div 4096 = p div 4096 + q - 1" unfolding a(1) using q2 by simp
  then show ?thesis using p u a le by (simp add: pmalloc_take_def blk_end_def Let_def)
qed

text \<open>A page that \<open>protect_page\<close> made read-only is writable again after \<open>pfree\<close>, which refuses every other page.\<close>

lemma pfree_refuses:
  "pfree ap h = Some (- 1, h) \<or> (pg_flag h (ap div 4096) \<and> protected ap h \<and> hd_size h (ap - 8) = 513)"
  by (auto simp: pfree_def)

lemma protect_then_pfree:
  assumes "protect_page ap h = (1, h')" "free ap (h\<lparr>pg_write := (pg_write h)(ap div 4096 := True)\<rparr>) = Some g"
  shows "protected ap h'" "pfree ap h' = Some (1, g)"
  using assms by (auto simp: protect_page_def pfree_def protected_def split: if_splits)

end
