(* ===== verification/Spec2Isabelle.thy ===== *)
theory Spec2Isabelle
  imports Vm_Spec Pipe_Spec Console_Spec Dinode_Spec Halts Exec_Spec Swap_Spec Tools Shell Umalloc
begin

text \<open>
  A verification development of an xv6 kernel with demand paging and protected pages.
\<close>

end
